(* ===== verification/Prelude.thy ===== *)
theory Prelude
  imports Main "HOL-Library.Word" "HOL-Library.List_Lexorder" "HOL-Library.Sublist"
begin

text \<open>
  Shared vocabulary of the development: the outcome of a Rust call, operations that thread a
  state and may panic or end the process, the total-correctness triple \<open>returns\<close> in which
  every component states what its operations do, the collections of rules the component
  theories extend, and the few facts on lists that several components need.
\<close>

section \<open>Outcomes and operations\<close>

text \<open>
  A call of the program returns a value, unwinds with a panic, or ends the process
  (\<open>std::process::exit\<close>). The state it leaves behind is visible in every case: a panic
  unwinds one thread, while the locks and the data they guard live on.
\<close>

datatype 'a outcome = Ret 'a | Panicked | Exited nat

type_synonym ('s, 'a) op = "'s \<Rightarrow> 'a outcome \<times> 's"

definition op_ret :: "'a \<Rightarrow> ('s, 'a) op" where
  "op_ret x = (\<lambda>s. (Ret x, s))"

definition op_panic :: "('s, 'a) op" where
  "op_panic = (\<lambda>s. (Panicked, s))"

definition op_exit :: "nat \<Rightarrow> ('s, 'a) op" where
  "op_exit c = (\<lambda>s. (Exited c, s))"

definition op_bind :: "('s, 'a) op \<Rightarrow> ('a \<Rightarrow> ('s, 'b) op) \<Rightarrow> ('s, 'b) op" where
  "op_bind m f = (\<lambda>s. case m s of
      (Ret x, s') \<Rightarrow> f x s'
    | (Panicked, s') \<Rightarrow> (Panicked, s')
    | (Exited c, s') \<Rightarrow> (Exited c, s'))"

definition op_get :: "('s \<Rightarrow> 'a) \<Rightarrow> ('s, 'a) op" where
  "op_get f = (\<lambda>s. (Ret (f s), s))"

definition op_modify :: "('s \<Rightarrow> 's) \<Rightarrow> ('s, unit) op" where
  "op_modify f = (\<lambda>s. (Ret (), f s))"

text \<open>\<open>unwrap\<close> of an \<open>Option\<close>.\<close>

definition op_unwrap :: "'a option \<Rightarrow> ('s, 'a) op" where
  "op_unwrap r = (case r of None \<Rightarrow> op_panic | Some x \<Rightarrow> op_ret x)"

text \<open>An operation on a field of a larger state.\<close>

definition op_on :: "('s \<Rightarrow> 't) \<Rightarrow> ('t \<Rightarrow> 's \<Rightarrow> 's) \<Rightarrow> ('t, 'a) op \<Rightarrow> ('s, 'a) op" where
  "op_on g p m = (\<lambda>s. case m (g s) of (r, t) \<Rightarrow> (r, p t s))"

text \<open>A \<open>for\<close> loop over a list, with and without results.\<close>

fun op_each :: "('a \<Rightarrow> ('s, unit) op) \<Rightarrow> 'a list \<Rightarrow> ('s, unit) op" where
  "op_each f [] = op_ret ()"
| "op_each f (x # xs) = op_bind (f x) (\<lambda>_. op_each f xs)"

fun op_map :: "('a \<Rightarrow> ('s, 'b) op) \<Rightarrow> 'a list \<Rightarrow> ('s, 'b list) op" where
  "op_map f [] = op_ret []"
| "op_map f (x # xs) = op_bind (f x) (\<lambda>y. op_bind (op_map f xs) (\<lambda>ys. op_ret (y # ys)))"

section \<open>Total correctness\<close>

text \<open>
  \<open>returns m s Q\<close>: from the state \<open>s\<close> the operation returns (it neither panics nor exits)
  and its value and final state satisfy \<open>Q\<close>.
\<close>

definition returns :: "('s, 'a) op \<Rightarrow> 's \<Rightarrow> ('a \<Rightarrow> 's \<Rightarrow> bool) \<Rightarrow> bool" where
  "returns m s Q \<longleftrightarrow> (case m s of (Ret x, s') \<Rightarrow> Q x s' | _ \<Rightarrow> False)"

named_theorems op_simps "evaluation of operations"
named_theorems wp "rules for returns"

lemma op_ret_eval [op_simps]: "op_ret x s = (Ret x, s)"
  by (simp add: op_ret_def)

lemma op_panic_eval [op_simps]: "op_panic s = (Panicked, s)"
  by (simp add: op_panic_def)

lemma op_exit_eval [op_simps]: "op_exit c s = (Exited c, s)"
  by (simp add: op_exit_def)

lemma op_get_eval [op_simps]: "op_get f s = (Ret (f s), s)"
  by (simp add: op_get_def)

lemma op_modify_eval [op_simps]: "op_modify h s = (Ret (), h s)"
  by (simp add: op_modify_def)

lemma op_unwrap_simps [op_simps]:
  "op_unwrap None = op_panic"
  "op_unwrap (Some x) = op_ret x"
  by (simp_all add: op_unwrap_def)

lemma op_bind_eq [op_simps]:
  "m s = (Ret x, s') \<Longrightarrow> op_bind m f s = f x s'"
  "m s = (Panicked, s') \<Longrightarrow> op_bind m f s = (Panicked, s')"
  "m s = (Exited c, s') \<Longrightarrow> op_bind m f s = (Exited c, s')"
  by (simp_all add: op_bind_def)

lemma op_bind_ret [simp]: "op_bind (op_ret x) f = f x"
  by (simp add: op_bind_def op_ret_def)

lemma op_bind_panic [simp]: "op_bind op_panic f = op_panic"
  by (simp add: op_bind_def op_panic_def)

lemma op_bind_assoc: "op_bind (op_bind m f) g = op_bind m (\<lambda>x. op_bind (f x) g)"
  by (rule ext) (simp add: op_bind_def split: prod.split outcome.split)

lemma returns_ret [wp]: "returns (op_ret x) s Q = Q x s"
  by (simp add: returns_def op_simps)

lemma returns_panic [wp]: "returns op_panic s Q = False"
  by (simp add: returns_def op_simps)

lemma returns_exit [wp]: "returns (op_exit c) s Q = False"
  by (simp add: returns_def op_simps)

lemma returns_get [wp]: "returns (op_get f) s Q = Q (f s) s"
  by (simp add: returns_def op_simps)

lemma returns_modify [wp]: "returns (op_modify h) s Q = Q () (h s)"
  by (simp add: returns_def op_simps)

lemma returns_bind [wp]:
  "returns (op_bind m f) s Q = returns m s (\<lambda>x s'. returns (f x) s' Q)"
  by (simp add: returns_def op_bind_def split: prod.split outcome.split)

lemma returns_on [wp]:
  "returns (op_on g p m) s Q = returns m (g s) (\<lambda>x t. Q x (p t s))"
  by (simp add: returns_def op_on_def split: prod.split outcome.split)

lemma returns_unwrap [wp]:
  "returns (op_unwrap r) s Q = (\<exists>x. r = Some x \<and> Q x s)"
  by (cases r) (simp_all add: op_unwrap_def wp)

lemma returns_if [wp]:
  "returns (if b then m else n) s Q = (if b then returns m s Q else returns n s Q)"
  by simp

lemma returns_mono: "returns m s P \<Longrightarrow> (\<And>x s'. P x s' \<Longrightarrow> Q x s') \<Longrightarrow> returns m s Q"
  by (auto simp: returns_def split: prod.splits outcome.splits)

lemma returns_conj: "returns m s P \<Longrightarrow> returns m s Q \<Longrightarrow> returns m s (\<lambda>x s'. P x s' \<and> Q x s')"
  by (auto simp: returns_def split: prod.splits outcome.splits)

lemma returnsE:
  assumes "returns m s Q"
  obtains x s' where "m s = (Ret x, s')" and "Q x s'"
  using assms by (auto simp: returns_def split: prod.splits outcome.splits)

lemma returnsI: "m s = (Ret x, s') \<Longrightarrow> Q x s' \<Longrightarrow> returns m s Q"
  by (simp add: returns_def)

lemma returns_eq: "m s = (Ret x, s') \<Longrightarrow> returns m s Q = Q x s'"
  by (simp add: returns_def)

text \<open>
  A loop keeps an invariant that each pass keeps: the loop rule of every \<open>for\<close> over a list.
  The invariant may speak about the elements already done.
\<close>

lemma returns_each:
  assumes step: "\<And>done x todo s. xs = done @ x # todo \<Longrightarrow> I done s \<Longrightarrow>
      returns (f x) s (\<lambda>_ s'. I (done @ [x]) s')"
    and init: "I [] s"
  shows "returns (op_each f xs) s (\<lambda>_ s'. I xs s')"
proof -
  have "xs = done @ todo \<Longrightarrow> I done s \<Longrightarrow> returns (op_each f todo) s (\<lambda>_ s'. I xs s')"
    for "done" todo s
  proof (induction todo arbitrary: "done" s)
    case Nil
    then show ?case by (simp add: wp)
  next
    case (Cons x todo)
    have "returns (f x) s (\<lambda>_ s'. I (done @ [x]) s')"
      using Cons.prems by (rule step)
    then show ?case
      unfolding op_each.simps returns_bind
      by (rule returns_mono) (rule Cons.IH, use Cons.prems in auto)
  qed
  from this[of "[]" xs s] init show ?thesis by simp
qed

section \<open>Lists\<close>

text \<open>\<open>Vec::swap_remove\<close>: the last element takes the place of the removed one.\<close>

definition swap_remove :: "nat \<Rightarrow> 'a list \<Rightarrow> 'a list" where
  "swap_remove i xs = butlast (xs[i := last xs])"

lemma swap_remove_snoc:
  "i < Suc (length ys) \<Longrightarrow>
    swap_remove i (ys @ [y]) = (if i = length ys then ys else ys[i := y])"
  by (auto simp: swap_remove_def list_update_append butlast_append)

lemma distinct_swap_remove:
  assumes "distinct xs" and "i < length xs"
  shows "distinct (swap_remove i xs) \<and> set (swap_remove i xs) = set xs - {xs ! i}"
proof (cases xs rule: rev_cases)
  case Nil
  with assms show ?thesis by simp
next
  case (snoc ys y)
  with assms show ?thesis
    by (auto simp: swap_remove_snoc nth_append set_update_distinct distinct_list_update)
qed

text \<open>\<open>Iterator::position\<close>.\<close>

fun position :: "('a \<Rightarrow> bool) \<Rightarrow> 'a list \<Rightarrow> nat option" where
  "position P [] = None"
| "position P (x # xs) = (if P x then Some 0 else map_option Suc (position P xs))"

lemma position_Some: "position P xs = Some i \<Longrightarrow> i < length xs \<and> P (xs ! i)"
  by (induction xs arbitrary: i) (auto split: if_splits)

lemma position_None: "position P xs = None \<longleftrightarrow> (\<forall>x \<in> set xs. \<not> P x)"
  by (induction xs) auto

lemma map_of_filter_fst:
  "map_of (filter (\<lambda>p. P (fst p)) m) k = (if P k then map_of m k else None)"
  by (induction m) auto

lemma map_of_filter_distinct:
  "distinct (map fst m) \<Longrightarrow> map_of (filter P m) k =
    (case map_of m k of None \<Rightarrow> None | Some v \<Rightarrow> if P (k, v) then Some v else None)"
  by (induction m) (auto split: option.splits simp: map_of_eq_None_iff)

lemma sorted_wrt_sort_key:
  "distinct (map fst m) \<Longrightarrow> sorted_wrt (<) (map fst (sort_key fst m))"
  by (simp add: strict_sorted_iff distinct_map inj_on_def)

end
