(* ===== verification/Interleave.thy ===== *)
theory Interleave
  imports Prelude
begin

text \<open>
  Threads that share a state. A thread is what is left of a call: it has halted, or its next
  atomic step (a critical section of the code, from taking a lock to releasing it) gives the state
  and what is left then. Threads interleave at their steps in any order. \<open>run_thread\<close> is a thread
  without others, so the threads of a component can be compared with its operations.
\<close>

datatype ('s, 'a) thread = Halt "'a outcome" | Step "'s \<Rightarrow> ('s, 'a) thread \<times> 's"

definition atomic :: "('s, 'b) op \<Rightarrow> ('b \<Rightarrow> ('s, 'a) thread) \<Rightarrow> ('s, 'a) thread" where
  "atomic m f = Step (\<lambda>s. case m s of
      (Ret x, s') \<Rightarrow> (f x, s')
    | (Panicked, s') \<Rightarrow> (Halt Panicked, s')
    | (Exited c, s') \<Rightarrow> (Halt (Exited c), s'))"

primrec run_thread :: "('s, 'a) thread \<Rightarrow> ('s, 'a) op" where
  "run_thread (Halt r) = (\<lambda>s. (r, s))"
| "run_thread (Step f) = (\<lambda>s. case map_prod run_thread (\<lambda>s. s) (f s) of (m, s') \<Rightarrow> m s')"

lemma run_halt: "run_thread (Halt (Ret x)) = op_ret x"
  by (simp add: op_ret_def)

lemma run_atomic: "run_thread (atomic m f) = op_bind m (\<lambda>x. run_thread (f x))"
  by (auto simp: atomic_def op_bind_def fun_eq_iff split: prod.split outcome.split)

section \<open>Interleavings\<close>

inductive interleave :: "'s \<times> ('s, 'a) thread list \<Rightarrow> 's \<times> ('s, 'a) thread list \<Rightarrow> bool" where
  interleave_step: "i < length ts \<Longrightarrow> ts ! i = Step f \<Longrightarrow> f s = (t, s') \<Longrightarrow> interleave (s, ts) (s', ts[i := t])"

inductive_cases interleave_cases: "interleave (s, ts) c"

lemma interleave_atomic:
  assumes "i < length ts" and "ts ! i = atomic m f" and "m s = (Ret x, s')"
  shows "interleave (s, ts) (s', ts[i := f x])"
  using assms by (intro interleave_step[where f = "\<lambda>s. case m s of
      (Ret x, s') \<Rightarrow> (f x, s') | (Panicked, s') \<Rightarrow> (Halt Panicked, s') | (Exited c, s') \<Rightarrow> (Halt (Exited c), s')"])
    (simp_all add: atomic_def)

text \<open>
  \<open>thread_ok I R n t\<close>: from any state with \<open>I\<close>, each step of \<open>t\<close> keeps \<open>I\<close>, it halts after \<open>n\<close> steps
  at most, and then has returned a value with \<open>R\<close>: it neither panics nor ends the process. The
  states between two steps may be changed by others, as long as they keep \<open>I\<close>.
\<close>

inductive thread_ok :: "('s \<Rightarrow> bool) \<Rightarrow> ('a \<Rightarrow> bool) \<Rightarrow> nat \<Rightarrow> ('s, 'a) thread \<Rightarrow> bool" for I R where
  ok_halt: "R x \<Longrightarrow> thread_ok I R n (Halt (Ret x))"
| ok_step: "(\<And>s. I s \<Longrightarrow> I (snd (f s)) \<and> thread_ok I R n (fst (f s))) \<Longrightarrow> thread_ok I R (Suc n) (Step f)"

inductive_cases thread_ok_halt: "thread_ok I R n (Halt r)"
inductive_cases thread_ok_step: "thread_ok I R n (Step f)"

lemma thread_ok_stepD:
  "thread_ok I R n (Step f) \<Longrightarrow> I s \<Longrightarrow> \<exists>m. n = Suc m \<and> I (snd (f s)) \<and> thread_ok I R m (fst (f s))"
  by (auto elim: thread_ok_step)

lemma thread_ok_atomic:
  assumes "\<And>s. I s \<Longrightarrow> returns m s (\<lambda>x s'. I s' \<and> thread_ok I R n (f x))"
  shows "thread_ok I R (Suc n) (atomic m f)"
  unfolding atomic_def
proof (rule ok_step)
  fix s assume "I s"
  from assms[OF this]
  show "I (snd (case m s of (Ret x, s') \<Rightarrow> (f x, s') | (Panicked, s') \<Rightarrow> (Halt Panicked, s') | (Exited c, s') \<Rightarrow> (Halt (Exited c), s'))) \<and>
    thread_ok I R n (fst (case m s of (Ret x, s') \<Rightarrow> (f x, s') | (Panicked, s') \<Rightarrow> (Halt Panicked, s') | (Exited c, s') \<Rightarrow> (Halt (Exited c), s')))"
    by (auto simp: returns_def split: prod.splits outcome.splits)
qed

lemma thread_ok_mono: "thread_ok I R n t \<Longrightarrow> n \<le> n' \<Longrightarrow> thread_ok I R n' t"
proof (induction arbitrary: n' rule: thread_ok.induct)
  case (ok_halt x n)
  then show ?case by (intro thread_ok.ok_halt)
next
  case (ok_step f n)
  then obtain m where "n' = Suc m" "n \<le> m" by (cases n') auto
  with ok_step show ?case by (auto intro: thread_ok.ok_step)
qed

text \<open>Threads that are fine stay fine, and every step uses up one of their steps.\<close>

definition threads_ok :: "('s \<Rightarrow> bool) \<Rightarrow> ('a \<Rightarrow> bool) list \<Rightarrow> nat list \<Rightarrow> ('s, 'a) thread list \<Rightarrow> bool" where
  "threads_ok I Rs ns ts \<longleftrightarrow> length Rs = length ts \<and> length ns = length ts \<and>
     (\<forall>i < length ts. thread_ok I (Rs ! i) (ns ! i) (ts ! i))"

lemma threads_ok_step:
  assumes "interleave (s, ts) (s', ts')" and "I s" and "threads_ok I Rs ns ts"
  shows "I s' \<and> (\<exists>ns'. threads_ok I Rs ns' ts' \<and> sum_list ns' < sum_list ns)"
proof -
  obtain i f t where i: "i < length ts" "ts ! i = Step f" "f s = (t, s')" "ts' = ts[i := t]"
    using assms(1) by (auto elim: interleave_cases)
  have "thread_ok I (Rs ! i) (ns ! i) (Step f)" using assms(3) i by (auto simp: threads_ok_def)
  from thread_ok_stepD[OF this assms(2)] i(3)
  obtain n where n: "ns ! i = Suc n" and t: "I s'" "thread_ok I (Rs ! i) n t" by auto
  have len: "i < length ns" using assms(3) i(1) by (simp add: threads_ok_def)
  have "threads_ok I Rs (ns[i := n]) ts'"
    using assms(3) t i by (auto simp: threads_ok_def nth_list_update)
  moreover have "sum_list (ns[i := n]) < sum_list ns"
    using sum_list_update[OF len, of n] elem_le_sum_list[OF len] n by simp
  ultimately show ?thesis using t(1) by blast
qed

text \<open>
  Any interleaving of threads that are fine: the invariant holds at every point, there are at most as
  many steps as the threads have together, a thread that has halted has returned a value as
  promised, and while one has not there is a next step.
\<close>

theorem interleaving_safe:
  assumes "I s" and "threads_ok I Rs ns ts" and "(interleave ^^ n) (s, ts) (s', ts')"
  shows "I s' \<and> length ts' = length ts \<and> n \<le> sum_list ns \<and>
    (\<forall>i < length ts. (\<exists>x. ts' ! i = Halt (Ret x) \<and> (Rs ! i) x) \<or> (\<exists>c. interleave (s', ts') c))"
proof -
  have run: "I s' \<and> (\<exists>ns'. threads_ok I Rs ns' ts' \<and> n + sum_list ns' \<le> sum_list ns)"
    using assms(3)
  proof (induction n arbitrary: s' ts')
    case 0
    then show ?case using assms(1,2) by auto
  next
    case (Suc n)
    then obtain s1 ts1 where c1: "(interleave ^^ n) (s, ts) (s1, ts1)" "interleave (s1, ts1) (s', ts')"
      by (auto elim!: relpowp_Suc_E)
    then obtain ns1 where n1: "I s1" "threads_ok I Rs ns1 ts1" "n + sum_list ns1 \<le> sum_list ns" using Suc.IH by blast
    from threads_ok_step[OF c1(2) n1(1,2)] n1(3) show ?case by fastforce
  qed
  then obtain ns' where ok: "threads_ok I Rs ns' ts'" and n: "n + sum_list ns' \<le> sum_list ns" by blast
  have len: "length ts' = length ts" using ok assms(2) by (simp add: threads_ok_def)
  have "(\<exists>x. ts' ! i = Halt (Ret x) \<and> (Rs ! i) x) \<or> (\<exists>c. interleave (s', ts') c)" if i: "i < length ts" for i
  proof (cases "ts' ! i")
    case (Halt r)
    have "thread_ok I (Rs ! i) (ns' ! i) (Halt r)" using ok i Halt len by (auto simp: threads_ok_def)
    then show ?thesis using Halt by (auto elim: thread_ok_halt)
  next
    case (Step f)
    obtain t s'' where "f s' = (t, s'')" by (cases "f s'")
    from interleave_step[OF _ Step this] i len show ?thesis by auto
  qed
  with run len n show ?thesis by auto
qed

end
