(* ===== verification/Bytes.thy ===== *)
theory Bytes
  imports Prelude
begin

text \<open>
  Byte strings (\<open>bytes::Bytes\<close>, \<open>Vec<u8>\<close>, \<open>&[u8]\<close> and the UTF-8 bytes of a \<open>str\<close>) as lists
  of 8-bit words, ordered as Rust orders slices (lexicographically, unsigned bytes, a proper
  prefix first), and the big-endian integers of the wire format.
\<close>

type_synonym byte = "8 word"
type_synonym bytes = "byte list"
type_synonym u16 = "16 word"
type_synonym u32 = "32 word"
type_synonym u64 = "64 word"

text \<open>A string literal of the source as its bytes (the literals used are ASCII).\<close>

definition str :: "string \<Rightarrow> bytes" where
  "str s = map of_char s"

lemma str_simps [simp]: "str [] = []" "str (c # s) = of_char c # str s"
  by (simp_all add: str_def)

lemma str_append: "str (s @ t) = str s @ str t"
  by (simp add: str_def)

section \<open>Big-endian integers\<close>

text \<open>\<open>to_be_bytes\<close> of an \<open>n\<close>-byte integer, and the value of a big-endian byte list.\<close>

fun be_bytes :: "nat \<Rightarrow> nat \<Rightarrow> bytes" where
  "be_bytes 0 v = []"
| "be_bytes (Suc n) v = of_nat (v div 256 ^ n) # be_bytes n v"

fun be_value :: "bytes \<Rightarrow> nat" where
  "be_value [] = 0"
| "be_value (b # bs) = unat b * 256 ^ length bs + be_value bs"

definition u16_to_be_bytes :: "u16 \<Rightarrow> bytes" where
  "u16_to_be_bytes w = be_bytes 2 (unat w)"

definition u32_to_be_bytes :: "u32 \<Rightarrow> bytes" where
  "u32_to_be_bytes w = be_bytes 4 (unat w)"

definition u64_to_be_bytes :: "u64 \<Rightarrow> bytes" where
  "u64_to_be_bytes w = be_bytes 8 (unat w)"

definition u32_from_be_bytes :: "bytes \<Rightarrow> u32" where
  "u32_from_be_bytes bs = of_nat (be_value bs)"

definition u64_from_be_bytes :: "bytes \<Rightarrow> u64" where
  "u64_from_be_bytes bs = of_nat (be_value bs)"

lemma length_be_bytes [simp]: "length (be_bytes n v) = n"
  by (induction n) auto

lemma length_to_be_bytes [simp]:
  "length (u16_to_be_bytes a) = 2"
  "length (u32_to_be_bytes b) = 4"
  "length (u64_to_be_bytes c) = 8"
  by (simp_all add: u16_to_be_bytes_def u32_to_be_bytes_def u64_to_be_bytes_def)

lemma unat_of_nat_byte: "unat (of_nat n :: byte) = n mod 256"
  by (simp add: unat_of_nat)

lemma be_value_be_bytes: "be_value (be_bytes n v) = v mod 256 ^ n"
proof (induction n)
  case 0
  show ?case by simp
next
  case (Suc n)
  have "v mod 256 ^ Suc n = 256 ^ n * (v div 256 ^ n mod 256) + v mod 256 ^ n"
    using mod_mult2_eq[of v "256 ^ n" 256] by (simp add: mult.commute)
  with Suc show ?case by (simp add: unat_of_nat_byte mult.commute)
qed

lemma be_value_bound: "be_value bs < 256 ^ length bs"
proof (induction bs)
  case Nil
  show ?case by simp
next
  case (Cons b bs)
  have "unat b < 256" using unsigned_less[of b, where ?'a = nat] by simp
  then have "Suc (unat b) * 256 ^ length bs \<le> 256 * 256 ^ length bs"
    by (intro mult_le_mono1) simp
  then have "unat b * 256 ^ length bs + 256 ^ length bs \<le> 256 * 256 ^ length bs"
    by simp
  moreover have "be_value bs < 256 ^ length bs" by (rule Cons.IH)
  ultimately have "unat b * 256 ^ length bs + be_value bs < 256 * 256 ^ length bs"
    by linarith
  then show ?case by simp
qed

lemma u32_from_to [simp]: "u32_from_be_bytes (u32_to_be_bytes w) = w"
proof -
  have "unat w < 256 ^ 4" using unsigned_less[of w, where ?'a = nat] by simp
  then show ?thesis
    by (simp add: u32_from_be_bytes_def u32_to_be_bytes_def be_value_be_bytes)
qed

lemma u64_from_to [simp]: "u64_from_be_bytes (u64_to_be_bytes w) = w"
proof -
  have "unat w < 256 ^ 8" using unsigned_less[of w, where ?'a = nat] by simp
  then show ?thesis
    by (simp add: u64_from_be_bytes_def u64_to_be_bytes_def be_value_be_bytes)
qed

lemma unat_u32_from_be_bytes:
  "length bs = 4 \<Longrightarrow> unat (u32_from_be_bytes bs) = be_value bs"
  using be_value_bound[of bs] by (simp add: u32_from_be_bytes_def unat_of_nat)

text \<open>\<open>len() as u32\<close> keeps the length modulo \<open>2 ^ 32\<close>.\<close>

definition len_u32 :: "bytes \<Rightarrow> u32" where
  "len_u32 bs = of_nat (length bs)"

lemma unat_len_u32: "length bs < 2 ^ 32 \<Longrightarrow> unat (len_u32 bs) = length bs"
  by (simp add: len_u32_def unat_of_nat)

end
