(* ===== verification/BTree.thy ===== *)
theory BTree
  imports Bytes
begin

text \<open>
  \<open>std::collections::BTreeMap\<close>, as the program uses it: the entries in key order, each key
  once. The operations are those of the standard library the source calls: \<open>get\<close>,
  \<open>insert\<close>, \<open>remove\<close>, \<open>contains_key\<close>, \<open>range(..=k).next()\<close> and \<open>range(k..)\<close> with
  \<open>take_while\<close> over a key prefix. The locale \<open>ordered_map\<close> is what the store relies on.
\<close>

type_synonym ('k, 'v) btree = "('k \<times> 'v) list"

abbreviation bt_get :: "('k, 'v) btree \<Rightarrow> 'k \<Rightarrow> 'v option" where
  "bt_get m \<equiv> map_of m"

definition bt_wf :: "('k::linorder, 'v) btree \<Rightarrow> bool" where
  "bt_wf m \<longleftrightarrow> sorted_wrt (<) (map fst m)"

fun bt_insert :: "'k::linorder \<Rightarrow> 'v \<Rightarrow> ('k, 'v) btree \<Rightarrow> ('k, 'v) btree" where
  "bt_insert k v [] = [(k, v)]"
| "bt_insert k v ((k', v') # m) =
     (if k < k' then (k, v) # (k', v') # m
      else if k = k' then (k, v) # m
      else (k', v') # bt_insert k v m)"

definition bt_remove :: "'k \<Rightarrow> ('k, 'v) btree \<Rightarrow> ('k, 'v) btree" where
  "bt_remove k m = filter (\<lambda>p. fst p \<noteq> k) m"

definition bt_contains :: "('k, 'v) btree \<Rightarrow> 'k \<Rightarrow> bool" where
  "bt_contains m k \<longleftrightarrow> bt_get m k \<noteq> None"

text \<open>\<open>range(..=n).next()\<close>: the least key, if it is at most \<open>n\<close>.\<close>

definition bt_first_upto :: "('k::linorder, 'v) btree \<Rightarrow> 'k \<Rightarrow> 'k option" where
  "bt_first_upto m n = (case m of [] \<Rightarrow> None | (k, _) # _ \<Rightarrow> if k \<le> n then Some k else None)"

definition bt_range_from :: "('k::linorder, 'v) btree \<Rightarrow> 'k \<Rightarrow> ('k, 'v) btree" where
  "bt_range_from m k = dropWhile (\<lambda>p. fst p < k) m"

section \<open>The map laws\<close>

lemma bt_wf_Nil [simp]: "bt_wf []"
  by (simp add: bt_wf_def)

lemma bt_wf_Cons: "bt_wf ((k, v) # m) \<longleftrightarrow> (\<forall>k' \<in> fst ` set m. k < k') \<and> bt_wf m"
  by (auto simp: bt_wf_def)

lemma bt_wf_distinct: "bt_wf m \<Longrightarrow> distinct (map fst m)"
  by (simp add: bt_wf_def strict_sorted_iff)

lemma bt_wf_filter: "bt_wf m \<Longrightarrow> bt_wf (filter P m)"
  by (induction m) (auto simp: bt_wf_Cons)

lemma set_bt_insert: "fst ` set (bt_insert k v m) = insert k (fst ` set m)"
  by (induction k v m rule: bt_insert.induct) auto

lemma bt_wf_insert: "bt_wf m \<Longrightarrow> bt_wf (bt_insert k v m)"
  by (induction k v m rule: bt_insert.induct) (auto simp: bt_wf_Cons set_bt_insert)

lemma bt_get_insert: "bt_get (bt_insert k v m) = (bt_get m)(k \<mapsto> v)"
  by (induction k v m rule: bt_insert.induct) (auto simp: fun_eq_iff)

lemma bt_wf_remove: "bt_wf m \<Longrightarrow> bt_wf (bt_remove k m)"
  by (simp add: bt_remove_def bt_wf_filter)

lemma bt_get_remove: "bt_get (bt_remove k m) = (bt_get m)(k := None)"
  using map_of_filter_fst[of "\<lambda>k'. k' \<noteq> k" m] by (auto simp: bt_remove_def fun_eq_iff)

lemma bt_get_in_set: "bt_wf m \<Longrightarrow> bt_get m k = Some v \<longleftrightarrow> (k, v) \<in> set m"
  by (simp add: bt_wf_distinct)

text \<open>Two well-formed maps with the same lookups are the same entries in the same order.\<close>

lemma bt_ext:
  assumes "bt_wf m" and "bt_wf n" and "\<And>k. bt_get m k = bt_get n k"
  shows "m = n"
proof -
  have entries: "map (\<lambda>k. (k, the (bt_get x k))) (map fst x) = x" if "bt_wf x" for x :: "('a, 'b) btree"
    using bt_wf_distinct[OF that] by (auto intro!: map_idI simp: map_of_is_SomeI)
  have "dom (bt_get m) = dom (bt_get n)"
    using assms(3) by (simp add: dom_def)
  then have "set (map fst m) = set (map fst n)"
    by (simp add: dom_map_of_conv_image_fst)
  then have "map fst m = map fst n"
    using assms(1,2) by (intro strict_sorted_equal) (simp_all add: bt_wf_def)
  moreover have "bt_get m = bt_get n" using assms(3) by (rule ext)
  ultimately have "map (\<lambda>k. (k, the (bt_get m k))) (map fst m)
      = map (\<lambda>k. (k, the (bt_get n k))) (map fst n)" by simp
  then show ?thesis by (simp only: entries[OF assms(1)] entries[OF assms(2)])
qed

locale ordered_map =
  fixes get :: "'m \<Rightarrow> 'k::linorder \<Rightarrow> 'v option"
    and insert :: "'k \<Rightarrow> 'v \<Rightarrow> 'm \<Rightarrow> 'm"
    and remove :: "'k \<Rightarrow> 'm \<Rightarrow> 'm"
    and entries :: "'m \<Rightarrow> ('k \<times> 'v) list"
    and wf :: "'m \<Rightarrow> bool"
  assumes get_insert: "get (insert k v m) = (get m)(k \<mapsto> v)"
    and get_remove: "get (remove k m) = (get m)(k := None)"
    and wf_insert: "wf m \<Longrightarrow> wf (insert k v m)"
    and wf_remove: "wf m \<Longrightarrow> wf (remove k m)"
    and get_entries: "wf m \<Longrightarrow> get m k = Some v \<longleftrightarrow> (k, v) \<in> set (entries m)"
    and entries_sorted: "wf m \<Longrightarrow> sorted_wrt (<) (map fst (entries m))"
begin

lemma insert_remove_lookup: "get (insert k v (remove k m)) = get (insert k v m)"
  by (simp add: get_insert get_remove)

lemma dom_get: "wf m \<Longrightarrow> dom (get m) = fst ` set (entries m)"
  by (force simp: dom_def get_entries)

lemma remove_absent: "get m k = None \<Longrightarrow> get (remove k m) = get m"
  by (simp add: get_remove fun_upd_idem)

end

interpretation bt: ordered_map bt_get bt_insert bt_remove "\<lambda>m. m" bt_wf
  by unfold_locales
    (simp_all add: bt_get_insert bt_get_remove bt_wf_insert bt_wf_remove bt_get_in_set,
      simp add: bt_wf_def)

section \<open>Ranges and prefixes\<close>

lemma bt_first_upto_Some:
  "bt_first_upto m n = Some k \<longleftrightarrow> (\<exists>v rest. m = (k, v) # rest \<and> k \<le> n)"
  by (auto simp: bt_first_upto_def split: list.splits if_splits)

lemma bt_first_upto_None:
  "bt_wf m \<Longrightarrow> bt_first_upto m n = None \<Longrightarrow> k \<in> fst ` set m \<Longrightarrow> n < k"
  by (cases m) (force simp: bt_first_upto_def bt_wf_Cons split: if_splits)+

lemma prefix_le: "prefix p (k::bytes) \<Longrightarrow> p \<le> k"
proof (induction p arbitrary: k)
  case Nil
  show ?case by simp
next
  case (Cons b p)
  then show ?case by (cases k) auto
qed

text \<open>Once past the keys that start with \<open>p\<close>, no later key starts with it.\<close>

lemma prefix_contiguous:
  "p \<le> k \<Longrightarrow> \<not> prefix p k \<Longrightarrow> k < k' \<Longrightarrow> \<not> prefix p (k'::bytes)"
proof (induction p arbitrary: k k')
  case Nil
  then show ?case by simp
next
  case (Cons b p)
  show ?case
  proof (cases k)
    case Nil
    with Cons.prems show ?thesis by simp
  next
    case k: (Cons c ks)
    show ?thesis
    proof (cases k')
      case Nil
      then show ?thesis by simp
    next
      case (Cons d ks')
      with k Cons.prems Cons.IH[of ks ks'] show ?thesis by auto
    qed
  qed
qed

lemma dropWhile_less_filter:
  "bt_wf m \<Longrightarrow> dropWhile (\<lambda>p. fst p < k) m = filter (\<lambda>p. k \<le> fst p) m"
proof (induction m)
  case Nil
  show ?case by simp
next
  case (Cons p m)
  obtain a v where p: "p = (a, v)" by (cases p)
  show ?case
  proof (cases "a < k")
    case True
    with Cons p show ?thesis by (simp add: bt_wf_Cons)
  next
    case False
    then have "k \<le> a" by simp
    moreover have "filter (\<lambda>p. k \<le> fst p) m = m"
      using Cons.prems p \<open>k \<le> a\<close> by (force simp: bt_wf_Cons intro!: filter_True)
    ultimately show ?thesis using p False by simp
  qed
qed

lemma takeWhile_prefix_filter:
  assumes "bt_wf m" and "\<forall>q \<in> set m. p \<le> fst q"
  shows "takeWhile (\<lambda>q. prefix p (fst q)) m = filter (\<lambda>q. prefix p (fst q)) (m::(bytes, 'v) btree)"
  using assms
proof (induction m)
  case Nil
  show ?case by simp
next
  case (Cons q m)
  show ?case
  proof (cases "prefix p (fst q)")
    case True
    with Cons show ?thesis by (cases q) (simp add: bt_wf_Cons)
  next
    case False
    have "\<not> prefix p (fst q')" if "q' \<in> set m" for q'
      using prefix_contiguous[of p "fst q" "fst q'"] False Cons.prems that
      by (cases q) (auto simp: bt_wf_Cons)
    with False show ?thesis by (simp add: filter_empty_conv)
  qed
qed

text \<open>
  The scan \<open>range(p..).take_while(starts_with p)\<close> finds exactly the entries whose key starts
  with \<open>p\<close>, in key order: the take-while never stops early.
\<close>

lemma bt_prefix_scan:
  assumes "bt_wf (m::(bytes, 'v) btree)"
  shows "takeWhile (\<lambda>q. prefix p (fst q)) (bt_range_from m p) = filter (\<lambda>q. prefix p (fst q)) m"
proof -
  have "takeWhile (\<lambda>q. prefix p (fst q)) (bt_range_from m p)
      = filter (\<lambda>q. prefix p (fst q)) (filter (\<lambda>q. p \<le> fst q) m)"
    unfolding bt_range_from_def dropWhile_less_filter[OF assms]
    by (rule takeWhile_prefix_filter) (simp_all add: assms bt_wf_filter)
  also have "\<dots> = filter (\<lambda>q. prefix p (fst q)) m"
    by (auto intro!: filter_cong simp: prefix_le)
  finally show ?thesis .
qed

end
