(* ===== verification/Store.thy ===== *)
theory Store
  imports BTree
begin

text \<open>
  \<open>src/store.rs\<close>: the transient key-value store. \<open>data\<close> holds the values, \<open>ttl\<close> the deadline
  of each key that has one, and \<open>expiry\<close> the keys of each deadline, in deadline order, so that
  expiry is lazy and cheap. The invariant \<open>store_inv\<close> says how the three maps agree; under it
  none of the source's \<open>unwrap\<close>s can panic, and every operation keeps it. What a reader whose
  clock shows \<open>t\<close> sees is \<open>store_view s t\<close>; the operations are specified by what they do to
  the three maps and to that view.
\<close>

text \<open>\<open>Instant\<close> and \<open>Duration\<close>, in nanoseconds.\<close>

type_synonym instant = nat
type_synonym duration = nat

record store =
  data :: "(bytes, bytes) btree"
  expiry :: "(instant, bytes list) btree"
  ttl :: "(bytes, instant) btree"

definition create_store :: store where
  "create_store = \<lparr>data = [], expiry = [], ttl = []\<rparr>"

section \<open>Operations\<close>

definition store_drop_key :: "bytes \<Rightarrow> store \<Rightarrow> store" where
  "store_drop_key key s = s\<lparr>ttl := bt_remove key (ttl s), data := bt_remove key (data s)\<rparr>"

lemma fold_store_drop_key:
  "fold store_drop_key keys s = s\<lparr>ttl := filter (\<lambda>p. fst p \<notin> set keys) (ttl s),
     data := filter (\<lambda>p. fst p \<notin> set keys) (data s)\<rparr>"
  by (induction keys arbitrary: s)
    (auto simp: store_drop_key_def bt_remove_def intro!: filter_cong)

text \<open>
  The loop takes the least deadline while it is not after \<open>now\<close>. Each pass removes one entry of
  \<open>expiry\<close>, so the loop ends.
\<close>

function store_delete_expired_entries :: "instant \<Rightarrow> (store, unit) op" where
  "store_delete_expired_entries now s =
     (case bt_first_upto (expiry s) now of
        None \<Rightarrow> (Ret (), s)
      | Some exp \<Rightarrow>
          (case bt_get (expiry s) exp of
             None \<Rightarrow> (Panicked, s)
           | Some keys \<Rightarrow>
               store_delete_expired_entries now
                 (fold store_drop_key keys (s\<lparr>expiry := bt_remove exp (expiry s)\<rparr>))))"
  by pat_completeness auto

termination
proof (relation "measure (\<lambda>(now, s). length (expiry s))")
  fix now :: instant and s :: store and exp keys
  assume "bt_get (expiry s) exp = Some keys"
  then have "(exp, keys) \<in> set (expiry s)" by (rule map_of_SomeD)
  then have "length (bt_remove exp (expiry s)) < length (expiry s)"
    unfolding bt_remove_def by (rule length_filter_less) simp
  then show "((now, fold store_drop_key keys (s\<lparr>expiry := bt_remove exp (expiry s)\<rparr>)), now, s)
      \<in> measure (\<lambda>(now, s). length (expiry s))"
    by (simp add: fold_store_drop_key)
qed simp

definition store_delete_ttl :: "bytes \<Rightarrow> (store, unit) op" where
  "store_delete_ttl key s =
     (case bt_get (ttl s) key of
        None \<Rightarrow> (Ret (), s)
      | Some instant \<Rightarrow>
          (let s = s\<lparr>ttl := bt_remove key (ttl s)\<rparr>
           in case bt_get (expiry s) instant of
                None \<Rightarrow> (Panicked, s)
              | Some keys \<Rightarrow>
                  (case position (\<lambda>candidate. candidate = key) keys of
                     None \<Rightarrow> (Panicked, s)
                   | Some index \<Rightarrow>
                       (let keys = swap_remove index keys
                        in (Ret (), s\<lparr>expiry :=
                             (if keys = [] then bt_remove instant (expiry s)
                              else bt_insert instant keys (expiry s))\<rparr>)))))"

definition store_read_value :: "bytes \<Rightarrow> (store, bytes option) op" where
  "store_read_value key = op_get (\<lambda>s. bt_get (data s) key)"

definition store_write_value :: "bytes \<Rightarrow> bytes \<Rightarrow> (store, unit) op" where
  "store_write_value key value =
     op_bind (store_delete_ttl key) (\<lambda>_.
     op_modify (\<lambda>s. s\<lparr>data := bt_insert key value (data s)\<rparr>))"

definition store_delete_value :: "bytes \<Rightarrow> (store, unit) op" where
  "store_delete_value key =
     op_bind (store_delete_ttl key) (\<lambda>_.
     op_modify (\<lambda>s. s\<lparr>data := bt_remove key (data s)\<rparr>))"

text \<open>\<open>expiry.entry(instant).or_default().push(key)\<close>.\<close>

definition expiry_push :: "instant \<Rightarrow> bytes \<Rightarrow> (instant, bytes list) btree \<Rightarrow> (instant, bytes list) btree" where
  "expiry_push instant key m =
     bt_insert instant ((case bt_get m instant of None \<Rightarrow> [] | Some keys \<Rightarrow> keys) @ [key]) m"

definition store_write_ttl :: "bytes \<Rightarrow> instant \<Rightarrow> (store, unit) op" where
  "store_write_ttl key instant =
     op_bind (op_get (\<lambda>s. bt_contains (data s) key)) (\<lambda>present.
     if \<not> present then op_ret ()
     else
       op_bind (store_delete_ttl key) (\<lambda>_.
       op_modify (\<lambda>s. s\<lparr>ttl := bt_insert key instant (ttl s),
                        expiry := expiry_push instant key (expiry s)\<rparr>)))"

definition store_write_value_with_ttl :: "bytes \<Rightarrow> bytes \<Rightarrow> instant \<Rightarrow> (store, unit) op" where
  "store_write_value_with_ttl key value instant =
     op_bind (store_delete_ttl key) (\<lambda>_.
     op_modify (\<lambda>s. s\<lparr>data := bt_insert key value (data s),
                      ttl := bt_insert key instant (ttl s),
                      expiry := expiry_push instant key (expiry s)\<rparr>))"

definition store_delete_value_if_match :: "bytes \<Rightarrow> bytes \<Rightarrow> (store, bool) op" where
  "store_delete_value_if_match key expected =
     op_bind (op_get (\<lambda>s. bt_get (data s) key = Some expected)) (\<lambda>matches.
     if matches then
       op_bind (store_delete_ttl key) (\<lambda>_.
       op_bind (op_modify (\<lambda>s. s\<lparr>data := bt_remove key (data s)\<rparr>)) (\<lambda>_.
       op_ret True))
     else op_ret False)"

text \<open>\<open>checked_duration_since\<close>: \<open>None\<close> when the deadline is earlier than \<open>now\<close>.\<close>

definition checked_duration_since :: "instant \<Rightarrow> instant \<Rightarrow> duration option" where
  "checked_duration_since later earlier =
     (if earlier \<le> later then Some (later - earlier) else None)"

definition store_read_ttl_remaining :: "bytes \<Rightarrow> instant \<Rightarrow> (store, duration option) op" where
  "store_read_ttl_remaining key now =
     op_get (\<lambda>s. Option.bind (bt_get (ttl s) key) (\<lambda>e. checked_duration_since e now))"

definition store_find_by_prefix :: "bytes \<Rightarrow> (store, (bytes \<times> bytes) list) op" where
  "store_find_by_prefix pre =
     op_get (\<lambda>s. takeWhile (\<lambda>p. prefix pre (fst p)) (bt_range_from (data s) pre))"

declare store_delete_expired_entries.simps [simp del]

section \<open>The invariant\<close>

definition store_inv :: "store \<Rightarrow> bool" where
  "store_inv s \<longleftrightarrow>
     bt_wf (data s) \<and> bt_wf (expiry s) \<and> bt_wf (ttl s)
   \<and> dom (bt_get (ttl s)) \<subseteq> dom (bt_get (data s))
   \<and> (\<forall>k i. bt_get (ttl s) k = Some i \<longleftrightarrow> (\<exists>ks. bt_get (expiry s) i = Some ks \<and> k \<in> set ks))
   \<and> (\<forall>i ks. bt_get (expiry s) i = Some ks \<longrightarrow> distinct ks \<and> ks \<noteq> [])"

definition store_view :: "store \<Rightarrow> instant \<Rightarrow> bytes \<Rightarrow> bytes option" where
  "store_view s t k =
     (case bt_get (ttl s) k of
        Some e \<Rightarrow> if e \<le> t then None else bt_get (data s) k
      | None \<Rightarrow> bt_get (data s) k)"

lemma store_invI:
  assumes "bt_wf (data s)" and "bt_wf (expiry s)" and "bt_wf (ttl s)"
    and "dom (bt_get (ttl s)) \<subseteq> dom (bt_get (data s))"
    and "\<And>k i. bt_get (ttl s) k = Some i \<longleftrightarrow> (\<exists>ks. bt_get (expiry s) i = Some ks \<and> k \<in> set ks)"
    and "\<And>i ks. bt_get (expiry s) i = Some ks \<Longrightarrow> distinct ks \<and> ks \<noteq> []"
  shows "store_inv s"
  using assms unfolding store_inv_def by blast

lemma store_inv_wf:
  assumes "store_inv s"
  shows "bt_wf (data s)" and "bt_wf (expiry s)" and "bt_wf (ttl s)"
  using assms by (simp_all add: store_inv_def)

lemma store_inv_ttl_data: "store_inv s \<Longrightarrow> bt_get (ttl s) k = Some i \<Longrightarrow> \<exists>v. bt_get (data s) k = Some v"
  unfolding store_inv_def by (meson domD domI subsetD)

lemma store_inv_index:
  "store_inv s \<Longrightarrow> bt_get (ttl s) k = Some i \<longleftrightarrow> (\<exists>ks. bt_get (expiry s) i = Some ks \<and> k \<in> set ks)"
  unfolding store_inv_def by blast

lemma store_inv_slot:
  assumes "store_inv s" and "bt_get (expiry s) i = Some ks"
  shows "distinct ks" and "ks \<noteq> []"
  using assms unfolding store_inv_def by blast+

lemma create_store_inv [simp]: "store_inv create_store"
  by (simp add: store_inv_def create_store_def)

section \<open>Expiry\<close>

text \<open>The state after expiry at \<open>now\<close>: every key whose deadline has come is gone from all three maps.\<close>

definition store_live :: "store \<Rightarrow> instant \<Rightarrow> bytes \<Rightarrow> bool" where
  "store_live s now k \<longleftrightarrow> (case bt_get (ttl s) k of None \<Rightarrow> True | Some e \<Rightarrow> now < e)"

definition store_purge :: "instant \<Rightarrow> store \<Rightarrow> store" where
  "store_purge now s = s\<lparr>data := filter (\<lambda>p. store_live s now (fst p)) (data s),
     expiry := filter (\<lambda>p. now < fst p) (expiry s),
     ttl := filter (\<lambda>p. now < snd p) (ttl s)\<rparr>"

text \<open>One pass of the loop, for the least deadline \<open>e\<close>.\<close>

definition store_drop_slot :: "instant \<Rightarrow> store \<Rightarrow> store" where
  "store_drop_slot e s = s\<lparr>data := filter (\<lambda>p. bt_get (ttl s) (fst p) \<noteq> Some e) (data s),
     expiry := bt_remove e (expiry s),
     ttl := filter (\<lambda>p. snd p \<noteq> e) (ttl s)\<rparr>"

lemma store_expire_pass:
  assumes inv: "store_inv s" and slot: "bt_get (expiry s) e = Some ks"
  shows "fold store_drop_key ks (s\<lparr>expiry := bt_remove e (expiry s)\<rparr>) = store_drop_slot e s"
proof -
  have in_slot: "k \<in> set ks \<longleftrightarrow> bt_get (ttl s) k = Some e" for k
    using store_inv_index[OF inv] slot by simp
  have "filter (\<lambda>p. fst p \<notin> set ks) (ttl s) = filter (\<lambda>p. snd p \<noteq> e) (ttl s)"
  proof (rule filter_cong[OF refl])
    fix p
    assume "p \<in> set (ttl s)"
    then have "bt_get (ttl s) (fst p) = Some (snd p)"
      by (simp add: bt_get_in_set[OF store_inv_wf(3)[OF inv]])
    then show "fst p \<notin> set ks \<longleftrightarrow> snd p \<noteq> e" by (simp add: in_slot)
  qed
  then show ?thesis
    by (simp add: fold_store_drop_key store_drop_slot_def in_slot)
qed

lemma get_ttl_drop_slot:
  "store_inv s \<Longrightarrow> bt_get (ttl (store_drop_slot e s)) k =
    (if bt_get (ttl s) k = Some e then None else bt_get (ttl s) k)"
  by (auto simp: store_drop_slot_def map_of_filter_distinct bt_wf_distinct store_inv_wf
      split: option.splits)

lemma get_data_drop_slot:
  "bt_get (data (store_drop_slot e s)) k =
    (if bt_get (ttl s) k = Some e then None else bt_get (data s) k)"
  using map_of_filter_fst[of "\<lambda>k. bt_get (ttl s) k \<noteq> Some e" "data s" k]
  by (simp add: store_drop_slot_def)

lemma store_inv_drop_slot:
  assumes inv: "store_inv s"
  shows "store_inv (store_drop_slot e s)"
proof (rule store_invI)
  show "bt_wf (data (store_drop_slot e s))" "bt_wf (expiry (store_drop_slot e s))"
    "bt_wf (ttl (store_drop_slot e s))"
    using store_inv_wf[OF inv] by (simp_all add: store_drop_slot_def bt_wf_filter bt_wf_remove)
  show "dom (bt_get (ttl (store_drop_slot e s))) \<subseteq> dom (bt_get (data (store_drop_slot e s)))"
    using store_inv_ttl_data[OF inv]
    by (auto simp: get_ttl_drop_slot[OF inv] get_data_drop_slot dom_def)
  show "bt_get (ttl (store_drop_slot e s)) k = Some i \<longleftrightarrow>
      (\<exists>ks. bt_get (expiry (store_drop_slot e s)) i = Some ks \<and> k \<in> set ks)" for k i
  proof (cases "i = e")
    case True
    then show ?thesis
      by (simp add: get_ttl_drop_slot[OF inv]) (simp add: store_drop_slot_def bt_get_remove)
  next
    case False
    then have "bt_get (ttl (store_drop_slot e s)) k = Some i \<longleftrightarrow> bt_get (ttl s) k = Some i"
      by (auto simp: get_ttl_drop_slot[OF inv])
    moreover have "bt_get (expiry (store_drop_slot e s)) i = bt_get (expiry s) i"
      using False by (simp add: store_drop_slot_def bt_get_remove)
    ultimately show ?thesis using store_inv_index[OF inv] by simp
  qed
  show "distinct ks \<and> ks \<noteq> []" if "bt_get (expiry (store_drop_slot e s)) i = Some ks" for i ks
    using that store_inv_slot[OF inv] by (auto simp: store_drop_slot_def bt_get_remove split: if_splits)
qed

lemma store_purge_done:
  assumes inv: "store_inv s" and "bt_first_upto (expiry s) now = None"
  shows "store_purge now s = s"
proof -
  have later: "now < i" if "i \<in> fst ` set (expiry s)" for i
    using bt_first_upto_None[OF store_inv_wf(2)[OF inv]] assms(2) that by blast
  have ttl_later: "now < i" if t: "bt_get (ttl s) k = Some i" for k i
  proof -
    obtain ks where "bt_get (expiry s) i = Some ks"
      using store_inv_index[OF inv, THEN iffD1, OF t] by blast
    then have "(i, ks) \<in> set (expiry s)" by (rule map_of_SomeD)
    then show ?thesis by (intro later image_eqI[where x = "(i, ks)"]) simp_all
  qed
  have "filter (\<lambda>p. now < fst p) (expiry s) = expiry s"
    using later by (intro filter_True) auto
  moreover have "filter (\<lambda>p. now < snd p) (ttl s) = ttl s"
  proof (intro filter_True ballI)
    fix p
    assume "p \<in> set (ttl s)"
    then have "bt_get (ttl s) (fst p) = Some (snd p)"
      by (simp add: bt_get_in_set[OF store_inv_wf(3)[OF inv]])
    then show "now < snd p" by (rule ttl_later)
  qed
  moreover have "filter (\<lambda>p. store_live s now (fst p)) (data s) = data s"
    using ttl_later by (intro filter_True) (auto simp: store_live_def split: option.splits)
  ultimately show ?thesis by (simp add: store_purge_def)
qed

lemma store_purge_drop_slot:
  assumes inv: "store_inv s" and "e \<le> now"
  shows "store_purge now (store_drop_slot e s) = store_purge now s"
proof -
  have live: "(bt_get (ttl s) k \<noteq> Some e \<and> store_live (store_drop_slot e s) now k) = store_live s now k" for k
    using \<open>e \<le> now\<close> by (auto simp: store_live_def get_ttl_drop_slot[OF inv] split: option.splits)
  have "now < i \<and> i \<noteq> e \<longleftrightarrow> now < i" for i
    using \<open>e \<le> now\<close> by auto
  then show ?thesis
    using live by (simp add: store_purge_def store_drop_slot_def bt_remove_def conj_commute)
qed

lemma store_expire:
  "store_inv s \<Longrightarrow> store_delete_expired_entries now s = (Ret (), store_purge now s)"
proof (induction now s rule: store_delete_expired_entries.induct)
  case (1 now s)
  note inv = "1.prems"
  show ?case
  proof (cases "bt_first_upto (expiry s) now")
    case None
    then show ?thesis
      by (simp add: store_delete_expired_entries.simps[of now s] store_purge_done[OF inv])
  next
    case (Some e)
    then obtain ks rest where "expiry s = (e, ks) # rest" and le: "e \<le> now"
      by (auto simp: bt_first_upto_Some)
    then have slot: "bt_get (expiry s) e = Some ks" by simp
    have "store_delete_expired_entries now (store_drop_slot e s)
        = (Ret (), store_purge now (store_drop_slot e s))"
      using "1.IH"[OF Some slot] store_inv_drop_slot[OF inv, of e]
      by (simp add: store_expire_pass[OF inv slot])
    then show ?thesis
      by (simp add: store_delete_expired_entries.simps[of now s] Some slot
          store_expire_pass[OF inv slot] store_purge_drop_slot[OF inv le])
  qed
qed

lemma get_ttl_purge:
  "store_inv s \<Longrightarrow> bt_get (ttl (store_purge now s)) k =
    (case bt_get (ttl s) k of None \<Rightarrow> None | Some e \<Rightarrow> if now < e then Some e else None)"
  by (auto simp: store_purge_def map_of_filter_distinct bt_wf_distinct store_inv_wf split: option.splits)

lemma get_data_purge: "bt_get (data (store_purge now s)) k = store_view s now k"
  using map_of_filter_fst[of "store_live s now" "data s" k]
  by (auto simp: store_purge_def store_live_def store_view_def split: option.splits)

lemma store_view_purge:
  "store_inv s \<Longrightarrow> now \<le> t \<Longrightarrow> store_view (store_purge now s) t k = store_view s t k"
  by (auto simp: store_view_def get_ttl_purge get_data_purge split: option.splits)

lemma store_inv_purge:
  assumes inv: "store_inv s"
  shows "store_inv (store_purge now s)"
proof (rule store_invI)
  show "bt_wf (data (store_purge now s))" "bt_wf (expiry (store_purge now s))" "bt_wf (ttl (store_purge now s))"
    using store_inv_wf[OF inv] by (simp_all add: store_purge_def bt_wf_filter)
  show "dom (bt_get (ttl (store_purge now s))) \<subseteq> dom (bt_get (data (store_purge now s)))"
  proof
    fix k
    assume "k \<in> dom (bt_get (ttl (store_purge now s)))"
    then obtain e where "bt_get (ttl s) k = Some e" and "now < e"
      by (auto simp: get_ttl_purge[OF inv] dom_def split: option.splits if_splits)
    then show "k \<in> dom (bt_get (data (store_purge now s)))"
      using store_inv_ttl_data[OF inv] by (auto simp: get_data_purge store_view_def dom_def)
  qed
  have slot: "bt_get (expiry (store_purge now s)) i = (if now < i then bt_get (expiry s) i else None)" for i
    using map_of_filter_fst[of "\<lambda>i. now < i" "expiry s" i] by (simp add: store_purge_def)
  show "bt_get (ttl (store_purge now s)) k = Some i \<longleftrightarrow>
      (\<exists>ks. bt_get (expiry (store_purge now s)) i = Some ks \<and> k \<in> set ks)" for k i
  proof -
    have "bt_get (ttl (store_purge now s)) k = Some i \<longleftrightarrow> now < i \<and> bt_get (ttl s) k = Some i"
      by (auto simp: get_ttl_purge[OF inv] split: option.splits)
    then show ?thesis using store_inv_index[OF inv] by (simp add: slot)
  qed
  show "distinct ks \<and> ks \<noteq> []" if "bt_get (expiry (store_purge now s)) i = Some ks" for i ks
    using that store_inv_slot[OF inv] by (simp add: slot split: if_splits)
qed

text \<open>The least deadline left after expiry is in the future.\<close>

lemma store_purge_ttl_future: "store_inv s \<Longrightarrow> bt_get (ttl (store_purge now s)) k = Some e \<Longrightarrow> now < e"
  by (simp add: get_ttl_purge split: option.splits if_splits)

section \<open>Every operation keeps the invariant\<close>

lemma store_inv_data:
  assumes "store_inv s" and "bt_wf d" and "dom (bt_get (ttl s)) \<subseteq> dom (bt_get d)"
  shows "store_inv (s\<lparr>data := d\<rparr>)"
  using assms unfolding store_inv_def by simp

text \<open>Removing the deadline of a key, and attaching one to a key that has none.\<close>

lemma store_inv_detach:
  assumes inv: "store_inv s" and deadline: "bt_get (ttl s) key = Some i"
    and slot: "bt_get (expiry s) i = Some keys"
    and keys': "distinct keys'" "set keys' = set keys - {key}"
    and exp': "exp' = (if keys' = [] then bt_remove i (expiry s) else bt_insert i keys' (expiry s))"
  shows "store_inv (s\<lparr>ttl := bt_remove key (ttl s), expiry := exp'\<rparr>)" (is "store_inv ?s'")
proof (rule store_invI)
  have get: "bt_get exp' j = (if j = i then (if keys' = [] then None else Some keys') else bt_get (expiry s) j)" for j
    by (simp add: exp' bt_get_insert bt_get_remove)
  show "bt_wf (data ?s')" "bt_wf (expiry ?s')" "bt_wf (ttl ?s')"
    using store_inv_wf[OF inv] by (simp_all add: exp' bt_wf_remove bt_wf_insert)
  show "dom (bt_get (ttl ?s')) \<subseteq> dom (bt_get (data ?s'))"
    using inv by (auto simp: store_inv_def bt_get_remove)
  show "bt_get (ttl ?s') k = Some j \<longleftrightarrow> (\<exists>ks. bt_get (expiry ?s') j = Some ks \<and> k \<in> set ks)" for k j
  proof (cases "j = i")
    case True
    have "bt_get (ttl ?s') k = Some i \<longleftrightarrow> k \<in> set keys'"
      using store_inv_index[OF inv, of k i] slot keys'(2) by (simp add: bt_get_remove)
    moreover have "(\<exists>ks. bt_get exp' i = Some ks \<and> k \<in> set ks) \<longleftrightarrow> k \<in> set keys'"
      by (cases "keys' = []") (simp_all add: get)
    ultimately show ?thesis using True by simp
  next
    case False
    have "bt_get (ttl ?s') k = Some j \<longleftrightarrow> bt_get (ttl s) k = Some j"
      using deadline False by (simp add: bt_get_remove)
    then show ?thesis using store_inv_index[OF inv, of k j] False by (simp add: get)
  qed
  show "distinct ks \<and> ks \<noteq> []" if "bt_get (expiry ?s') j = Some ks" for j ks
    using that store_inv_slot[OF inv] keys'(1) by (auto simp: get split: if_splits)
qed

lemma store_inv_attach:
  assumes inv: "store_inv s" and fresh: "bt_get (ttl s) key = None" and "bt_get (data s) key = Some v"
  shows "store_inv (s\<lparr>ttl := bt_insert key i (ttl s), expiry := expiry_push i key (expiry s)\<rparr>)" (is "store_inv ?s'")
proof (rule store_invI)
  define old where "old = (case bt_get (expiry s) i of None \<Rightarrow> [] | Some keys \<Rightarrow> keys)"
  have get: "bt_get (expiry_push i key (expiry s)) j =
      (if j = i then Some (old @ [key]) else bt_get (expiry s) j)" for j
    by (simp add: expiry_push_def bt_get_insert old_def)
  have old: "k \<in> set old \<longleftrightarrow> bt_get (ttl s) k = Some i" for k
    using store_inv_index[OF inv, of k i] by (auto simp: old_def split: option.splits)
  have "distinct old"
    using store_inv_slot(1)[OF inv] by (auto simp: old_def split: option.splits)
  show "bt_wf (data ?s')" "bt_wf (expiry ?s')" "bt_wf (ttl ?s')"
    using store_inv_wf[OF inv] by (simp_all add: expiry_push_def bt_wf_insert)
  show "dom (bt_get (ttl ?s')) \<subseteq> dom (bt_get (data ?s'))"
    using assms by (auto simp: store_inv_def bt_get_insert)
  show "bt_get (ttl ?s') k = Some j \<longleftrightarrow> (\<exists>ks. bt_get (expiry ?s') j = Some ks \<and> k \<in> set ks)" for k j
  proof (cases "j = i")
    case True
    then show ?thesis using old[of k] by (auto simp: get bt_get_insert)
  next
    case False
    then show ?thesis
      using store_inv_index[OF inv, of k j] fresh by (auto simp: get bt_get_insert)
  qed
  show "distinct ks \<and> ks \<noteq> []" if "bt_get (expiry ?s') j = Some ks" for j ks
    using that store_inv_slot[OF inv] \<open>distinct old\<close> old[of key] fresh
    by (auto simp: get split: if_splits)
qed

lemma store_delete_ttl_spec:
  assumes inv: "store_inv s"
  shows "returns (store_delete_ttl key) s (\<lambda>_ s'. store_inv s' \<and> data s' = data s
      \<and> bt_get (ttl s') = (bt_get (ttl s))(key := None))"
proof (cases "bt_get (ttl s) key")
  case None
  then show ?thesis
    using inv by (auto simp: returns_def store_delete_ttl_def fun_eq_iff)
next
  case (Some i)
  then obtain keys where slot: "bt_get (expiry s) i = Some keys" and "key \<in> set keys"
    using store_inv_index[OF inv, THEN iffD1, OF Some] by blast
  then obtain n where n: "position (\<lambda>c. c = key) keys = Some n"
    using position_None[of "\<lambda>c. c = key" keys] by (cases "position (\<lambda>c. c = key) keys") auto
  then have "n < length keys" and "keys ! n = key"
    using position_Some[OF n] by auto
  then have keys': "distinct (swap_remove n keys)" "set (swap_remove n keys) = set keys - {key}"
    using distinct_swap_remove[of keys n] store_inv_slot(1)[OF inv slot] by auto
  show ?thesis
    using store_inv_detach[OF inv Some slot keys' refl]
    by (simp add: returns_def store_delete_ttl_def Some slot n Let_def bt_get_remove
        del: if_split cong: if_cong)
qed

section \<open>What each operation does\<close>

lemma store_write_value_spec:
  assumes "store_inv s"
  shows "returns (store_write_value key value) s (\<lambda>_ s'. store_inv s'
      \<and> bt_get (data s') = (bt_get (data s))(key \<mapsto> value)
      \<and> bt_get (ttl s') = (bt_get (ttl s))(key := None))"
  unfolding store_write_value_def returns_bind returns_modify
proof (rule returns_mono[OF store_delete_ttl_spec[OF assms]], elim conjE)
  fix s'
  assume s': "store_inv s'" "data s' = data s" "bt_get (ttl s') = (bt_get (ttl s))(key := None)"
  have "dom (bt_get (ttl s')) \<subseteq> dom (bt_get (bt_insert key value (data s')))"
    using s'(1) by (auto simp: store_inv_def bt_get_insert)
  with s'(1) have "store_inv (s'\<lparr>data := bt_insert key value (data s')\<rparr>)"
    by (intro store_inv_data) (simp_all add: bt_wf_insert store_inv_wf)
  then show "store_inv (s'\<lparr>data := bt_insert key value (data s')\<rparr>)
      \<and> bt_get (data (s'\<lparr>data := bt_insert key value (data s')\<rparr>)) = (bt_get (data s))(key \<mapsto> value)
      \<and> bt_get (ttl (s'\<lparr>data := bt_insert key value (data s')\<rparr>)) = (bt_get (ttl s))(key := None)"
    using s'(2,3) by (simp add: bt_get_insert)
qed

lemma store_delete_value_spec:
  assumes "store_inv s"
  shows "returns (store_delete_value key) s (\<lambda>_ s'. store_inv s'
      \<and> bt_get (data s') = (bt_get (data s))(key := None)
      \<and> bt_get (ttl s') = (bt_get (ttl s))(key := None))"
  unfolding store_delete_value_def returns_bind returns_modify
proof (rule returns_mono[OF store_delete_ttl_spec[OF assms]], elim conjE)
  fix s'
  assume s': "store_inv s'" "data s' = data s" "bt_get (ttl s') = (bt_get (ttl s))(key := None)"
  have "dom (bt_get (ttl s')) \<subseteq> dom (bt_get (bt_remove key (data s')))"
    using s'(1,3) by (auto simp: store_inv_def bt_get_remove)
  with s'(1) have "store_inv (s'\<lparr>data := bt_remove key (data s')\<rparr>)"
    by (intro store_inv_data) (simp_all add: bt_wf_remove store_inv_wf)
  then show "store_inv (s'\<lparr>data := bt_remove key (data s')\<rparr>)
      \<and> bt_get (data (s'\<lparr>data := bt_remove key (data s')\<rparr>)) = (bt_get (data s))(key := None)
      \<and> bt_get (ttl (s'\<lparr>data := bt_remove key (data s')\<rparr>)) = (bt_get (ttl s))(key := None)"
    using s'(2,3) by (simp add: bt_get_remove)
qed

text \<open>
  Compare-and-delete is a read followed, on a match, by a delete: one critical section, so there
  is nothing in between.
\<close>

lemma store_delete_value_if_match_eq:
  "store_delete_value_if_match key expected s =
    (if bt_get (data s) key = Some expected
     then op_bind (store_delete_value key) (\<lambda>_. op_ret True) s else (Ret False, s))"
  by (simp add: store_delete_value_if_match_def store_delete_value_def op_bind_assoc
      op_bind_eq(1)[OF op_get_eval] op_simps)

lemma store_delete_value_if_match_spec:
  assumes "store_inv s"
  shows "returns (store_delete_value_if_match key expected) s (\<lambda>r s'. store_inv s'
      \<and> r = (bt_get (data s) key = Some expected)
      \<and> bt_get (data s') = (if r then (bt_get (data s))(key := None) else bt_get (data s))
      \<and> bt_get (ttl s') = (if r then (bt_get (ttl s))(key := None) else bt_get (ttl s)))"
proof (cases "bt_get (data s) key = Some expected")
  case True
  have "returns (op_bind (store_delete_value key) (\<lambda>_. op_ret True)) s (\<lambda>r s'. store_inv s' \<and> r
      \<and> bt_get (data s') = (bt_get (data s))(key := None)
      \<and> bt_get (ttl s') = (bt_get (ttl s))(key := None))"
    using store_delete_value_spec[OF assms, of key] by (simp add: wp)
  then show ?thesis
    using True by (auto simp: returns_def store_delete_value_if_match_eq split: prod.splits outcome.splits)
next
  case False
  then show ?thesis using assms by (simp add: returns_def store_delete_value_if_match_eq)
qed

lemma store_write_ttl_spec:
  assumes inv: "store_inv s"
  shows "returns (store_write_ttl key instant) s (\<lambda>_ s'. store_inv s' \<and> data s' = data s
      \<and> bt_get (ttl s') = (if bt_get (data s) key = None then bt_get (ttl s)
                          else (bt_get (ttl s))(key \<mapsto> instant)))"
proof (cases "bt_get (data s) key")
  case None
  then show ?thesis using inv by (simp add: store_write_ttl_def bt_contains_def wp)
next
  case (Some v)
  have "returns (store_delete_ttl key) s (\<lambda>_ s'. store_inv (s'\<lparr>ttl := bt_insert key instant (ttl s'),
      expiry := expiry_push instant key (expiry s')\<rparr>) \<and> data s' = data s
      \<and> bt_get (ttl s') = (bt_get (ttl s))(key := None))"
    by (rule returns_mono[OF store_delete_ttl_spec[OF inv]]) (use Some in \<open>auto intro: store_inv_attach\<close>)
  then show ?thesis
    unfolding store_write_ttl_def returns_bind returns_get
    by (simp add: Some bt_contains_def returns_bind) (auto simp: wp bt_get_insert elim!: returns_mono)
qed

lemma store_write_value_with_ttl_spec:
  assumes inv: "store_inv s"
  shows "returns (store_write_value_with_ttl key value instant) s (\<lambda>_ s'. store_inv s'
      \<and> bt_get (data s') = (bt_get (data s))(key \<mapsto> value)
      \<and> bt_get (ttl s') = (bt_get (ttl s))(key \<mapsto> instant))"
  unfolding store_write_value_with_ttl_def returns_bind returns_modify
proof (rule returns_mono[OF store_delete_ttl_spec[OF inv]], elim conjE)
  fix s'
  assume s': "store_inv s'" "data s' = data s" "bt_get (ttl s') = (bt_get (ttl s))(key := None)"
  let ?s = "s'\<lparr>data := bt_insert key value (data s')\<rparr>"
  have "store_inv ?s"
    using s'(1) by (intro store_inv_data) (auto simp: store_inv_def bt_wf_insert bt_get_insert)
  then have "store_inv (?s\<lparr>ttl := bt_insert key instant (ttl ?s), expiry := expiry_push instant key (expiry ?s)\<rparr>)"
    by (rule store_inv_attach[where v = "value"]) (simp_all add: s' bt_get_insert)
  then show "store_inv (s'\<lparr>data := bt_insert key value (data s'), ttl := bt_insert key instant (ttl s'),
          expiry := expiry_push instant key (expiry s')\<rparr>)
      \<and> bt_get (data (s'\<lparr>data := bt_insert key value (data s'), ttl := bt_insert key instant (ttl s'),
          expiry := expiry_push instant key (expiry s')\<rparr>)) = (bt_get (data s))(key \<mapsto> value)
      \<and> bt_get (ttl (s'\<lparr>data := bt_insert key value (data s'), ttl := bt_insert key instant (ttl s'),
          expiry := expiry_push instant key (expiry s')\<rparr>)) = (bt_get (ttl s))(key \<mapsto> instant)"
    by (simp add: s' bt_get_insert)
qed

lemma store_find_by_prefix_spec:
  assumes "store_inv s"
  shows "store_find_by_prefix pre s = (Ret (filter (\<lambda>p. prefix pre (fst p)) (data s)), s)"
  using store_inv_wf(1)[OF assms] by (simp add: store_find_by_prefix_def op_simps bt_prefix_scan)

lemmas store_specs = store_write_value_spec store_delete_value_spec store_delete_value_if_match_spec
  store_write_ttl_spec store_write_value_with_ttl_spec

section \<open>Reachable stores\<close>

datatype store_call =
    Expire instant
  | Put bytes bytes
  | Remove bytes
  | Remove_If bytes bytes
  | Set_Deadline bytes instant
  | Put_Until bytes bytes instant

definition store_exec :: "store_call \<Rightarrow> (store, unit) op" where
  "store_exec c = (case c of
     Expire now \<Rightarrow> store_delete_expired_entries now
   | Put k v \<Rightarrow> store_write_value k v
   | Remove k \<Rightarrow> store_delete_value k
   | Remove_If k e \<Rightarrow> op_bind (store_delete_value_if_match k e) (\<lambda>_. op_ret ())
   | Set_Deadline k i \<Rightarrow> store_write_ttl k i
   | Put_Until k v i \<Rightarrow> store_write_value_with_ttl k v i)"

inductive store_reach :: "store \<Rightarrow> bool" where
  created: "store_reach create_store"
| called: "store_reach s \<Longrightarrow> store_exec c s = (r, s') \<Longrightarrow> store_reach s'"

lemma store_exec_inv:
  assumes inv: "store_inv s"
  shows "returns (store_exec c) s (\<lambda>_ s'. store_inv s')"
proof (cases c)
  case (Expire now)
  then show ?thesis
    using store_expire[OF inv] store_inv_purge[OF inv] by (simp add: store_exec_def returns_def)
next
  case (Put k v)
  then show ?thesis using returns_mono[OF store_write_value_spec[OF inv]] by (simp add: store_exec_def)
next
  case (Remove k)
  then show ?thesis using returns_mono[OF store_delete_value_spec[OF inv]] by (simp add: store_exec_def)
next
  case (Remove_If k e)
  then show ?thesis using returns_mono[OF store_delete_value_if_match_spec[OF inv]] by (simp add: store_exec_def wp)
next
  case (Set_Deadline k i)
  then show ?thesis using returns_mono[OF store_write_ttl_spec[OF inv]] by (simp add: store_exec_def)
next
  case (Put_Until k v i)
  then show ?thesis using returns_mono[OF store_write_value_with_ttl_spec[OF inv]] by (simp add: store_exec_def)
qed

lemma store_reach_inv: "store_reach s \<Longrightarrow> store_inv s"
proof (induction rule: store_reach.induct)
  case created
  show ?case by simp
next
  case (called s c r s')
  from store_exec_inv[OF called.IH, of c] called.hyps(2) show ?case
    by (auto simp: returns_def split: outcome.splits)
qed

section \<open>Properties\<close>

text \<open>C5: In every store that the operations can reach from an empty one, the three maps agree (every
  deadline belongs to a stored key, and the deadline index lists exactly the keys with a deadline)
  and every operation returns: the unwraps of \<open>delete_ttl\<close> and of the expiry loop never panic.\<close>

theorem store_reachable_safe:
  assumes "store_reach s"
  shows "store_inv s \<and> (\<forall>c. \<exists>s'. store_exec c s = (Ret (), s'))"
proof -
  have inv: "store_inv s" by (rule store_reach_inv[OF assms])
  moreover have "\<exists>s'. store_exec c s = (Ret (), s')" for c
    using store_exec_inv[OF inv, of c] by (auto elim!: returnsE)
  ultimately show ?thesis by blast
qed

lemma store_reachable_safe_witness:
  "store_inv create_store \<and> (\<forall>c. \<exists>s'. store_exec c create_store = (Ret (), s'))"
  by (rule store_reachable_safe[OF store_reach.created])

text \<open>C15: The expiry loop ends and removes exactly the keys whose deadline has come: what is left has
  its value, and no deadline that has come is left in either index.\<close>

theorem store_expiry_exact:
  assumes "store_inv s"
  shows "returns (store_delete_expired_entries now) s (\<lambda>_ s'. store_inv s'
    \<and> (\<forall>k. bt_get (data s') k = (if \<exists>e. bt_get (ttl s) k = Some e \<and> e \<le> now then None else bt_get (data s) k))
    \<and> (\<forall>k e. bt_get (ttl s') k = Some e \<longrightarrow> now < e) \<and> (\<forall>e ks. bt_get (expiry s') e = Some ks \<longrightarrow> now < e))"
proof -
  have "now < e" if "bt_get (expiry (store_purge now s)) e = Some ks" for e ks
    using map_of_SomeD[OF that] by (simp add: store_purge_def)
  then show ?thesis
    using store_inv_purge[OF assms] store_purge_ttl_future[OF assms]
    by (auto simp: returns_def store_expire[OF assms] get_data_purge store_view_def split: option.split)
qed

definition sample_store :: store where
  "sample_store = \<lparr>data = [([1], [9]), ([2], [8])], expiry = [(5, [[2]])], ttl = [([2], 5)]\<rparr>"

lemma sample_store_inv: "store_inv sample_store"
  by (auto simp: store_inv_def sample_store_def bt_wf_def split: if_splits)

lemma store_expiry_exact_witness:
  "returns (store_delete_expired_entries 5) sample_store (\<lambda>_ s'. store_inv s'
    \<and> (\<forall>k. bt_get (data s') k = (if \<exists>e. bt_get (ttl sample_store) k = Some e \<and> e \<le> 5 then None else bt_get (data sample_store) k))
    \<and> (\<forall>k e. bt_get (ttl s') k = Some e \<longrightarrow> 5 < e) \<and> (\<forall>e ks. bt_get (expiry s') e = Some ks \<longrightarrow> 5 < e))"
  by (rule store_expiry_exact[OF sample_store_inv])

text \<open>The prefix scan, which walks the ordered map from the prefix while keys match, finds every key
  with the prefix: it equals filtering the whole map.\<close>

theorem store_prefix_scan_complete:
  assumes "store_inv s"
  shows "store_find_by_prefix pre s = (Ret (filter (\<lambda>(k, v). prefix pre k) (data s)), s)"
  using store_find_by_prefix_spec[OF assms] by (simp add: case_prod_unfold)

lemma store_prefix_scan_complete_witness:
  "store_find_by_prefix [2] sample_store = (Ret (filter (\<lambda>(k, v). prefix [2] k) (data sample_store)), sample_store)"
  by (rule store_prefix_scan_complete[OF sample_store_inv])

end
