(* ===== verification/Data_Bus.thy ===== *)
theory Data_Bus
  imports Store
begin

text \<open>
  \<open>src/core/data_bus.rs\<close>: the trait \<open>DataBus\<close>, the one interface through which the router, the
  SQL layer, import, export and the admin commands reach storage. A \<open>dyn DataBus\<close> is the record
  of its methods over a state type; the clients' definitions take the record as an argument, as
  the code takes \<open>&Arc<dyn DataBus>\<close>. The locale \<open>kv_bus\<close> states what every implementation
  promises, and \<open>ttl_bus\<close> what an implementation with a transient tier promises beside it; the
  clients' facts are proved once, in these locales, and hold of each implementation by its
  interpretation.
\<close>

record 'st data_bus =
  bus_read_value :: "bytes \<Rightarrow> ('st, bytes option) op"
  bus_write_value :: "bytes \<Rightarrow> bytes \<Rightarrow> ('st, unit) op"
  bus_delete_value :: "bytes \<Rightarrow> ('st, unit) op"
  bus_delete_value_if_match :: "bytes \<Rightarrow> bytes \<Rightarrow> ('st, bool) op"
  bus_write_ttl :: "bytes \<Rightarrow> duration \<Rightarrow> ('st, unit) op"
  bus_write_value_with_ttl :: "bytes \<Rightarrow> bytes \<Rightarrow> duration \<Rightarrow> ('st, unit) op"
  bus_read_ttl_remaining :: "bytes \<Rightarrow> ('st, duration option) op"
  bus_find_by_prefix :: "bytes \<Rightarrow> ('st, (bytes \<times> bytes) list) op"

section \<open>Durations\<close>

definition from_millis :: "u64 \<Rightarrow> duration" where
  "from_millis ms = unat ms * 1000000"

definition from_secs :: "u64 \<Rightarrow> duration" where
  "from_secs s = unat s * 1000000000"

definition as_millis :: "duration \<Rightarrow> nat" where
  "as_millis d = d div 1000000"

definition as_secs :: "duration \<Rightarrow> nat" where
  "as_secs d = d div 1000000000"

text \<open>What \<open>from_millis\<close> can build: every duration that arrives over the wire.\<close>

definition wire_duration :: "duration \<Rightarrow> bool" where
  "wire_duration d \<longleftrightarrow> d < 2 ^ 64 * 1000000"

lemma wire_duration_from_millis [simp]: "wire_duration (from_millis ms)"
  using unsigned_less[of ms, where ?'a = nat] by (simp add: wire_duration_def from_millis_def)

section \<open>What a bus promises\<close>

text \<open>
  \<open>view s t k\<close> is the value that a read of \<open>k\<close> finds if its clock reads \<open>t\<close>, with no write in
  between; \<open>now s\<close> is the next clock reading. \<open>bus_step\<close> relates the states before and after an
  operation: the invariant is kept, time does not run backwards, and at every later time the
  view is the old view changed by \<open>upd\<close>.
\<close>

definition bus_step ::
  "('st \<Rightarrow> bool) \<Rightarrow> ('st \<Rightarrow> instant) \<Rightarrow> ('st \<Rightarrow> instant \<Rightarrow> bytes \<Rightarrow> bytes option) \<Rightarrow> 'st \<Rightarrow> 'st \<Rightarrow>
   (instant \<Rightarrow> (bytes \<Rightarrow> bytes option) \<Rightarrow> bytes \<Rightarrow> bytes option) \<Rightarrow> bool" where
  "bus_step good now view s s' upd \<longleftrightarrow>
     good s' \<and> now s \<le> now s' \<and> (\<forall>t. now s' \<le> t \<longrightarrow> view s' t = upd t (view s t))"

definition is_scan :: "(bytes \<Rightarrow> bytes option) \<Rightarrow> bytes \<Rightarrow> (bytes \<times> bytes) list \<Rightarrow> bool" where
  "is_scan m pre r \<longleftrightarrow> sorted_wrt (<) (map fst r) \<and>
     (\<forall>k v. (k, v) \<in> set r \<longleftrightarrow> prefix pre k \<and> m k = Some v)"

lemma is_scan_unique: "is_scan m pre r \<Longrightarrow> is_scan m pre r' \<Longrightarrow> r = r'"
proof (rule bt_ext)
  assume r: "is_scan m pre r" "is_scan m pre r'"
  then show wf: "bt_wf r" "bt_wf r'" by (simp_all add: is_scan_def bt_wf_def)
  show "bt_get r k = bt_get r' k" for k
  proof (rule option.expand)
    have "bt_get r k = Some v \<longleftrightarrow> bt_get r' k = Some v" for v
      using r by (simp add: bt_get_in_set[OF wf(1)] bt_get_in_set[OF wf(2)] is_scan_def)
    then show "(bt_get r k = None) = (bt_get r' k = None)"
      "bt_get r k \<noteq> None \<Longrightarrow> bt_get r' k \<noteq> None \<Longrightarrow> the (bt_get r k) = the (bt_get r' k)"
      by (metis not_None_eq, metis option.collapse option.sel)
  qed
qed

lemma bus_step_trans:
  assumes "bus_step good now view s s' f" and "bus_step good now view s' s'' g"
  shows "bus_step good now view s s'' (\<lambda>t m. g t (f t m))"
  using assms by (auto simp: bus_step_def)

locale kv_bus =
  fixes bus :: "'st data_bus"
    and good :: "'st \<Rightarrow> bool"
    and now :: "'st \<Rightarrow> instant"
    and view :: "'st \<Rightarrow> instant \<Rightarrow> bytes \<Rightarrow> bytes option"
    and storable :: "bytes \<Rightarrow> bool"
  assumes read_law: "good s \<Longrightarrow> returns (bus_read_value bus k) s (\<lambda>r s'.
      r = view s (now s) k \<and> bus_step good now view s s' (\<lambda>t m. m))"
    and write_law: "good s \<Longrightarrow> storable k \<Longrightarrow> returns (bus_write_value bus k v) s (\<lambda>_ s'.
      bus_step good now view s s' (\<lambda>t m. m(k \<mapsto> v)))"
    and delete_law: "good s \<Longrightarrow> returns (bus_delete_value bus k) s (\<lambda>_ s'.
      bus_step good now view s s' (\<lambda>t m. m(k := None)))"
    and cas_law: "good s \<Longrightarrow> returns (bus_delete_value_if_match bus k expected) s (\<lambda>r s'.
      r = (view s (now s) k = Some expected) \<and>
      bus_step good now view s s' (\<lambda>t m. if r then m(k := None) else m))"
    and remaining_law: "good s \<Longrightarrow> returns (bus_read_ttl_remaining bus k) s (\<lambda>r s'.
      (r \<noteq> None \<longrightarrow> view s (now s) k \<noteq> None) \<and> bus_step good now view s s' (\<lambda>t m. m))"
    and find_law: "good s \<Longrightarrow> returns (bus_find_by_prefix bus pre) s (\<lambda>r s'.
      is_scan (view s (now s)) pre r \<and> bus_step good now view s s' (\<lambda>t m. m))"
    and view_antimono: "good s \<Longrightarrow> now s \<le> t \<Longrightarrow> t \<le> t' \<Longrightarrow> view s t' k = Some v \<Longrightarrow> view s t k = Some v"
begin

text \<open>A write is read back, whenever the read comes.\<close>

lemma write_then_read:
  assumes "good s" and "storable k"
  shows "returns (op_bind (bus_write_value bus k v) (\<lambda>_. bus_read_value bus k')) s
    (\<lambda>r s'. \<exists>t. now s \<le> t \<and> t \<le> now s' \<and> r = (if k' = k then Some v else view s t k'))"
  unfolding returns_bind
proof (rule returns_mono[OF write_law[OF assms]])
  fix u s'
  assume step: "bus_step good now view s s' (\<lambda>t m. m(k \<mapsto> v))"
  then have "good s'" by (simp add: bus_step_def)
  show "returns (bus_read_value bus k') s' (\<lambda>r s''. \<exists>t. now s \<le> t \<and> t \<le> now s'' \<and>
      r = (if k' = k then Some v else view s t k'))"
    by (rule returns_mono[OF read_law[OF \<open>good s'\<close>]]) (use step in \<open>auto simp: bus_step_def\<close>)
qed

lemma delete_then_read:
  assumes "good s"
  shows "returns (op_bind (bus_delete_value bus k) (\<lambda>_. bus_read_value bus k)) s (\<lambda>r s'. r = None)"
  unfolding returns_bind
proof (rule returns_mono[OF delete_law[OF assms]])
  fix u s'
  assume step: "bus_step good now view s s' (\<lambda>t m. m(k := None))"
  then have "good s'" by (simp add: bus_step_def)
  show "returns (bus_read_value bus k) s' (\<lambda>r s''. r = None)"
    by (rule returns_mono[OF read_law[OF \<open>good s'\<close>]]) (use step in \<open>auto simp: bus_step_def\<close>)
qed

text \<open>Of two compare-and-deletes for the same key, the second finds the key gone if the first won.\<close>

lemma cas_at_most_one:
  assumes "good s"
  shows "returns (op_bind (bus_delete_value_if_match bus k e) (\<lambda>a.
      op_bind (bus_delete_value_if_match bus k e') (\<lambda>b. op_ret (a, b)))) s (\<lambda>(a, b) s'. \<not> (a \<and> b))"
  unfolding returns_bind
proof (rule returns_mono[OF cas_law[OF assms]], elim conjE)
  fix a s'
  assume step: "bus_step good now view s s' (\<lambda>t m. if a then m(k := None) else m)"
  then have "good s'" by (simp add: bus_step_def)
  show "returns (bus_delete_value_if_match bus k e') s' (\<lambda>b s''.
      returns (op_ret (a, b)) s'' (\<lambda>(a, b) s'. \<not> (a \<and> b)))"
    by (rule returns_mono[OF cas_law[OF \<open>good s'\<close>]]) (use step in \<open>auto simp: bus_step_def wp\<close>)
qed

end

locale ttl_bus = kv_bus +
  assumes write_ttl_law: "good s \<Longrightarrow> wire_duration d \<Longrightarrow> returns (bus_write_ttl bus k d) s (\<lambda>_ s'.
      \<exists>b. now s \<le> b \<and> b \<le> now s' \<and> bus_step good now view s s' (\<lambda>t m.
        m(k := if t < b + d then view s (now s) k else None)))"
    and write_with_ttl_law: "good s \<Longrightarrow> wire_duration d \<Longrightarrow>
      returns (bus_write_value_with_ttl bus k v d) s (\<lambda>_ s'.
        \<exists>b. now s \<le> b \<and> b \<le> now s' \<and> bus_step good now view s s' (\<lambda>t m.
          m(k := if t < b + d then Some v else None)))"
begin

text \<open>A value with a lifetime is found until the lifetime is over, and never after.\<close>

lemma write_with_ttl_then_read:
  assumes "good s" and "wire_duration d"
  shows "returns (op_bind (bus_write_value_with_ttl bus k v d) (\<lambda>_.
      op_bind (op_get now) (\<lambda>t. op_bind (bus_read_value bus k) (\<lambda>r. op_ret (t, r))))) s
    (\<lambda>(t, r) s'. \<exists>b. now s \<le> b \<and> b \<le> t \<and> r = (if t < b + d then Some v else None))"
  unfolding returns_bind returns_get
proof (rule returns_mono[OF write_with_ttl_law[OF assms]], elim exE conjE)
  fix u s' b
  assume b: "now s \<le> b" "b \<le> now s'"
    and step: "bus_step good now view s s' (\<lambda>t m. m(k := if t < b + d then Some v else None))"
  then have "good s'" by (simp add: bus_step_def)
  show "returns (bus_read_value bus k) s' (\<lambda>r s''. returns (op_ret (now s', r)) s''
      (\<lambda>(t, r) s'. \<exists>b. now s \<le> b \<and> b \<le> t \<and> r = (if t < b + d then Some v else None)))"
    by (rule returns_mono[OF read_law[OF \<open>good s'\<close>]]) (use step b in \<open>auto simp: bus_step_def wp\<close>)
qed

end

end
