(* ===== verification/Timed_Map.thy ===== *)
theory Timed_Map
  imports Data_Bus
begin

text \<open>
  The abstract specification of a bus with lifetimes: a map from keys to values with an optional
  deadline, changed by one call at a time, and the proof, once for every implementation of
  \<open>ttl_bus\<close>, that any sequence of calls gives the results that this map gives.
\<close>

section \<open>The specification\<close>

type_synonym timed_map = "bytes \<Rightarrow> (bytes \<times> instant option) option"

text \<open>The value of a key at an instant: a deadline that has come hides it.\<close>

definition value_at :: "timed_map \<Rightarrow> instant \<Rightarrow> bytes \<Rightarrow> bytes option" where
  "value_at m t k = Option.bind (m k) (\<lambda>(v, deadline).
     case deadline of None \<Rightarrow> Some v | Some e \<Rightarrow> if t < e then Some v else None)"

text \<open>
  The calls that one map with deadlines explains. \<open>read_ttl_remaining\<close>, the remaining method of the bus,
  is not among them: on the two-tier bus it reports the lifetime of a copy in the cache too.
\<close>

datatype bus_call =
    Read_Value bytes
  | Write_Value bytes bytes
  | Delete_Value bytes
  | Delete_If_Match bytes bytes
  | Write_Ttl bytes duration
  | Write_With_Ttl bytes bytes duration
  | Find_By_Prefix bytes

datatype bus_result = Done | Found "bytes option" | Matched bool | Pairs "(bytes \<times> bytes) list"

text \<open>
  One call, given the instant \<open>t\<close> at which it looks and the instant \<open>b\<close> from which it counts a
  lifetime.
\<close>

fun timed_step :: "bus_call \<Rightarrow> instant \<Rightarrow> instant \<Rightarrow> timed_map \<Rightarrow> timed_map" where
  "timed_step (Read_Value k) t b m = m"
| "timed_step (Write_Value k v) t b m = m(k \<mapsto> (v, None))"
| "timed_step (Delete_Value k) t b m = m(k := None)"
| "timed_step (Delete_If_Match k e) t b m = (if value_at m t k = Some e then m(k := None) else m)"
| "timed_step (Write_Ttl k d) t b m = m(k := map_option (\<lambda>v. (v, Some (b + d))) (value_at m t k))"
| "timed_step (Write_With_Ttl k v d) t b m = m(k \<mapsto> (v, Some (b + d)))"
| "timed_step (Find_By_Prefix p) t b m = m"

fun timed_result :: "bus_call \<Rightarrow> instant \<Rightarrow> timed_map \<Rightarrow> bus_result \<Rightarrow> bool" where
  "timed_result (Read_Value k) t m r \<longleftrightarrow> r = Found (value_at m t k)"
| "timed_result (Delete_If_Match k e) t m r \<longleftrightarrow> r = Matched (value_at m t k = Some e)"
| "timed_result (Find_By_Prefix p) t m r \<longleftrightarrow> (\<exists>ps. r = Pairs ps \<and> is_scan (value_at m t) p ps)"
| "timed_result _ t m r \<longleftrightarrow> r = Done"

text \<open>
  The results of a sequence of calls are explained by the map if there are instants, in order,
  at which the calls look and count, that give them.
\<close>

fun explained :: "bus_call list \<Rightarrow> instant \<Rightarrow> timed_map \<Rightarrow> bus_result list \<Rightarrow> instant \<Rightarrow> timed_map \<Rightarrow> bool" where
  "explained [] t0 m rs t1 m' \<longleftrightarrow> rs = [] \<and> t0 \<le> t1 \<and> m' = m"
| "explained (c # cs) t0 m rs t1 m' \<longleftrightarrow> (\<exists>t b r rs'. t0 \<le> t \<and> t \<le> b \<and> rs = r # rs' \<and>
     timed_result c t m r \<and> explained cs b (timed_step c t b m) rs' t1 m')"

lemma explained_earlier: "explained cs t0 m rs t1 m' \<Longrightarrow> t0' \<le> t0 \<Longrightarrow> explained cs t0' m rs t1 m'"
  by (cases cs) (auto, meson order.trans)

section \<open>Implementations\<close>

definition exec_call :: "'st data_bus \<Rightarrow> bus_call \<Rightarrow> ('st, bus_result) op" where
  "exec_call bus c = (case c of
     Read_Value k \<Rightarrow> op_bind (bus_read_value bus k) (\<lambda>r. op_ret (Found r))
   | Write_Value k v \<Rightarrow> op_bind (bus_write_value bus k v) (\<lambda>_. op_ret Done)
   | Delete_Value k \<Rightarrow> op_bind (bus_delete_value bus k) (\<lambda>_. op_ret Done)
   | Delete_If_Match k e \<Rightarrow> op_bind (bus_delete_value_if_match bus k e) (\<lambda>r. op_ret (Matched r))
   | Write_Ttl k d \<Rightarrow> op_bind (bus_write_ttl bus k d) (\<lambda>_. op_ret Done)
   | Write_With_Ttl k v d \<Rightarrow> op_bind (bus_write_value_with_ttl bus k v d) (\<lambda>_. op_ret Done)
   | Find_By_Prefix p \<Rightarrow> op_bind (bus_find_by_prefix bus p) (\<lambda>r. op_ret (Pairs r)))"

fun call_ok :: "(bytes \<Rightarrow> bool) \<Rightarrow> bus_call \<Rightarrow> bool" where
  "call_ok storable (Write_Value k v) \<longleftrightarrow> storable k"
| "call_ok storable (Write_Ttl k d) \<longleftrightarrow> wire_duration d"
| "call_ok storable (Write_With_Ttl k v d) \<longleftrightarrow> wire_duration d"
| "call_ok storable _ \<longleftrightarrow> True"

definition represents :: "('st \<Rightarrow> instant) \<Rightarrow> ('st \<Rightarrow> instant \<Rightarrow> bytes \<Rightarrow> bytes option) \<Rightarrow> 'st \<Rightarrow> timed_map \<Rightarrow> bool" where
  "represents now view s m \<longleftrightarrow> (\<forall>t. now s \<le> t \<longrightarrow> view s t = value_at m t)"

lemma value_at_upd: "value_at (m(k := x)) t = (value_at m t)(k := Option.bind x (\<lambda>(v, deadline).
    case deadline of None \<Rightarrow> Some v | Some e \<Rightarrow> if t < e then Some v else None))"
  by (auto simp: value_at_def fun_eq_iff)

lemma represents_step:
  assumes "represents now view s m" and "bus_step good now view s s' upd"
    and "\<And>t. now s' \<le> t \<Longrightarrow> upd t (value_at m t) = value_at m' t"
  shows "represents now view s' m'"
  using assms by (auto simp: represents_def bus_step_def)

context ttl_bus begin

lemma exec_call_refines:
  assumes good: "good s" and rep: "represents now view s m" and ok: "call_ok storable c"
  shows "returns (exec_call bus c) s (\<lambda>r s'. good s' \<and> (\<exists>b. now s \<le> b \<and> b \<le> now s' \<and>
    timed_result c (now s) m r \<and> represents now view s' (timed_step c (now s) b m)))"
proof -
  have look: "view s (now s) = value_at m (now s)" using rep by (simp add: represents_def)
  have step: "good s' \<and> (\<exists>b. now s \<le> b \<and> b \<le> now s' \<and> Q \<and> represents now view s' (f b))"
    if "bus_step good now view s s' upd" "now s \<le> b" "b \<le> now s'" "Q"
      "\<And>t. upd t (value_at m t) = value_at (f b) t" for s' upd b f Q
    using that represents_step[OF rep that(1)] by (auto simp: bus_step_def)
  have quiet: "good s' \<and> (\<exists>b. now s \<le> b \<and> b \<le> now s' \<and> Q \<and> represents now view s' (f b))"
    if "bus_step good now view s s' upd" "Q" "\<And>t. upd t (value_at m t) = value_at (f (now s)) t" for s' upd f Q
    using that(1) by (intro step[OF that(1), where b = "now s"] that(2,3)) (auto simp: bus_step_def)
  show ?thesis
  proof (cases c)
    case (Read_Value k)
    show ?thesis
      unfolding Read_Value exec_call_def bus_call.case returns_bind returns_ret
      by (rule returns_mono[OF read_law[OF good]], elim conjE, erule quiet) (simp_all add: look)
  next
    case (Write_Value k v)
    then have "storable k" using ok by simp
    show ?thesis
      unfolding Write_Value exec_call_def bus_call.case returns_bind returns_ret
      by (rule returns_mono[OF write_law[OF good \<open>storable k\<close>]], erule quiet) (simp_all add: value_at_upd)
  next
    case (Delete_Value k)
    show ?thesis
      unfolding Delete_Value exec_call_def bus_call.case returns_bind returns_ret
      by (rule returns_mono[OF delete_law[OF good]], erule quiet) (simp_all add: value_at_upd)
  next
    case (Delete_If_Match k e)
    show ?thesis
      unfolding Delete_If_Match exec_call_def bus_call.case returns_bind returns_ret
      by (rule returns_mono[OF cas_law[OF good]], elim conjE, erule quiet) (simp_all add: look value_at_upd)
  next
    case (Write_Ttl k d)
    then have d: "wire_duration d" using ok by simp
    show ?thesis
      unfolding Write_Ttl exec_call_def bus_call.case returns_bind returns_ret
      by (rule returns_mono[OF write_ttl_law[OF good d]], elim exE conjE, erule (2) step)
        (simp_all add: look value_at_upd, cases "value_at m (now s) k", simp_all)
  next
    case (Write_With_Ttl k v d)
    then have d: "wire_duration d" using ok by simp
    show ?thesis
      unfolding Write_With_Ttl exec_call_def bus_call.case returns_bind returns_ret
      by (rule returns_mono[OF write_with_ttl_law[OF good d]], elim exE conjE, erule (2) step)
        (simp_all add: value_at_upd)
  next
    case (Find_By_Prefix p)
    show ?thesis
      unfolding Find_By_Prefix exec_call_def bus_call.case returns_bind returns_ret
      by (rule returns_mono[OF find_law[OF good]], elim conjE, erule quiet) (simp_all add: look)
  qed
qed

text \<open>Every sequence of calls returns, and the timed map explains its results.\<close>

lemma calls_refine:
  "good s \<Longrightarrow> represents now view s m \<Longrightarrow> \<forall>c \<in> set cs. call_ok storable c \<Longrightarrow>
    returns (op_map (exec_call bus) cs) s (\<lambda>rs s'. good s' \<and>
      (\<exists>m'. explained cs (now s) m rs (now s') m' \<and> represents now view s' m'))"
proof (induction cs arbitrary: s m)
  case Nil
  then show ?case by (simp add: wp)
next
  case (Cons c cs)
  have "call_ok storable c" using Cons.prems(3) by simp
  show ?case
    unfolding op_map.simps returns_bind
  proof (rule returns_mono[OF exec_call_refines[OF Cons.prems(1,2) \<open>call_ok storable c\<close>]], elim exE conjE)
    fix r s' b
    assume s': "good s'" and b: "now s \<le> b" "b \<le> now s'" and r: "timed_result c (now s) m r"
      and rep: "represents now view s' (timed_step c (now s) b m)"
    show "returns (op_map (exec_call bus) cs) s' (\<lambda>rs s'. returns (op_ret (r # rs)) s' (\<lambda>rs s'. good s' \<and>
        (\<exists>m'. explained (c # cs) (now s) m rs (now s') m' \<and> represents now view s' m')))"
    proof (rule returns_mono[OF Cons.IH[OF s' rep]], goal_cases)
      case 1 show ?case using Cons.prems(3) by simp
    next
      case (2 rs s'')
      then obtain m' where "explained cs (now s') (timed_step c (now s) b m) rs (now s'') m'"
        and rep'': "good s''" "represents now view s'' m'" by blast
      then have "explained cs b (timed_step c (now s) b m) rs (now s'') m'"
        using explained_earlier[OF _ b(2)] by blast
      then have "explained (c # cs) (now s) m (r # rs) (now s'') m'"
        unfolding explained.simps using b(1) r
        by - (rule exI[of _ "now s"], rule exI[of _ b], rule exI[of _ r], rule exI[of _ rs], simp)
      with rep'' show ?case by (auto simp: wp)
    qed
  qed
qed

end

end
