(* ===== verification/Utf8.thy ===== *)
theory Utf8
  imports Bytes
begin

text \<open>
  What the program uses of Rust's string library, over UTF-8 bytes: validity
  (\<open>std::str::from_utf8\<close>), splitting at an ASCII character, and decimal numerals. A \<open>str\<close> is a
  valid byte list; the characters the program searches for are ASCII, and an ASCII byte never
  occurs inside a longer sequence of valid UTF-8, so searching the bytes is searching the
  characters.
\<close>

section \<open>Validity\<close>

definition utf8_cont :: "byte \<Rightarrow> bool" where
  "utf8_cont b \<longleftrightarrow> 0x80 \<le> b \<and> b \<le> 0xBF"

text \<open>The second byte of a three- or four-byte sequence, by its first byte.\<close>

definition utf8_second3 :: "byte \<Rightarrow> byte \<Rightarrow> bool" where
  "utf8_second3 a b \<longleftrightarrow>
     (if a = 0xE0 then 0xA0 \<le> b \<and> b \<le> 0xBF
      else if a = 0xED then 0x80 \<le> b \<and> b \<le> 0x9F
      else utf8_cont b)"

definition utf8_second4 :: "byte \<Rightarrow> byte \<Rightarrow> bool" where
  "utf8_second4 a b \<longleftrightarrow>
     (if a = 0xF0 then 0x90 \<le> b \<and> b \<le> 0xBF
      else if a = 0xF4 then 0x80 \<le> b \<and> b \<le> 0x8F
      else utf8_cont b)"

text \<open>
  The next step of the decoder on a byte and what follows it: whether a well-formed character
  starts there, and how many bytes the character or the ill-formed part has.
\<close>

fun utf8_next :: "byte \<Rightarrow> bytes \<Rightarrow> bool \<times> nat" where
  "utf8_next a bs =
     (if a \<le> 0x7F then (True, 1)
      else if 0xC2 \<le> a \<and> a \<le> 0xDF then
        (case bs of b # _ \<Rightarrow> if utf8_cont b then (True, 2) else (False, 1) | [] \<Rightarrow> (False, 1))
      else if 0xE0 \<le> a \<and> a \<le> 0xEF then
        (case bs of b # cs \<Rightarrow>
            if \<not> utf8_second3 a b then (False, 1)
            else (case cs of c # _ \<Rightarrow> if utf8_cont c then (True, 3) else (False, 2) | [] \<Rightarrow> (False, 2))
          | [] \<Rightarrow> (False, 1))
      else if 0xF0 \<le> a \<and> a \<le> 0xF4 then
        (case bs of b # cs \<Rightarrow>
            if \<not> utf8_second4 a b then (False, 1)
            else (case cs of c # ds \<Rightarrow>
                if \<not> utf8_cont c then (False, 2)
                else (case ds of d # _ \<Rightarrow> if utf8_cont d then (True, 4) else (False, 3) | [] \<Rightarrow> (False, 3))
              | [] \<Rightarrow> (False, 2))
          | [] \<Rightarrow> (False, 1))
      else (False, 1))"

declare utf8_next.simps [simp del]

fun utf8_valid :: "bytes \<Rightarrow> bool" where
  "utf8_valid [] = True"
| "utf8_valid (a # bs) = (case utf8_next a bs of (ok, n) \<Rightarrow> ok \<and> utf8_valid (drop (n - 1) bs))"

text \<open>\<open>String::from_utf8_lossy\<close>: each ill-formed part becomes U+FFFD.\<close>

fun from_utf8_lossy :: "bytes \<Rightarrow> bytes" where
  "from_utf8_lossy [] = []"
| "from_utf8_lossy (a # bs) =
     (case utf8_next a bs of (ok, n) \<Rightarrow>
        (if ok then take n (a # bs) else [0xEF, 0xBF, 0xBD]) @ from_utf8_lossy (drop (n - 1) bs))"

definition from_utf8 :: "bytes \<Rightarrow> bytes option" where
  "from_utf8 bs = (if utf8_valid bs then Some bs else None)"

lemma byte_high_not_ascii: "(0x80::byte) \<le> b \<Longrightarrow> c \<le> 0x7F \<Longrightarrow> b \<noteq> c"
  by (auto simp: word_le_nat_alt)

lemma utf8_tail_not_ascii:
  assumes "c \<le> 0x7F"
  shows "utf8_cont b \<Longrightarrow> b \<noteq> c" and "utf8_second3 a b \<Longrightarrow> b \<noteq> c" and "utf8_second4 a b \<Longrightarrow> b \<noteq> c"
  using assms
  by (auto simp: utf8_cont_def utf8_second3_def utf8_second4_def word_le_nat_alt split: if_splits)

text \<open>A character is one ASCII byte, or several bytes none of which is ASCII.\<close>

lemma utf8_next_char:
  assumes "utf8_next a bs = (True, n)"
  shows "(n = 1 \<and> a \<le> 0x7F) \<or> (a > 0x7F \<and> 1 < n \<and> n \<le> Suc (length bs)
    \<and> (\<forall>b \<in> set (take (n - 1) bs). \<forall>c \<le> 0x7F. b \<noteq> c))"
  using assms utf8_tail_not_ascii
  by (auto simp: utf8_next.simps not_le split: if_splits list.splits)

lemma utf8_next_char_high:
  assumes "utf8_next a bs = (True, n)" and "n \<noteq> 1"
  shows "a > 0x7F" and "n \<le> Suc (length bs)" and "b \<in> set (take (n - 1) bs) \<Longrightarrow> c \<le> 0x7F \<Longrightarrow> b \<noteq> c"
  using utf8_next_char[OF assms(1)] assms(2) by auto

text \<open>What a character is does not depend on the bytes after it.\<close>

lemma utf8_next_prefix:
  assumes "utf8_next a bs = (True, n)"
  shows "utf8_next a (take (n - 1) bs @ cs) = (True, n)"
  using assms by (auto simp: utf8_next.simps split: if_splits list.splits)

lemma takeWhile_append_all: "(\<And>x. x \<in> set xs \<Longrightarrow> P x) \<Longrightarrow> takeWhile P (xs @ ys) = xs @ takeWhile P ys"
  by (induction xs) auto

text \<open>Cutting a valid string before an ASCII character leaves a valid string.\<close>

lemma utf8_valid_takeWhile:
  assumes c: "c \<le> 0x7F"
  shows "utf8_valid bs \<Longrightarrow> utf8_valid (takeWhile (\<lambda>b. b \<noteq> c) bs)"
proof (induction bs rule: utf8_valid.induct)
  case 1
  show ?case by simp
next
  case (2 a bs)
  obtain n where n: "utf8_next a bs = (True, n)" and rest: "utf8_valid (drop (n - 1) bs)"
    using "2.prems" by (auto split: prod.splits)
  have IH: "utf8_valid (takeWhile (\<lambda>b. b \<noteq> c) (drop (n - 1) bs))"
    using "2.IH"[OF n[symmetric]] rest by simp
  show ?case
  proof (cases "n = 1")
    case True
    moreover from this have "a \<le> 0x7F" using utf8_next_char[OF n] by auto
    ultimately show ?thesis using IH by (simp add: utf8_next.simps)
  next
    case False
    note high = utf8_next_char_high[OF n False]
    have "takeWhile (\<lambda>b. b \<noteq> c) (take (n - 1) bs @ drop (n - 1) bs)
        = take (n - 1) bs @ takeWhile (\<lambda>b. b \<noteq> c) (drop (n - 1) bs)"
      using high(3) c by (intro takeWhile_append_all) auto
    then have cut: "takeWhile (\<lambda>b. b \<noteq> c) bs = take (n - 1) bs @ takeWhile (\<lambda>b. b \<noteq> c) (drop (n - 1) bs)"
      by simp
    have "length (take (n - 1) bs) = n - 1" using high(2) by simp
    moreover have "a \<noteq> c" using high(1) c by auto
    ultimately show ?thesis
      using IH by (simp add: cut utf8_next_prefix[OF n, simplified])
  qed
qed

text \<open>A valid string is its own lossy decoding.\<close>

lemma from_utf8_lossy_valid: "utf8_valid bs \<Longrightarrow> from_utf8_lossy bs = bs"
proof (induction bs rule: from_utf8_lossy.induct)
  case 1
  show ?case by simp
next
  case (2 a bs)
  obtain n where n: "utf8_next a bs = (True, n)" and rest: "utf8_valid (drop (n - 1) bs)"
    using "2.prems" by (auto split: prod.splits)
  have "n \<noteq> 0" using utf8_next_char[OF n] by auto
  then have "take n (a # bs) @ drop (n - 1) bs = a # bs" by (cases n) auto
  then show ?case using "2.IH"[OF n[symmetric]] rest n by simp
qed

lemma utf8_valid_ascii: "(\<And>b. b \<in> set bs \<Longrightarrow> b \<le> 0x7F) \<Longrightarrow> utf8_valid bs"
  by (induction bs) (auto simp: utf8_next.simps)

section \<open>Decimal numerals\<close>

text \<open>The \<open>Display\<close> of an unsigned integer.\<close>

fun dec_nat :: "nat \<Rightarrow> bytes" where
  "dec_nat n = (if n < 10 then [of_nat (48 + n)] else dec_nat (n div 10) @ [of_nat (48 + n mod 10)])"

declare dec_nat.simps [simp del]

lemma dec_nat_digits: "b \<in> set (dec_nat n) \<Longrightarrow> 48 \<le> b \<and> b \<le> 57"
proof (induction n rule: dec_nat.induct)
  case (1 n)
  have digit: "(48::byte) \<le> of_nat (48 + d) \<and> of_nat (48 + d) \<le> (57::byte)" if "d < 10" for d
    using that by (simp add: word_le_nat_alt unat_of_nat del: of_nat_add)
  show ?case
  proof (cases "n < 10")
    case True
    with 1 digit[of n] show ?thesis by (simp add: dec_nat.simps[of n])
  next
    case False
    with 1 digit[of "n mod 10"] show ?thesis by (auto simp: dec_nat.simps[of n])
  qed
qed

end
