(* ===== verification/Sqlite_Bus.thy ===== *)
theory Sqlite_Bus
  imports Timed_Map Utf8
begin

text \<open>
  \<open>src/core/sqlite_bus.rs\<close>: the persistent tier, one SQLite database file per key namespace. The
  SQLite library (crate \<open>rusqlite\<close>) and the file system are not code of the repository: they are
  the parameter \<open>eng\<close>, a record of the calls the source makes, over an abstract disk. What the
  program relies on is the named hypothesis \<open>sqlite_laws\<close>: the documented behaviour of the SQL
  statements used, on the database files the program can name without leaving its directory.
  \<open>mem_sqlite\<close> is a concrete engine that satisfies it. The map from namespaces to connections is
  behind a \<open>Mutex\<close>: a panic while it is held poisons it, and every later \<open>lock().unwrap()\<close>
  panics too.
\<close>

section \<open>The engine and the state\<close>

text \<open>
  A connection is named by the path it was opened on. \<open>sq_open\<close> is \<open>Connection::open\<close>,
  \<open>sq_init\<close> the \<open>execute_batch\<close> of the pragmas and \<open>CREATE TABLE IF NOT EXISTS\<close>; both report
  success. \<open>sq_select\<close> is the prepared \<open>SELECT value ... WHERE key = ?1\<close> with all errors and the
  missing row folded into \<open>None\<close> (the source ends it in \<open>.ok()\<close>); \<open>sq_replace\<close> and \<open>sq_delete\<close>
  are \<open>execute\<close> with the result ignored; \<open>sq_rows\<close> is \<open>SELECT key, value ... ORDER BY key\<close>.
\<close>

record 'd sqlite =
  sq_open :: "bytes \<Rightarrow> 'd \<Rightarrow> bool \<times> 'd"
  sq_init :: "bytes \<Rightarrow> 'd \<Rightarrow> bool \<times> 'd"
  sq_select :: "bytes \<Rightarrow> bytes \<Rightarrow> 'd \<Rightarrow> bytes option"
  sq_replace :: "bytes \<Rightarrow> bytes \<Rightarrow> bytes \<Rightarrow> 'd \<Rightarrow> 'd"
  sq_delete :: "bytes \<Rightarrow> bytes \<Rightarrow> 'd \<Rightarrow> 'd"
  sq_rows :: "bytes \<Rightarrow> 'd \<Rightarrow> (bytes \<times> bytes) list"
  fs_create_dir_all :: "bytes \<Rightarrow> 'd \<Rightarrow> bool \<times> 'd"
  fs_read_dir :: "bytes \<Rightarrow> 'd \<Rightarrow> bytes list option"
  fs_metadata_len :: "bytes \<Rightarrow> 'd \<Rightarrow> u64 option"
  fs_exists :: "bytes \<Rightarrow> 'd \<Rightarrow> bool"
  fs_copy :: "bytes \<Rightarrow> bytes \<Rightarrow> 'd \<Rightarrow> u64 option \<times> 'd"

text \<open>
  The \<open>HashMap\<close> of open connections, namespace to path. Its iteration order is not specified; the
  only iteration is the prefix scan, which sorts what it collects.
\<close>

record 'd sqlite_bus =
  sb_directory :: bytes
  sb_databases :: "(bytes \<times> bytes) list"
  sb_poisoned :: bool
  sb_disk :: 'd

definition hash_insert :: "'k \<Rightarrow> 'v \<Rightarrow> ('k \<times> 'v) list \<Rightarrow> ('k \<times> 'v) list" where
  "hash_insert k v m = (k, v) # filter (\<lambda>p. fst p \<noteq> k) m"

lemma map_of_hash_insert [simp]: "map_of (hash_insert k v m) = (map_of m)(k \<mapsto> v)"
  using map_of_filter_fst[of "\<lambda>x. x \<noteq> k" m] by (auto simp: hash_insert_def fun_eq_iff)

lemma distinct_hash_insert: "distinct (map fst m) \<Longrightarrow> distinct (map fst (hash_insert k v m))"
  by (auto simp: hash_insert_def distinct_map_filter)

section \<open>Paths and namespaces\<close>

text \<open>\<open>Path::join\<close>: an absolute argument replaces the base.\<close>

definition path_base :: "bytes \<Rightarrow> bytes" where
  "path_base base = (if base = [] \<or> last base = 47 then base else base @ [47])"

definition path_join :: "bytes \<Rightarrow> bytes \<Rightarrow> bytes" where
  "path_join base p = (if take 1 p = [47] then p else path_base base @ p)"

text \<open>
  \<open>Path::extension\<close> and \<open>Path::file_stem\<close> of a file name: what follows and precedes the last
  dot, where a dot at the start of the name does not count.
\<close>

definition file_extension :: "bytes \<Rightarrow> bytes option" where
  "file_extension name =
     (let after = takeWhile (\<lambda>b. b \<noteq> 46) (rev name)
      in if length after + 1 < length name \<and> name \<noteq> str ''..'' then Some (rev after) else None)"

definition file_stem :: "bytes \<Rightarrow> bytes" where
  "file_stem name =
     (case file_extension name of
        None \<Rightarrow> name
      | Some ext \<Rightarrow> take (length name - Suc (length ext)) name)"

definition parse_namespace :: "bytes \<Rightarrow> bytes" where
  "parse_namespace key =
     (let key_str = (case from_utf8 key of Some s \<Rightarrow> s | None \<Rightarrow> str ''_default'')
      in if 58 \<in> set key_str then takeWhile (\<lambda>b. b \<noteq> 58) key_str else str ''_default'')"

definition db_path :: "bytes \<Rightarrow> bytes \<Rightarrow> bytes" where
  "db_path dir namespace = path_join dir (namespace @ str ''.db'')"

definition instance_dir :: "bytes \<Rightarrow> bytes \<Rightarrow> nat \<Rightarrow> bytes" where
  "instance_dir base_dir inst slot = path_join base_dir (inst @ str ''_'' @ dec_nat slot)"

section \<open>Operations\<close>

text \<open>Opening every \<open>.db\<close> file of the directory at start-up.\<close>

definition open_entry :: "'d sqlite \<Rightarrow> bytes \<Rightarrow> bytes \<Rightarrow> (bytes \<times> bytes) list \<times> 'd \<Rightarrow> (bytes \<times> bytes) list \<times> 'd" where
  "open_entry eng dir name st =
     (case st of (databases, d) \<Rightarrow>
        if file_extension name = Some (str ''db'') then
          (let path = path_join dir name;
               namespace = (case from_utf8 (file_stem name) of Some s \<Rightarrow> s | None \<Rightarrow> str ''_default'')
           in case sq_open eng path d of
                (False, d) \<Rightarrow> (databases, d)
              | (True, d) \<Rightarrow>
                  (hash_insert namespace path databases, snd (sq_init eng path d)))
        else (databases, d))"

definition create_sqlite_bus :: "'d sqlite \<Rightarrow> bytes \<Rightarrow> bytes \<Rightarrow> nat \<Rightarrow> 'd \<Rightarrow> 'd sqlite_bus outcome" where
  "create_sqlite_bus eng base_dir inst slot d =
     (let directory = instance_dir base_dir inst slot
      in case fs_create_dir_all eng directory d of
           (False, d) \<Rightarrow> Panicked
         | (True, d) \<Rightarrow>
             (case (case fs_read_dir eng directory d of
                      None \<Rightarrow> ([], d)
                    | Some entries \<Rightarrow> fold (open_entry eng directory) entries ([], d)) of
                (databases, d) \<Rightarrow>
                  Ret \<lparr>sb_directory = directory, sb_databases = databases,
                       sb_poisoned = False, sb_disk = d\<rparr>))"

text \<open>\<open>databases.lock().unwrap()\<close>.\<close>

definition sqlite_lock :: "('d sqlite_bus, unit) op" where
  "sqlite_lock = (\<lambda>s. if sb_poisoned s then (Panicked, s) else (Ret (), s))"

text \<open>A panic while the guard is alive.\<close>

definition sqlite_panic_locked :: "('d sqlite_bus, 'a) op" where
  "sqlite_panic_locked = (\<lambda>s. (Panicked, s\<lparr>sb_poisoned := True\<rparr>))"

definition sqlite_on_disk :: "('d \<Rightarrow> 'a \<times> 'd) \<Rightarrow> ('d sqlite_bus, 'a) op" where
  "sqlite_on_disk f = (\<lambda>s. case f (sb_disk s) of (r, d) \<Rightarrow> (Ret r, s\<lparr>sb_disk := d\<rparr>))"

definition sqlite_connection :: "bytes \<Rightarrow> ('d sqlite_bus, bytes option) op" where
  "sqlite_connection namespace = op_get (\<lambda>s. map_of (sb_databases s) namespace)"

definition sqlite_read_connection :: "bytes \<Rightarrow> ('d sqlite_bus, bool) op" where
  "sqlite_read_connection namespace =
     op_bind sqlite_lock (\<lambda>_.
     op_bind (sqlite_connection namespace) (\<lambda>c. op_ret (c \<noteq> None)))"

definition sqlite_write_connection :: "'d sqlite \<Rightarrow> bytes \<Rightarrow> ('d sqlite_bus, unit) op" where
  "sqlite_write_connection eng namespace =
     op_bind sqlite_lock (\<lambda>_.
     op_bind (sqlite_connection namespace) (\<lambda>c.
     if c \<noteq> None then op_ret ()
     else
       op_bind (op_get (\<lambda>s. db_path (sb_directory s) namespace)) (\<lambda>path.
       op_bind (sqlite_on_disk (sq_open eng path)) (\<lambda>opened.
       if \<not> opened then sqlite_panic_locked
       else
         op_bind (sqlite_on_disk (sq_init eng path)) (\<lambda>initialised.
         if \<not> initialised then sqlite_panic_locked
         else op_modify (\<lambda>s. s\<lparr>sb_databases := hash_insert namespace path (sb_databases s)\<rparr>))))))"

definition sqlite_read_value :: "'d sqlite \<Rightarrow> bytes \<Rightarrow> ('d sqlite_bus, bytes option) op" where
  "sqlite_read_value eng key =
     (let namespace = parse_namespace key
      in op_bind (sqlite_read_connection namespace) (\<lambda>found.
         if \<not> found then op_ret None
         else
           op_bind sqlite_lock (\<lambda>_.
           op_bind (sqlite_connection namespace) (\<lambda>c.
           case c of
             None \<Rightarrow> op_ret None
           | Some path \<Rightarrow> op_get (\<lambda>s. sq_select eng path key (sb_disk s))))))"

definition sqlite_write_value :: "'d sqlite \<Rightarrow> bytes \<Rightarrow> bytes \<Rightarrow> ('d sqlite_bus, unit) op" where
  "sqlite_write_value eng key value =
     (let namespace = parse_namespace key
      in op_bind (sqlite_write_connection eng namespace) (\<lambda>_.
         op_bind sqlite_lock (\<lambda>_.
         op_bind (sqlite_connection namespace) (\<lambda>c.
         case c of
           None \<Rightarrow> op_ret ()
         | Some path \<Rightarrow> op_modify (\<lambda>s. s\<lparr>sb_disk := sq_replace eng path key value (sb_disk s)\<rparr>)))))"

definition sqlite_delete_value :: "'d sqlite \<Rightarrow> bytes \<Rightarrow> ('d sqlite_bus, unit) op" where
  "sqlite_delete_value eng key =
     (let namespace = parse_namespace key
      in op_bind (sqlite_read_connection namespace) (\<lambda>found.
         if \<not> found then op_ret ()
         else
           op_bind sqlite_lock (\<lambda>_.
           op_bind (sqlite_connection namespace) (\<lambda>c.
           case c of
             None \<Rightarrow> op_ret ()
           | Some path \<Rightarrow> op_modify (\<lambda>s. s\<lparr>sb_disk := sq_delete eng path key (sb_disk s)\<rparr>)))))"

definition sqlite_delete_value_if_match :: "'d sqlite \<Rightarrow> bytes \<Rightarrow> bytes \<Rightarrow> ('d sqlite_bus, bool) op" where
  "sqlite_delete_value_if_match eng key expected =
     (let namespace = parse_namespace key
      in op_bind (sqlite_read_connection namespace) (\<lambda>found.
         if \<not> found then op_ret False
         else
           op_bind sqlite_lock (\<lambda>_.
           op_bind (sqlite_connection namespace) (\<lambda>c.
           case c of
             None \<Rightarrow> op_ret False
           | Some path \<Rightarrow>
               op_bind (op_get (\<lambda>s. sq_select eng path key (sb_disk s))) (\<lambda>current.
               if current = Some expected then
                 op_bind (op_modify (\<lambda>s. s\<lparr>sb_disk := sq_delete eng path key (sb_disk s)\<rparr>)) (\<lambda>_.
                 op_ret True)
               else op_ret False)))))"

definition sqlite_write_ttl :: "bytes \<Rightarrow> duration \<Rightarrow> ('d sqlite_bus, unit) op" where
  "sqlite_write_ttl _ _ = op_ret ()"

definition sqlite_write_value_with_ttl :: "'d sqlite \<Rightarrow> bytes \<Rightarrow> bytes \<Rightarrow> duration \<Rightarrow> ('d sqlite_bus, unit) op" where
  "sqlite_write_value_with_ttl eng key value _ = sqlite_write_value eng key value"

definition sqlite_read_ttl_remaining :: "bytes \<Rightarrow> ('d sqlite_bus, duration option) op" where
  "sqlite_read_ttl_remaining _ = op_ret None"

definition sqlite_find_by_prefix :: "'d sqlite \<Rightarrow> bytes \<Rightarrow> ('d sqlite_bus, (bytes \<times> bytes) list) op" where
  "sqlite_find_by_prefix eng pre =
     op_bind sqlite_lock (\<lambda>_.
     op_get (\<lambda>s. sort_key fst
       (concat (map (\<lambda>(_, path). filter (\<lambda>row. prefix pre (fst row)) (sq_rows eng path (sb_disk s)))
                    (sb_databases s)))))"

definition sqlite_data_bus :: "'d sqlite \<Rightarrow> 'd sqlite_bus data_bus" where
  "sqlite_data_bus eng = \<lparr>
     bus_read_value = sqlite_read_value eng,
     bus_write_value = sqlite_write_value eng,
     bus_delete_value = sqlite_delete_value eng,
     bus_delete_value_if_match = sqlite_delete_value_if_match eng,
     bus_write_ttl = sqlite_write_ttl,
     bus_write_value_with_ttl = sqlite_write_value_with_ttl eng,
     bus_read_ttl_remaining = sqlite_read_ttl_remaining,
     bus_find_by_prefix = sqlite_find_by_prefix eng\<rparr>"

text \<open>\<open>find_instance_slots\<close>: the slots of an instance, by their directories' names.\<close>

fun parse_digits :: "nat \<Rightarrow> bytes \<Rightarrow> nat option" where
  "parse_digits acc [] = Some acc"
| "parse_digits acc (b # bs) =
     (if 48 \<le> b \<and> b \<le> 57 then parse_digits (acc * 10 + (unat b - 48)) bs else None)"

text \<open>\<open>str::parse\<close> of an unsigned integer below \<open>limit\<close>: an optional plus sign, then digits.\<close>

definition parse_unsigned :: "nat \<Rightarrow> bytes \<Rightarrow> nat option" where
  "parse_unsigned limit bs =
     (let digits = (if take 1 bs = [43] then drop 1 bs else bs)
      in if digits = [] then None
         else Option.bind (parse_digits 0 digits) (\<lambda>n. if n < limit then Some n else None))"

definition strip_prefix :: "bytes \<Rightarrow> bytes \<Rightarrow> bytes option" where
  "strip_prefix pre s = (if prefix pre s then Some (drop (length pre) s) else None)"

definition read_directory_size :: "'d sqlite \<Rightarrow> bytes \<Rightarrow> 'd \<Rightarrow> u64" where
  "read_directory_size eng path d =
     (case fs_read_dir eng path d of
        None \<Rightarrow> 0
      | Some entries \<Rightarrow> sum_list (List.map_filter (\<lambda>entry. fs_metadata_len eng (path_join path entry) d) entries))"

definition find_instance_slots :: "'d sqlite \<Rightarrow> bytes \<Rightarrow> bytes \<Rightarrow> 'd \<Rightarrow> (nat \<times> u64) list" where
  "find_instance_slots eng base_dir inst d =
     (case fs_read_dir eng base_dir d of
        None \<Rightarrow> []
      | Some entries \<Rightarrow>
          sort_key fst
            (List.map_filter
              (\<lambda>entry.
                Option.bind (strip_prefix (inst @ str ''_'') (from_utf8_lossy entry)) (\<lambda>slot_str.
                map_option (\<lambda>slot. (slot, read_directory_size eng (path_join base_dir entry) d))
                  (parse_unsigned (2 ^ 32) slot_str)))
              entries))"

text \<open>\<open>create_clone\<close>: the error texts stand for the messages, with the slot or path they name.\<close>

datatype clone_error = Slot_Exists nat | Source_Missing nat | Cannot_Create bytes

definition clone_entry :: "'d sqlite \<Rightarrow> bytes \<Rightarrow> bytes \<Rightarrow> bytes \<Rightarrow> u64 \<times> 'd \<Rightarrow> u64 \<times> 'd" where
  "clone_entry eng source target name st =
     (case st of (bytes_copied, d) \<Rightarrow>
        if file_extension name = Some (str ''db'') then
          (case fs_copy eng (path_join source name) (path_join target name) d of
             (Some n, d) \<Rightarrow> (bytes_copied + n, d)
           | (None, d) \<Rightarrow> (bytes_copied, d))
        else (bytes_copied, d))"

definition create_clone :: "'d sqlite \<Rightarrow> bytes \<Rightarrow> bytes \<Rightarrow> nat \<Rightarrow> nat \<Rightarrow> 'd \<Rightarrow> (clone_error + u64) \<times> 'd" where
  "create_clone eng base_dir inst source_slot target_slot d =
     (let source = instance_dir base_dir inst source_slot;
          target = instance_dir base_dir inst target_slot
      in if fs_exists eng target d then (Inl (Slot_Exists target_slot), d)
         else if \<not> fs_exists eng source d then (Inl (Source_Missing source_slot), d)
         else case fs_create_dir_all eng target d of
           (False, d) \<Rightarrow> (Inl (Cannot_Create target), d)
         | (True, d) \<Rightarrow>
             (case fs_read_dir eng source d of
                None \<Rightarrow> (Inr 0, d)
              | Some entries \<Rightarrow>
                  (case fold (clone_entry eng source target) entries (0, d) of
                     (bytes_copied, d) \<Rightarrow> (Inr bytes_copied, d))))"

section \<open>What the program relies on\<close>

text \<open>
  A plain namespace names a file of the directory: it has no path separator and no NUL, and with
  the suffixes that SQLite appends it stays a legal file name.
\<close>

definition plain_namespace :: "bytes \<Rightarrow> bool" where
  "plain_namespace ns \<longleftrightarrow> utf8_valid ns \<and> 47 \<notin> set ns \<and> 0 \<notin> set ns \<and> length ns \<le> 248"

definition storable_key :: "bytes \<Rightarrow> bool" where
  "storable_key key \<longleftrightarrow> plain_namespace (parse_namespace key)"

text \<open>The database files in a directory.\<close>

definition db_listing :: "'d sqlite \<Rightarrow> bytes \<Rightarrow> 'd \<Rightarrow> bytes set" where
  "db_listing eng dir d =
     (case fs_read_dir eng dir d of None \<Rightarrow> {} | Some names \<Rightarrow> {n \<in> set names. suffix (str ''.db'') n})"

definition sqlite_file_laws :: "'d sqlite \<Rightarrow> bytes \<Rightarrow> bytes \<Rightarrow> 'd \<Rightarrow> bool" where
  "sqlite_file_laws eng dir ns d \<longleftrightarrow>
     (let p = db_path dir ns in
        fst (sq_open eng p d) \<and> fst (sq_init eng p d)
      \<and> sorted_wrt (<) (map fst (sq_rows eng p d))
      \<and> (\<forall>k v. (k, v) \<in> set (sq_rows eng p d) \<longleftrightarrow> sq_select eng p k d = Some v)
      \<and> (ns @ str ''.db'' \<notin> db_listing eng dir d \<longrightarrow> (\<forall>k. sq_select eng p k d = None))
      \<and> db_listing eng dir (snd (sq_open eng p d)) = insert (ns @ str ''.db'') (db_listing eng dir d)
      \<and> db_listing eng dir (snd (sq_init eng p d)) = db_listing eng dir d
      \<and> (\<forall>k v. db_listing eng dir (sq_replace eng p k v d) = db_listing eng dir d)
      \<and> (\<forall>k. db_listing eng dir (sq_delete eng p k d) = db_listing eng dir d)
      \<and> (\<forall>ns'. plain_namespace ns' \<longrightarrow> (\<forall>k'. let q = db_path dir ns' in
            sq_select eng q k' (snd (sq_open eng p d)) = sq_select eng q k' d
          \<and> sq_select eng q k' (snd (sq_init eng p d)) = sq_select eng q k' d
          \<and> (ns @ str ''.db'' \<in> db_listing eng dir d \<longrightarrow>
                (\<forall>k v. sq_select eng q k' (sq_replace eng p k v d) =
                  (if ns' = ns \<and> k' = k then Some v else sq_select eng q k' d)))
          \<and> (\<forall>k. sq_select eng q k' (sq_delete eng p k d) =
                (if ns' = ns \<and> k' = k then None else sq_select eng q k' d)))))"

definition sqlite_laws :: "'d sqlite \<Rightarrow> bytes \<Rightarrow> bool" where
  "sqlite_laws eng dir \<longleftrightarrow> (\<forall>ns d. plain_namespace ns \<longrightarrow> sqlite_file_laws eng dir ns d)"

lemma sqlite_lawsD:
  assumes "sqlite_laws eng dir" and "plain_namespace ns"
  shows "fst (sq_open eng (db_path dir ns) d)" and "fst (sq_init eng (db_path dir ns) d)"
    and "sorted_wrt (<) (map fst (sq_rows eng (db_path dir ns) d))"
    and "(k, v) \<in> set (sq_rows eng (db_path dir ns) d) \<longleftrightarrow> sq_select eng (db_path dir ns) k d = Some v"
    and "ns @ str ''.db'' \<notin> db_listing eng dir d \<Longrightarrow> sq_select eng (db_path dir ns) k d = None"
    and "db_listing eng dir (snd (sq_open eng (db_path dir ns) d)) = insert (ns @ str ''.db'') (db_listing eng dir d)"
    and "db_listing eng dir (snd (sq_init eng (db_path dir ns) d)) = db_listing eng dir d"
    and "db_listing eng dir (sq_replace eng (db_path dir ns) k v d) = db_listing eng dir d"
    and "db_listing eng dir (sq_delete eng (db_path dir ns) k d) = db_listing eng dir d"
  using assms by (simp_all add: sqlite_laws_def sqlite_file_laws_def Let_def)

lemma sqlite_laws_select:
  assumes "sqlite_laws eng dir" and "plain_namespace ns" and "plain_namespace ns'"
  shows "sq_select eng (db_path dir ns') k' (snd (sq_open eng (db_path dir ns) d)) = sq_select eng (db_path dir ns') k' d"
    and "sq_select eng (db_path dir ns') k' (snd (sq_init eng (db_path dir ns) d)) = sq_select eng (db_path dir ns') k' d"
    and "ns @ str ''.db'' \<in> db_listing eng dir d \<Longrightarrow>
      sq_select eng (db_path dir ns') k' (sq_replace eng (db_path dir ns) k v d) =
      (if ns' = ns \<and> k' = k then Some v else sq_select eng (db_path dir ns') k' d)"
    and "sq_select eng (db_path dir ns') k' (sq_delete eng (db_path dir ns) k d) =
      (if ns' = ns \<and> k' = k then None else sq_select eng (db_path dir ns') k' d)"
  using assms by (simp_all add: sqlite_laws_def sqlite_file_laws_def Let_def)

lemma utf8_default: "utf8_valid (str ''_default'')"
  by (rule utf8_valid_ascii) (auto simp: str_def)

lemma parse_namespace_valid: "utf8_valid (parse_namespace key)"
  by (auto simp: parse_namespace_def from_utf8_def Let_def utf8_default split: option.split
      intro!: utf8_valid_takeWhile simp del: str_simps)

text \<open>Every short key of printable ASCII without a slash can be stored.\<close>

lemma ascii_storable:
  assumes "\<And>b. b \<in> set k \<Longrightarrow> 0 < b \<and> b \<le> 0x7F \<and> b \<noteq> 47" and "length k \<le> 248"
  shows "storable_key k"
proof -
  have "from_utf8 k = Some k"
    using assms(1) by (simp add: from_utf8_def utf8_valid_ascii)
  then have "parse_namespace k = takeWhile (\<lambda>b. b \<noteq> 58) k \<or> parse_namespace k = str ''_default''"
    by (auto simp: parse_namespace_def)
  then have "set (parse_namespace k) \<subseteq> set k \<union> set (str ''_default'')" "length (parse_namespace k) \<le> 248"
    using assms(2) length_takeWhile_le[of "\<lambda>b. b \<noteq> 58" k] by (auto dest: set_takeWhileD)
  moreover have "47 \<notin> set k \<union> set (str ''_default'')" "0 \<notin> set k \<union> set (str ''_default'')"
    using assms(1)[of 47] assms(1)[of 0] by auto
  ultimately have "47 \<notin> set (parse_namespace k)" "0 \<notin> set (parse_namespace k)" by blast+
  then show ?thesis
    using \<open>length (parse_namespace k) \<le> 248\<close> by (simp add: storable_key_def plain_namespace_def parse_namespace_valid)
qed

section \<open>A concrete engine\<close>

text \<open>
  A disk in memory: the tables by path. It shows that \<open>sqlite_laws\<close> can hold and serves the
  witnesses; nothing else depends on it.
\<close>

type_synonym mem_disk = "(bytes \<times> (bytes, bytes) btree) list"

definition bt_of :: "('k::linorder \<times> 'v) list \<Rightarrow> ('k, 'v) btree" where
  "bt_of m = foldr (\<lambda>p. bt_insert (fst p) (snd p)) m []"

definition mem_table :: "bytes \<Rightarrow> mem_disk \<Rightarrow> (bytes, bytes) btree" where
  "mem_table p d = (case map_of d p of None \<Rightarrow> [] | Some t \<Rightarrow> bt_of t)"

definition mem_sqlite :: "mem_disk sqlite" where
  "mem_sqlite = \<lparr>
     sq_open = (\<lambda>p d. (True, hash_insert p (mem_table p d) d)),
     sq_init = (\<lambda>p d. (True, d)),
     sq_select = (\<lambda>p k d. bt_get (mem_table p d) k),
     sq_replace = (\<lambda>p k v d. if map_of d p = None then d else hash_insert p (bt_insert k v (mem_table p d)) d),
     sq_delete = (\<lambda>p k d. if map_of d p = None then d else hash_insert p (bt_remove k (mem_table p d)) d),
     sq_rows = mem_table,
     fs_create_dir_all = (\<lambda>p d. (True, d)),
     fs_read_dir = (\<lambda>p d. Some (filter (\<lambda>n. 47 \<notin> set n)
       (List.map_filter (\<lambda>f. strip_prefix (path_base p) (fst f)) d))),
     fs_metadata_len = (\<lambda>p d. map_option (\<lambda>t. of_nat (length t)) (map_of d p)),
     fs_exists = (\<lambda>p d. \<exists>f \<in> set d. fst f = p \<or> prefix (path_base p) (fst f)),
     fs_copy = (\<lambda>p q d. case map_of d p of
        None \<Rightarrow> (None, d) | Some t \<Rightarrow> (Some (of_nat (length t)), hash_insert q t d))\<rparr>"

lemma bt_wf_bt_of: "bt_wf (bt_of m)"
  by (induction m) (auto simp: bt_of_def bt_wf_insert)

lemma bt_get_bt_of: "bt_get (bt_of m) = map_of m"
  by (induction m) (auto simp: bt_of_def bt_get_insert)

lemma mem_table_insert:
  "bt_get (mem_table q (hash_insert p t d)) = (if q = p then map_of t else bt_get (mem_table q d))"
  by (simp add: mem_table_def bt_get_bt_of)

lemma plain_path:
  assumes "47 \<notin> set n"
  shows "path_join dir n = path_base dir @ n"
proof -
  have "take 1 n \<noteq> [47]" using assms by (cases n) auto
  then show ?thesis by (simp add: path_join_def)
qed

lemma plain_file: "plain_namespace ns \<Longrightarrow> 47 \<notin> set (ns @ str ''.db'')"
  by (auto simp: plain_namespace_def)

lemma db_path_inject:
  "plain_namespace ns \<Longrightarrow> plain_namespace ns' \<Longrightarrow> db_path dir ns = db_path dir ns' \<longleftrightarrow> ns = ns'"
  using plain_path[OF plain_file, of ns dir] plain_path[OF plain_file, of ns' dir]
  by (simp add: db_path_def del: str_simps)

lemma suffix_append_self [simp]: "suffix x (y @ x)"
  by (simp add: suffix_def)

lemma mem_listing:
  "n \<in> db_listing mem_sqlite dir d \<longleftrightarrow>
    path_base dir @ n \<in> fst ` set d \<and> 47 \<notin> set n \<and> suffix (str ''.db'') n"
proof -
  have "n \<in> set (List.map_filter (\<lambda>f. strip_prefix pre (fst f)) d) \<longleftrightarrow> pre @ n \<in> fst ` set d" for pre
    by (induction d) (auto simp: List.map_filter_def strip_prefix_def prefix_def split: if_splits)
  then show ?thesis by (auto simp: db_listing_def mem_sqlite_def simp del: str_simps)
qed

lemma mem_listing_plain:
  "plain_namespace ns \<Longrightarrow> ns @ str ''.db'' \<in> db_listing mem_sqlite dir d \<longleftrightarrow> map_of d (db_path dir ns) \<noteq> None"
  using plain_path[OF plain_file, of ns dir] plain_file[of ns]
  by (simp add: mem_listing db_path_def map_of_eq_None_iff del: str_simps)

lemma mem_listing_insert:
  assumes "plain_namespace ns"
  shows "db_listing mem_sqlite dir (hash_insert (db_path dir ns) t d) =
    insert (ns @ str ''.db'') (db_listing mem_sqlite dir d)"
proof -
  have "path_base dir @ n = db_path dir ns \<longleftrightarrow> n = ns @ str ''.db''" for n
    using plain_path[OF plain_file[OF assms], of dir] by (simp add: db_path_def del: str_simps)
  moreover have "fst ` set (hash_insert p t d) = insert p (fst ` set d)" for p
    by (auto simp: hash_insert_def)
  ultimately show ?thesis
    using plain_file[OF assms] by (auto simp: mem_listing simp del: str_simps)
qed

lemma mem_sqlite_laws: "sqlite_laws mem_sqlite dir"
  unfolding sqlite_laws_def
proof (intro allI impI)
  fix ns d
  assume ns: "plain_namespace ns"
  let ?p = "db_path dir ns"
  have absent: "bt_get (mem_table ?p d) k = None" if "ns @ str ''.db'' \<notin> db_listing mem_sqlite dir d" for k
    using that by (simp add: mem_listing_plain[OF ns] mem_table_def del: str_simps)
  have present: "insert (ns @ str ''.db'') (db_listing mem_sqlite dir d) = db_listing mem_sqlite dir d"
    if "map_of d ?p = Some t" for t
    using that mem_listing_plain[OF ns, of dir d] by (auto simp del: str_simps)
  have wf: "bt_wf (mem_table q d)" for q
    by (simp add: mem_table_def bt_wf_bt_of split: option.split)
  have eng: "sq_open mem_sqlite p d = (True, hash_insert p (mem_table p d) d)"
    "sq_init mem_sqlite p d = (True, d)" "sq_select mem_sqlite p k d = bt_get (mem_table p d) k"
    "sq_replace mem_sqlite p k v d = (if map_of d p = None then d else hash_insert p (bt_insert k v (mem_table p d)) d)"
    "sq_delete mem_sqlite p k d = (if map_of d p = None then d else hash_insert p (bt_remove k (mem_table p d)) d)"
    "sq_rows mem_sqlite p d = mem_table p d" for p k v d
    by (simp_all add: mem_sqlite_def)
  show "sqlite_file_laws mem_sqlite dir ns d"
    unfolding sqlite_file_laws_def Let_def eng fst_conv snd_conv
  proof (intro conjI allI impI)
    show "sorted_wrt (<) (map fst (mem_table ?p d))"
      using wf by (simp add: bt_wf_def)
    show "(k, v) \<in> set (mem_table ?p d) \<longleftrightarrow> bt_get (mem_table ?p d) k = Some v" for k v
      by (simp add: bt_get_in_set[OF wf])
    show "db_listing mem_sqlite dir (hash_insert ?p (mem_table ?p d) d) = insert (ns @ str ''.db'') (db_listing mem_sqlite dir d)"
      by (rule mem_listing_insert[OF ns])
    show "db_listing mem_sqlite dir (if map_of d ?p = None then d else hash_insert ?p (bt_insert k v (mem_table ?p d)) d)
        = db_listing mem_sqlite dir d" for k v
      using present by (auto simp: mem_listing_insert[OF ns] simp del: str_simps)
    show "db_listing mem_sqlite dir (if map_of d ?p = None then d else hash_insert ?p (bt_remove k (mem_table ?p d)) d)
        = db_listing mem_sqlite dir d" for k
      using present by (auto simp: mem_listing_insert[OF ns] simp del: str_simps)
  next
    fix ns' k' k v
    assume ns': "plain_namespace ns'"
    note path_eq = db_path_inject[OF ns' ns, of dir]
    show "bt_get (mem_table (db_path dir ns') (hash_insert ?p (mem_table ?p d) d)) k' = bt_get (mem_table (db_path dir ns') d) k'"
      by (simp add: mem_table_insert)
    show "bt_get (mem_table (db_path dir ns') (if map_of d ?p = None then d
          else hash_insert ?p (bt_insert k v (mem_table ?p d)) d)) k' =
        (if ns' = ns \<and> k' = k then Some v else bt_get (mem_table (db_path dir ns') d) k')"
      if "ns @ str ''.db'' \<in> db_listing mem_sqlite dir d"
      using that by (auto simp: mem_listing_plain[OF ns] mem_table_insert path_eq bt_get_insert simp del: str_simps)
    show "bt_get (mem_table (db_path dir ns') (if map_of d ?p = None then d
          else hash_insert ?p (bt_remove k (mem_table ?p d)) d)) k' =
        (if ns' = ns \<and> k' = k then None else bt_get (mem_table (db_path dir ns') d) k')"
      by (auto simp: mem_table_insert path_eq bt_get_remove) (simp add: mem_table_def)
  qed (use absent in \<open>auto simp del: str_simps\<close>)
qed

end
