(* ===== verification/Auth.thy ===== *)
theory Auth
  imports Sqlite_Bus
begin

text \<open>
  \<open>src/modules/auth.rs\<close>: the authorized-keys file, base64, and the table of network sessions. The
  cryptography (\<open>ed25519_dalek\<close>, \<open>x25519_dalek\<close>, \<open>chacha20poly1305\<close>) is not code of the
  repository: it is the parameter record \<open>crypto\<close>. Random bytes are arguments.
\<close>

record ('vk, 'sk, 'c) crypto =
  ed_from_bytes :: "bytes \<Rightarrow> 'vk option"
  ed_verify :: "'vk \<Rightarrow> bytes \<Rightarrow> bytes \<Rightarrow> bool"
  x_public :: "'sk \<Rightarrow> bytes"
  x_diffie_hellman :: "'sk \<Rightarrow> bytes \<Rightarrow> bytes"
  cc_new :: "bytes \<Rightarrow> 'c"
  cc_encrypt :: "'c \<Rightarrow> bytes \<Rightarrow> bytes \<Rightarrow> bytes option"
  cc_decrypt :: "'c \<Rightarrow> bytes \<Rightarrow> bytes \<Rightarrow> bytes option"

text \<open>The documented behaviour of the AEAD that the program relies on.\<close>

definition aead_laws :: "('vk, 'sk, 'c) crypto \<Rightarrow> bool" where
  "aead_laws cr \<longleftrightarrow> (\<forall>c n p x. cc_encrypt cr c n p = Some x \<longrightarrow>
     cc_decrypt cr c n x = Some p \<and> length x = length p + 16)"

section \<open>Base64\<close>

definition base64_table :: bytes where
  "base64_table = str ''ABCDEFGHIJKLMNOPQRSTUVWXYZabcdefghijklmnopqrstuvwxyz0123456789+/''"

text \<open>The loop of \<open>decode_base64\<close>; the count of pending bits stays below 14.\<close>

fun decode_base64_loop :: "u32 \<Rightarrow> nat \<Rightarrow> bytes \<Rightarrow> bytes \<Rightarrow> bytes option" where
  "decode_base64_loop buffer bits out [] = Some out"
| "decode_base64_loop buffer bits out (b # bs) =
     (if b = 61 then Some out
      else case position (\<lambda>c. c = b) base64_table of
        None \<Rightarrow> None
      | Some value \<Rightarrow>
          (let buffer = or (push_bit 6 buffer) (of_nat value);
               bits = bits + 6
           in if 8 \<le> bits
              then (let bits = bits - 8
                    in decode_base64_loop (and buffer (push_bit bits 1 - 1)) bits
                         (out @ [ucast (drop_bit bits buffer)]) bs)
              else decode_base64_loop buffer bits out bs))"

definition decode_base64 :: "bytes \<Rightarrow> bytes option" where
  "decode_base64 input = decode_base64_loop 0 0 [] input"

section \<open>The authorized-keys file\<close>

text \<open>\<open>str::lines\<close>: split at newlines, a carriage return before the newline dropped.\<close>

function str_lines :: "bytes \<Rightarrow> bytes list" where
  "str_lines bs =
     (if bs = [] then []
      else case dropWhile (\<lambda>b. b \<noteq> 10) bs of
        [] \<Rightarrow> [bs]
      | _ # rest \<Rightarrow>
          (let line = takeWhile (\<lambda>b. b \<noteq> 10) bs
           in (if line \<noteq> [] \<and> last line = 13 then butlast line else line) # str_lines rest))"
  by pat_completeness auto
termination
proof (relation "measure length", simp)
  fix bs rest :: bytes and b line
  assume "dropWhile (\<lambda>b. b \<noteq> 10) bs = b # rest"
  then have "length (b # rest) \<le> length bs" by (metis length_dropWhile_le)
  then show "(rest, bs) \<in> measure length" by simp
qed

declare str_lines.simps [simp del]

text \<open>The length of the whitespace character (Unicode \<open>White_Space\<close>) at the front, if there is one.\<close>

fun whitespace_length :: "bytes \<Rightarrow> nat" where
  "whitespace_length bs =
     (case bs of
        [] \<Rightarrow> 0
      | b # _ \<Rightarrow>
          if b = 32 \<or> 9 \<le> b \<and> b \<le> 13 then 1
          else if take 2 bs \<in> {[0xC2, 0x85], [0xC2, 0xA0]} then 2
          else if take 3 bs \<in> {[0xE1, 0x9A, 0x80], [0xE2, 0x80, 0xA8], [0xE2, 0x80, 0xA9],
              [0xE2, 0x80, 0xAF], [0xE2, 0x81, 0x9F], [0xE3, 0x80, 0x80]} then 3
          else if take 2 bs = [0xE2, 0x80] \<and> 3 \<le> length bs \<and> 0x80 \<le> bs ! 2 \<and> bs ! 2 \<le> 0x8A then 3
          else 0)"

declare whitespace_length.simps [simp del]

text \<open>\<open>str::split_whitespace\<close>; \<open>word\<close> is the part of the current word already seen.\<close>

function split_words :: "bytes \<Rightarrow> bytes \<Rightarrow> bytes list" where
  "split_words word bs =
     (if bs = [] then (if word = [] then [] else [word])
      else if whitespace_length bs = 0 then split_words (word @ [hd bs]) (tl bs)
      else (if word = [] then [] else [word]) @ split_words [] (drop (whitespace_length bs) bs))"
  by pat_completeness auto
termination
  by (relation "measure (\<lambda>(word, bs). length bs)") auto

declare split_words.simps [simp del]

definition split_whitespace :: "bytes \<Rightarrow> bytes list" where
  "split_whitespace bs = split_words [] bs"

record 'vk authorized_key =
  ak_label :: bytes
  ak_verifying_key :: 'vk

definition parse_authorized_line :: "('vk, 'sk, 'c) crypto \<Rightarrow> bytes \<Rightarrow> 'vk authorized_key option" where
  "parse_authorized_line cr line =
     (case split_whitespace line of
        label # key_b64 # _ \<Rightarrow>
          Option.bind (decode_base64 key_b64) (\<lambda>key_bytes.
          if length key_bytes \<noteq> 32 then None
          else map_option (\<lambda>vk. \<lparr>ak_label = label, ak_verifying_key = vk\<rparr>) (ed_from_bytes cr key_bytes))
      | _ \<Rightarrow> None)"

text \<open>\<open>line.trim().is_empty()\<close>: a line of whitespace only has no words.\<close>

definition parse_authorized_keys :: "('vk, 'sk, 'c) crypto \<Rightarrow> bytes \<Rightarrow> 'vk authorized_key list" where
  "parse_authorized_keys cr content =
     List.map_filter (parse_authorized_line cr)
       (filter (\<lambda>line. take 1 line \<noteq> [35] \<and> split_whitespace line \<noteq> []) (str_lines content))"

section \<open>Handshake\<close>

record 'sk handshake_state =
  hs_nonce :: bytes
  hs_server_secret :: 'sk
  hs_server_public :: bytes

definition create_handshake :: "('vk, 'sk, 'c) crypto \<Rightarrow> bytes \<Rightarrow> 'sk \<Rightarrow> 'sk handshake_state" where
  "create_handshake cr random secret =
     \<lparr>hs_nonce = random, hs_server_secret = secret, hs_server_public = x_public cr secret\<rparr>"

definition check_auth_proof :: "('vk, 'sk, 'c) crypto \<Rightarrow> bytes \<Rightarrow> bytes \<Rightarrow> 'vk \<Rightarrow> bool" where
  "check_auth_proof cr nonce signature_bytes vk = ed_verify cr vk nonce signature_bytes"

definition derive_session_key :: "('vk, 'sk, 'c) crypto \<Rightarrow> 'sk \<Rightarrow> bytes \<Rightarrow> bytes" where
  "derive_session_key cr server_secret client_public = x_diffie_hellman cr server_secret client_public"

section \<open>Sessions\<close>

record 'c session =
  se_label :: bytes
  se_cipher :: 'c
  se_nonce_counter :: u64

record 'c session_table =
  st_sessions :: "(bytes \<times> 'c session) list"
  st_max_sessions :: nat

definition create_session_table :: "nat \<Rightarrow> 'c session_table" where
  "create_session_table max_sessions = \<lparr>st_sessions = [], st_max_sessions = max_sessions\<rparr>"

definition create_session ::
  "('vk, 'sk, 'c) crypto \<Rightarrow> bytes \<Rightarrow> bytes \<Rightarrow> bytes \<Rightarrow> 'c session_table \<Rightarrow> bool \<times> 'c session_table" where
  "create_session cr session_id label key t =
     (if st_max_sessions t \<le> length (st_sessions t) then (False, t)
      else (True, t\<lparr>st_sessions := hash_insert session_id
              \<lparr>se_label = label, se_cipher = cc_new cr key, se_nonce_counter = 0\<rparr> (st_sessions t)\<rparr>))"

definition response_nonce :: "u64 \<Rightarrow> bytes" where
  "response_nonce counter = [0, 0, 0, 0] @ u64_to_be_bytes counter"

definition encrypt_response ::
  "('vk, 'sk, 'c) crypto \<Rightarrow> bytes \<Rightarrow> bytes \<Rightarrow> 'c session_table \<Rightarrow> bytes option \<times> 'c session_table" where
  "encrypt_response cr session_id plaintext t =
     (case map_of (st_sessions t) session_id of
        None \<Rightarrow> (None, t)
      | Some session \<Rightarrow>
          (let session = session\<lparr>se_nonce_counter := se_nonce_counter session + 1\<rparr>
           in (cc_encrypt cr (se_cipher session) (response_nonce (se_nonce_counter session)) plaintext,
               t\<lparr>st_sessions := hash_insert session_id session (st_sessions t)\<rparr>)))"

definition decrypt_request ::
  "('vk, 'sk, 'c) crypto \<Rightarrow> bytes \<Rightarrow> bytes \<Rightarrow> bytes \<Rightarrow> 'c session_table \<Rightarrow> bytes option" where
  "decrypt_request cr session_id ciphertext nonce t =
     Option.bind (map_of (st_sessions t) session_id) (\<lambda>session.
       cc_decrypt cr (se_cipher session) nonce ciphertext)"

definition remove_session :: "bytes \<Rightarrow> 'c session_table \<Rightarrow> 'c session_table" where
  "remove_session session_id t =
     t\<lparr>st_sessions := filter (\<lambda>p. fst p \<noteq> session_id) (st_sessions t)\<rparr>"

definition read_session_count :: "'c session_table \<Rightarrow> nat" where
  "read_session_count t = length (st_sessions t)"

section \<open>Base64 decodes what is encoded\<close>

text \<open>The reference encoder (RFC 4648): three bytes make four characters, with padding at the end.\<close>

definition b64_char :: "byte \<Rightarrow> byte" where
  "b64_char v = base64_table ! unat v"

fun base64_encode :: "bytes \<Rightarrow> bytes" where
  "base64_encode (a # b # c # bs) =
     [b64_char (drop_bit 2 a),
      b64_char (or (push_bit 4 (take_bit 2 a)) (drop_bit 4 b)),
      b64_char (or (push_bit 2 (take_bit 4 b)) (drop_bit 6 c)),
      b64_char (take_bit 6 c)] @ base64_encode bs"
| "base64_encode [a, b] =
     [b64_char (drop_bit 2 a), b64_char (or (push_bit 4 (take_bit 2 a)) (drop_bit 4 b)),
      b64_char (push_bit 2 (take_bit 4 b)), 61]"
| "base64_encode [a] = [b64_char (drop_bit 2 a), b64_char (push_bit 4 (take_bit 2 a)), 61, 61]"
| "base64_encode [] = []"

lemma position_nth: "distinct xs \<Longrightarrow> i < length xs \<Longrightarrow> position (\<lambda>c. c = xs ! i) xs = Some i"
proof (induction xs arbitrary: i)
  case (Cons x xs)
  then show ?case by (cases i) auto
qed simp

lemma base64_table_props: "distinct base64_table" "length base64_table = 64" "61 \<notin> set base64_table"
  by (simp_all add: base64_table_def)

lemma b64_char_position:
  assumes "v < 64"
  shows "b64_char v \<noteq> 61" and "position (\<lambda>c. c = b64_char v) base64_table = Some (unat v)"
proof -
  have i: "unat v < length base64_table"
    using assms by (simp add: base64_table_props word_less_nat_alt)
  then show "b64_char v \<noteq> 61"
    using base64_table_props(3) nth_mem[OF i] by (metis b64_char_def)
  show "position (\<lambda>c. c = b64_char v) base64_table = Some (unat v)"
    unfolding b64_char_def by (rule position_nth[OF base64_table_props(1) i])
qed

lemma b64_step:
  assumes "v < 64"
  shows "decode_base64_loop buffer bits out (b64_char v # bs) =
    (let buffer = or (push_bit 6 buffer) (ucast v); bits = bits + 6
     in if 8 \<le> bits
        then decode_base64_loop (take_bit (bits - 8) buffer) (bits - 8)
               (out @ [ucast (drop_bit (bits - 8) buffer)]) bs
        else decode_base64_loop buffer bits out bs)"
proof -
  have "push_bit n 1 - 1 = (mask n :: u32)" for n
    by (simp add: mask_eq_exp_minus_1 push_bit_eq_mult)
  then show ?thesis
    using b64_char_position[OF assms] by (simp add: Let_def of_nat_unat take_bit_eq_mask)
qed

lemma sextets:
  fixes a b c :: byte
  shows "drop_bit 2 a < 64" "or (push_bit 4 (take_bit 2 a)) (drop_bit 4 b) < 64"
    "or (push_bit 2 (take_bit 4 b)) (drop_bit 6 c) < 64" "take_bit 6 c < 64"
    "push_bit 2 (take_bit 4 b) < 64" "push_bit 4 (take_bit 2 a) < 64"
proof -
  have small: "x < 64" if "\<And>n. bit x n \<Longrightarrow> n < 6" for x :: byte
  proof -
    have "x = take_bit 6 x" by (rule bit_eqI) (auto simp: bit_take_bit_iff that)
    then have "unat x < 2 ^ 6" by (metis take_bit_nat_less_exp unsigned_take_bit_eq)
    then show ?thesis by (simp add: word_less_nat_alt)
  qed
  show "drop_bit 2 a < 64" "or (push_bit 4 (take_bit 2 a)) (drop_bit 4 b) < 64"
    "or (push_bit 2 (take_bit 4 b)) (drop_bit 6 c) < 64" "take_bit 6 c < 64"
    "push_bit 2 (take_bit 4 b) < 64" "push_bit 4 (take_bit 2 a) < 64"
    by (rule small; auto simp: bit_simps dest: bit_imp_le_length)+
qed

lemma unsextets:
  fixes a b c :: byte
  defines "v1 \<equiv> ucast (drop_bit 2 a) :: u32"
    and "v2 \<equiv> ucast (or (push_bit 4 (take_bit 2 a)) (drop_bit 4 b)) :: u32"
    and "v3 \<equiv> ucast (or (push_bit 2 (take_bit 4 b)) (drop_bit 6 c)) :: u32"
  shows "ucast (drop_bit 4 (or (push_bit 6 v1) v2)) = a"
    and "ucast (drop_bit 2 (or (push_bit 6 (take_bit 4 (or (push_bit 6 v1) v2))) v3)) = b"
    and "ucast (or (push_bit 6 (take_bit 2 (or (push_bit 6 (take_bit 4 (or (push_bit 6 v1) v2))) v3)))
      (ucast (take_bit 6 c) :: u32)) = c"
proof -
  have eq: "x = y" if "\<And>n. n \<in> {0, 1, 2, 3, 4, 5, 6, 7} \<Longrightarrow> bit x n = bit y n" for x y :: byte
    by (rule bit_word_eqI, rule that) (simp, arith)
  have high: "8 \<le> n \<Longrightarrow> \<not> bit (x::byte) n" for x n
    by (auto dest: bit_imp_le_length)
  show "ucast (drop_bit 4 (or (push_bit 6 v1) v2)) = a"
    by (rule eq, elim insertE emptyE) (simp_all add: v1_def v2_def bit_simps high)
  show "ucast (drop_bit 2 (or (push_bit 6 (take_bit 4 (or (push_bit 6 v1) v2))) v3)) = b"
    by (rule eq, elim insertE emptyE) (simp_all add: v1_def v2_def v3_def bit_simps high)
  show "ucast (or (push_bit 6 (take_bit 2 (or (push_bit 6 (take_bit 4 (or (push_bit 6 v1) v2))) v3)))
      (ucast (take_bit 6 c) :: u32)) = c"
    by (rule eq, elim insertE emptyE) (simp_all add: v1_def v2_def v3_def bit_simps high)
qed

lemma b64_char_pad: "decode_base64_loop buffer bits out (61 # bs) = Some out"
  by simp

declare decode_base64_loop.simps(2) [simp del]

lemma decode_base64_loop_encode:
  "decode_base64_loop 0 0 out (base64_encode bs) = Some (out @ bs)"
proof (induction bs arbitrary: out rule: base64_encode.induct)
  case (1 a b c bs)
  then show ?case
    using unsextets(1)[of a b] unsextets(2,3)[of a b c] by (simp add: b64_step sextets Let_def)
next
  case (2 a b)
  then show ?case
    using unsextets(1)[of a b] unsextets(2)[of a b 0] by (simp add: b64_step sextets b64_char_pad Let_def)
next
  case (3 a)
  then show ?case
    using unsextets(1)[of a 0] by (simp add: b64_step sextets b64_char_pad Let_def)
qed simp

text \<open>C27: Decoding base64 inverts encoding it, for every byte string: the decoder drops no bit and
  adds none, with one or two padding characters or with none.\<close>

theorem decode_base64_encode: "decode_base64 (base64_encode bs) = Some bs"
  by (simp add: decode_base64_def decode_base64_loop_encode)

section \<open>The session table\<close>

definition session_table_ok :: "'c session_table \<Rightarrow> bool" where
  "session_table_ok t \<longleftrightarrow> distinct (map fst (st_sessions t)) \<and> length (st_sessions t) \<le> st_max_sessions t"

datatype session_call = Open_Session bytes bytes bytes | Encrypt_Response bytes bytes | Close_Session bytes

fun session_step :: "('vk, 'sk, 'c) crypto \<Rightarrow> session_call \<Rightarrow> 'c session_table \<Rightarrow> 'c session_table" where
  "session_step cr (Open_Session session_id label key) t = snd (create_session cr session_id label key t)"
| "session_step cr (Encrypt_Response session_id plaintext) t = snd (encrypt_response cr session_id plaintext t)"
| "session_step cr (Close_Session session_id) t = remove_session session_id t"

lemma length_hash_insert:
  "distinct (map fst m) \<Longrightarrow> length (hash_insert k v m) = (if k \<in> fst ` set m then length m else Suc (length m))"
  by (induction m) (auto simp: hash_insert_def filter_empty_conv image_iff intro!: arg_cong[where f = length] filter_True)

lemma session_step_ok: "session_table_ok t \<Longrightarrow> session_table_ok (session_step cr call t)"
proof (cases call)
  case (Open_Session sid label key)
  assume "session_table_ok t"
  with Open_Session show ?thesis
    by (auto simp: session_table_ok_def create_session_def distinct_hash_insert length_hash_insert)
next
  case (Encrypt_Response sid p)
  assume "session_table_ok t"
  with Encrypt_Response show ?thesis
    by (auto simp: session_table_ok_def encrypt_response_def Let_def distinct_hash_insert length_hash_insert
        dest: map_of_SomeD split: option.split intro: rev_image_eqI)
next
  case (Close_Session sid)
  assume "session_table_ok t"
  with Close_Session show ?thesis
    by (auto simp: session_table_ok_def remove_session_def distinct_map_filter intro: le_trans[OF length_filter_le])
qed

text \<open>C26: However sessions are opened, used and closed, the table holds at most the configured number
  of sessions, one for each identifier.\<close>

theorem session_count_bounded:
  "read_session_count (fold (session_step cr) calls (create_session_table n)) \<le> n"
proof -
  have "session_table_ok (fold (session_step cr) calls t) \<and>
      st_max_sessions (fold (session_step cr) calls t) = st_max_sessions t" if "session_table_ok t" for t
    using that
  proof (induction calls arbitrary: t)
    case (Cons call calls)
    have "st_max_sessions (session_step cr call t) = st_max_sessions t"
      by (cases call) (simp_all add: create_session_def encrypt_response_def remove_session_def Let_def split: option.split)
    with Cons.IH[OF session_step_ok[OF Cons.prems, of cr call]] show ?case by simp
  qed simp
  from this[of "create_session_table n"] show ?thesis
    by (auto simp: session_table_ok_def create_session_table_def read_session_count_def)
qed

section \<open>Nonces\<close>

text \<open>The results of encrypting a list of responses for one session, one after the other.\<close>

fun encrypt_responses ::
  "('vk, 'sk, 'c) crypto \<Rightarrow> bytes \<Rightarrow> bytes list \<Rightarrow> 'c session_table \<Rightarrow> bytes option list \<times> 'c session_table" where
  "encrypt_responses cr session_id [] t = ([], t)"
| "encrypt_responses cr session_id (p # ps) t =
     (case encrypt_response cr session_id p t of
        (r, t) \<Rightarrow> case encrypt_responses cr session_id ps t of (rs, t) \<Rightarrow> (r # rs, t))"

definition nonces_after :: "u64 \<Rightarrow> nat \<Rightarrow> bytes list" where
  "nonces_after counter n = map (\<lambda>i. response_nonce (counter + of_nat (Suc i))) [0..<n]"

lemma nonces_after_Suc:
  "nonces_after counter (Suc n) = response_nonce (counter + 1) # nonces_after (counter + 1) n"
  by (simp add: nonces_after_def map_upt_Suc ac_simps del: upt_Suc)

lemma encrypt_responses_nonces:
  "map_of (st_sessions t) sid = Some s \<Longrightarrow>
    fst (encrypt_responses cr sid ps t) =
      map2 (cc_encrypt cr (se_cipher s)) (nonces_after (se_nonce_counter s) (length ps)) ps"
proof (induction ps arbitrary: t s)
  case Nil
  then show ?case by (simp add: nonces_after_def)
next
  case (Cons p ps)
  let ?s = "s\<lparr>se_nonce_counter := se_nonce_counter s + 1\<rparr>"
  let ?t = "t\<lparr>st_sessions := hash_insert sid ?s (st_sessions t)\<rparr>"
  have step: "encrypt_response cr sid p t =
      (cc_encrypt cr (se_cipher s) (response_nonce (se_nonce_counter s + 1)) p, ?t)"
    using Cons.prems by (simp add: encrypt_response_def)
  have "map_of (st_sessions ?t) sid = Some ?s" by simp
  from Cons.IH[OF this] show ?case
    by (cases "encrypt_responses cr sid ps ?t") (simp add: step nonces_after_Suc)
qed

lemma response_nonce_inject: "response_nonce a = response_nonce b \<longleftrightarrow> a = b"
  by (metis append_same_eq response_nonce_def same_append_eq u64_from_to)

lemma distinct_nonces_after:
  assumes "n < 2 ^ 64"
  shows "distinct (nonces_after counter n)"
proof -
  have "i = j" if "i < n" "j < n" "(of_nat i :: u64) = of_nat j" for i j
    using arg_cong[OF that(3), of unat] that(1,2) assms by (simp add: unat_of_nat)
  then show ?thesis
    by (auto simp: nonces_after_def distinct_map inj_on_def response_nonce_inject)
qed

text \<open>C25: The responses encrypted for a session, up to \<open>2 ^ 64 - 1\<close> of them, are encrypted under
  pairwise distinct nonces: the cipher never sees a nonce twice.\<close>

theorem response_nonces_unique:
  assumes "map_of (st_sessions t) session_id = Some s" and "length plaintexts < 2 ^ 64"
  shows "\<exists>nonces. distinct nonces \<and> length nonces = length plaintexts \<and>
    fst (encrypt_responses cr session_id plaintexts t) = map2 (cc_encrypt cr (se_cipher s)) nonces plaintexts"
  using encrypt_responses_nonces[OF assms(1)] distinct_nonces_after[OF assms(2)]
  by (intro exI[of _ "nonces_after (se_nonce_counter s) (length plaintexts)"]) (simp add: nonces_after_def)

text \<open>A concrete cipher, for the witnesses: it writes key and nonce in front of the text.\<close>

definition plain_crypto :: "(bytes, bytes, bytes) crypto" where
  "plain_crypto = \<lparr>ed_from_bytes = Some, ed_verify = (\<lambda>vk m sig. take 32 sig = vk),
     x_public = id, x_diffie_hellman = (\<lambda>a b. map2 xor a b),
     cc_new = id, cc_encrypt = (\<lambda>c n p. Some (p @ take 16 (n @ replicate 16 0))),
     cc_decrypt = (\<lambda>c n x. if drop (length x - 16) x = take 16 (n @ replicate 16 0)
        then Some (take (length x - 16) x) else None)\<rparr>"

lemma aead_laws_plain: "aead_laws plain_crypto"
  by (simp add: aead_laws_def plain_crypto_def) arith

definition sample_session :: "bytes session" where
  "sample_session = \<lparr>se_label = str ''alice'', se_cipher = [5], se_nonce_counter = 41\<rparr>"

definition sample_table :: "bytes session_table" where
  "sample_table = \<lparr>st_sessions = [(replicate 16 9, sample_session)], st_max_sessions = 4\<rparr>"

lemma response_nonces_unique_witness:
  "\<exists>nonces. distinct nonces \<and> length nonces = length [[7], [8, 9::byte]] \<and>
    fst (encrypt_responses plain_crypto (replicate 16 9) [[7], [8, 9]] sample_table)
    = map2 (cc_encrypt plain_crypto (se_cipher sample_session)) nonces [[7], [8, 9]]"
  by (rule response_nonces_unique) (simp_all add: sample_table_def)

end
