(* ===== verification/Codec.thy ===== *)
theory Codec
  imports Auth
begin

text \<open>
  \<open>src/modules/codec.rs\<close>: the datagrams. A local datagram is a request number, an opcode and a
  payload; a network datagram is a session number, a nonce and the encryption of such a datagram
  followed by noise, which the decoder cuts off by the lengths inside the payload. Also the
  \<open>check_ping\<close> of \<open>src/modules/health.rs\<close>.
\<close>

record request =
  rq_request_id :: u32
  rq_opcode :: byte
  rq_payload :: bytes
  rq_is_local :: bool

record response =
  rs_request_id :: u32
  rs_opcode :: byte
  rs_payload :: bytes

section \<open>Local datagrams\<close>

definition decode_local :: "bytes \<Rightarrow> request option" where
  "decode_local raw =
     (if length raw < 5 then None
      else let request_id = u32_from_be_bytes (take 4 raw); opcode = raw ! 4
           in if opcode = 0x00 \<or> opcode = 0xFF then None
              else Some \<lparr>rq_request_id = request_id, rq_opcode = opcode, rq_payload = drop 5 raw, rq_is_local = True\<rparr>)"

text \<open>\<open>decode_local_into\<close> fills a request that the worker keeps.\<close>

definition decode_local_into :: "bytes \<Rightarrow> request \<Rightarrow> bool \<times> request" where
  "decode_local_into raw request =
     (if length raw < 5 then (False, request)
      else let opcode = raw ! 4
           in if opcode = 0x00 \<or> opcode = 0xFF then (False, request)
              else (True, request\<lparr>rq_request_id := u32_from_be_bytes (take 4 raw), rq_opcode := opcode,
                     rq_payload := drop 5 raw, rq_is_local := True\<rparr>))"

definition encode_local :: "response \<Rightarrow> bytes" where
  "encode_local response =
     u32_to_be_bytes (rs_request_id response) @ [rs_opcode response] @ rs_payload response"

definition check_ping :: "request \<Rightarrow> response option" where
  "check_ping request =
     (if rq_opcode request \<noteq> 0x13 then None
      else Some \<lparr>rs_request_id = rq_request_id request, rs_opcode = 0x80, rs_payload = []\<rparr>)"

section \<open>Network datagrams\<close>

definition read_one_field_length :: "bytes \<Rightarrow> nat option" where
  "read_one_field_length bs =
     (if length bs < 4 then None else Some (4 + unat (u32_from_be_bytes (take 4 bs))))"

definition read_two_field_lengths :: "bytes \<Rightarrow> nat option" where
  "read_two_field_lengths bs = Option.bind (read_one_field_length bs) (\<lambda>first.
     if length bs < first + 4 then None
     else Some (first + 4 + unat (u32_from_be_bytes (take 4 (drop first bs)))))"

definition read_one_field_length_plus_u64 :: "bytes \<Rightarrow> nat option" where
  "read_one_field_length_plus_u64 bs = map_option (\<lambda>first. first + 8) (read_one_field_length bs)"

definition read_two_field_lengths_plus_u64 :: "bytes \<Rightarrow> nat option" where
  "read_two_field_lengths_plus_u64 bs = map_option (\<lambda>two_fields. two_fields + 8) (read_two_field_lengths bs)"

definition extract_real_payload :: "byte \<Rightarrow> bytes \<Rightarrow> bytes" where
  "extract_real_payload opcode after_opcode =
     (let consumed =
        (if opcode = 0x01 \<or> opcode = 0x03 then read_one_field_length after_opcode
         else if opcode = 0x02 then read_two_field_lengths_plus_u64 after_opcode
         else if opcode = 0x04 then read_two_field_lengths after_opcode
         else if opcode = 0x05 then read_one_field_length_plus_u64 after_opcode
         else if opcode = 0x06 then read_one_field_length after_opcode
         else if opcode = 0x13 then Some 0
         else if opcode = 0x10 then Some 64
         else if opcode = 0x11 then Some 64
         else None)
      in case consumed of
           Some n \<Rightarrow> if n \<le> length after_opcode then take n after_opcode else after_opcode
         | None \<Rightarrow> after_opcode)"

definition decode_network ::
  "('vk, 'sk, 'c) crypto \<Rightarrow> bytes \<Rightarrow> 'c session_table \<Rightarrow> (request \<times> bytes) option" where
  "decode_network cr raw session_table =
     (if length raw < 16 + 12 + 5 + 16 then None
      else let session_id = take 16 raw; nonce = take 12 (drop 16 raw); ciphertext = drop 28 raw
           in Option.bind (decrypt_request cr session_id ciphertext nonce session_table) (\<lambda>plaintext.
              if length plaintext < 5 then None
              else let request_id = u32_from_be_bytes (take 4 plaintext); opcode = plaintext ! 4
                   in if opcode = 0x00 \<or> opcode = 0xFF then None
                      else Some (\<lparr>rq_request_id = request_id, rq_opcode = opcode,
                              rq_payload = extract_real_payload opcode (drop 5 plaintext), rq_is_local = False\<rparr>,
                            session_id)))"

text \<open>
  \<open>encode_network\<close>: the random number, the random noise of a given length and the random nonce
  bytes are arguments.
\<close>

definition encode_network ::
  "('vk, 'sk, 'c) crypto \<Rightarrow> u32 \<Rightarrow> (nat \<Rightarrow> bytes) \<Rightarrow> bytes \<Rightarrow> response \<Rightarrow> bytes \<Rightarrow> 'c session_table \<Rightarrow>
   bytes option \<times> 'c session_table" where
  "encode_network cr random noise nonce_bytes response session_id session_table =
     (let noise_length = 64 + unat random mod 961;
          plaintext = u32_to_be_bytes (rs_request_id response) @ [rs_opcode response] @ rs_payload response @ noise noise_length
      in case encrypt_response cr session_id plaintext session_table of
           (None, t) \<Rightarrow> (None, t)
         | (Some encrypted, t) \<Rightarrow> (Some (session_id @ nonce_bytes @ encrypted), t))"

section \<open>What a client sends\<close>

text \<open>The calls of the wire protocol with their payloads, as the clients encode them.\<close>

definition field :: "bytes \<Rightarrow> bytes" where
  "field f = u32_to_be_bytes (len_u32 f) @ f"

datatype wire_call =
    Wire_Read bytes
  | Wire_Write bytes bytes u64
  | Wire_Delete bytes
  | Wire_Cas bytes bytes
  | Wire_Ttl bytes u64
  | Wire_Find bytes
  | Wire_Ping

fun wire_opcode :: "wire_call \<Rightarrow> byte" where
  "wire_opcode (Wire_Read _) = 0x01"
| "wire_opcode (Wire_Write _ _ _) = 0x02"
| "wire_opcode (Wire_Delete _) = 0x03"
| "wire_opcode (Wire_Cas _ _) = 0x04"
| "wire_opcode (Wire_Ttl _ _) = 0x05"
| "wire_opcode (Wire_Find _) = 0x06"
| "wire_opcode Wire_Ping = 0x13"

fun wire_payload :: "wire_call \<Rightarrow> bytes" where
  "wire_payload (Wire_Read k) = field k"
| "wire_payload (Wire_Write k v ms) = field k @ field v @ u64_to_be_bytes ms"
| "wire_payload (Wire_Delete k) = field k"
| "wire_payload (Wire_Cas k e) = field k @ field e"
| "wire_payload (Wire_Ttl k ms) = field k @ u64_to_be_bytes ms"
| "wire_payload (Wire_Find p) = field p"
| "wire_payload Wire_Ping = []"

fun wire_fields :: "wire_call \<Rightarrow> bytes list" where
  "wire_fields (Wire_Read k) = [k]"
| "wire_fields (Wire_Write k v ms) = [k, v]"
| "wire_fields (Wire_Delete k) = [k]"
| "wire_fields (Wire_Cas k e) = [k, e]"
| "wire_fields (Wire_Ttl k ms) = [k]"
| "wire_fields (Wire_Find p) = [p]"
| "wire_fields Wire_Ping = []"

definition wire_call_ok :: "wire_call \<Rightarrow> bool" where
  "wire_call_ok call \<longleftrightarrow> (\<forall>f \<in> set (wire_fields call). length f < 2 ^ 32)"

definition wire_datagram :: "u32 \<Rightarrow> wire_call \<Rightarrow> bytes" where
  "wire_datagram request_id call = u32_to_be_bytes request_id @ [wire_opcode call] @ wire_payload call"

text \<open>
  All requests of the protocol: the data calls and \<open>PING\<close>; SQL and the administration; the two messages
  of the handshake, of 64 bytes each. \<open>KEYS\<close> may be sent without its prefix.
\<close>

datatype protocol_call =
    Data wire_call
  | Proto_Query bytes
  | Proto_Status
  | Proto_Shutdown
  | Proto_Reload
  | Proto_Keys "bytes option"
  | Proto_Inspect bytes
  | Proto_Dump
  | Proto_Restore bytes bytes u64
  | Proto_Auth_Init bytes
  | Proto_Auth_Proof bytes

fun protocol_opcode :: "protocol_call \<Rightarrow> byte" where
  "protocol_opcode (Data call) = wire_opcode call"
| "protocol_opcode (Proto_Query _) = 0x07"
| "protocol_opcode (Proto_Auth_Init _) = 0x10"
| "protocol_opcode (Proto_Auth_Proof _) = 0x11"
| "protocol_opcode Proto_Status = 0x14"
| "protocol_opcode Proto_Shutdown = 0x15"
| "protocol_opcode Proto_Reload = 0x16"
| "protocol_opcode (Proto_Keys _) = 0x17"
| "protocol_opcode (Proto_Inspect _) = 0x18"
| "protocol_opcode Proto_Dump = 0x19"
| "protocol_opcode (Proto_Restore _ _ _) = 0x1A"

fun protocol_payload :: "protocol_call \<Rightarrow> bytes" where
  "protocol_payload (Data call) = wire_payload call"
| "protocol_payload (Proto_Query sql) = field sql"
| "protocol_payload (Proto_Auth_Init message) = message"
| "protocol_payload (Proto_Auth_Proof message) = message"
| "protocol_payload (Proto_Keys p) = (case p of None \<Rightarrow> [] | Some p \<Rightarrow> field p)"
| "protocol_payload (Proto_Inspect k) = field k"
| "protocol_payload (Proto_Restore k v ms) = field k @ field v @ u64_to_be_bytes ms"
| "protocol_payload _ = []"

fun protocol_ok :: "protocol_call \<Rightarrow> bool" where
  "protocol_ok (Data call) = wire_call_ok call"
| "protocol_ok (Proto_Query sql) = (length sql < 2 ^ 32)"
| "protocol_ok (Proto_Auth_Init message) = (length message = 64)"
| "protocol_ok (Proto_Auth_Proof message) = (length message = 64)"
| "protocol_ok (Proto_Keys p) = (case p of None \<Rightarrow> True | Some p \<Rightarrow> length p < 2 ^ 32)"
| "protocol_ok (Proto_Inspect k) = (length k < 2 ^ 32)"
| "protocol_ok (Proto_Restore k v ms) = (length k < 2 ^ 32 \<and> length v < 2 ^ 32)"
| "protocol_ok _ = True"

definition protocol_datagram :: "u32 \<Rightarrow> protocol_call \<Rightarrow> bytes" where
  "protocol_datagram request_id call = u32_to_be_bytes request_id @ [protocol_opcode call] @ protocol_payload call"

text \<open>The requests whose end the decoder of the network finds.\<close>

fun delimited :: "protocol_call \<Rightarrow> bool" where
  "delimited (Data _) = True"
| "delimited (Proto_Auth_Init _) = True"
| "delimited (Proto_Auth_Proof _) = True"
| "delimited _ = False"

lemma wire_opcode_range: "wire_opcode call \<noteq> 0x00 \<and> wire_opcode call \<noteq> 0xFF"
  by (cases call) auto

lemma length_field [simp]: "length (field f) = 4 + length f"
  by (simp add: field_def)

lemma take_field [simp]: "take 4 (field f) = u32_to_be_bytes (len_u32 f)" "drop 4 (field f) = f"
  by (simp_all add: field_def)

lemma read_one_field:
  "length f < 2 ^ 32 \<Longrightarrow> read_one_field_length (field f @ rest) = Some (4 + length f)"
  by (simp add: read_one_field_length_def unat_len_u32)

lemma read_two_fields:
  "length f < 2 ^ 32 \<Longrightarrow> length g < 2 ^ 32 \<Longrightarrow>
    read_two_field_lengths (field f @ field g @ rest) = Some (8 + length f + length g)"
  by (simp add: read_two_field_lengths_def read_one_field unat_len_u32)

text \<open>The noise after a well-formed payload is cut off, and nothing else.\<close>

lemma extract_real_payload_noise:
  assumes "wire_call_ok call"
  shows "extract_real_payload (wire_opcode call) (wire_payload call @ noise) = wire_payload call"
  using assms
  by (cases call) (simp_all add: extract_real_payload_def wire_call_ok_def read_one_field read_two_fields
      read_one_field_length_plus_u64_def read_two_field_lengths_plus_u64_def)

lemma extract_real_payload_protocol:
  assumes "protocol_ok call"
  shows "extract_real_payload (protocol_opcode call) (protocol_payload call @ noise) =
    protocol_payload call @ (if delimited call then [] else noise)"
  using assms extract_real_payload_noise by (cases call) (simp_all add: extract_real_payload_def)

lemma protocol_opcode_range: "protocol_opcode call \<noteq> 0x00 \<and> protocol_opcode call \<noteq> 0xFF"
  using wire_opcode_range by (cases call) auto

lemma datagram_parts:
  "length (u32_to_be_bytes i @ [x] @ p) = 5 + length p" "take 4 (u32_to_be_bytes i @ [x] @ p) = u32_to_be_bytes i"
  "(u32_to_be_bytes i @ [x] @ p) ! 4 = x" "drop 5 (u32_to_be_bytes i @ [x] @ p) = p"
  by (simp_all add: nth_append)

section \<open>Properties\<close>

text \<open>C17: The decoder that reuses the worker's request gives what the allocating decoder gives: nothing
  of the previous request remains in it, and a rejected datagram leaves it unchanged.\<close>

theorem decode_local_into_equiv:
  "decode_local_into raw request = (case decode_local raw of None \<Rightarrow> (False, request) | Some r \<Rightarrow> (True, r))"
  by (simp add: decode_local_into_def decode_local_def Let_def)

text \<open>A datagram that a client sends is decoded to the request number, the opcode and the payload
  that it was built from.\<close>

theorem decode_local_wire:
  "decode_local (wire_datagram request_id call) = Some \<lparr>rq_request_id = request_id, rq_opcode = wire_opcode call,
     rq_payload = wire_payload call, rq_is_local = True\<rparr>"
  using wire_opcode_range[of call] datagram_parts[of request_id "wire_opcode call" "wire_payload call"]
  by (simp add: decode_local_def wire_datagram_def)

text \<open>C16: What becomes of a client's request that arrives encrypted for a session with noise behind it, for
  every request of the protocol, if the AEAD decrypts what it has encrypted: the number, the opcode
  and the session are the client's. Of a data call, a \<open>PING\<close> and a message of the handshake the payload is
  the client's too, the noise is removed exactly. Of every other request the noise stays: SQL, the
  administration and \<open>RESTORE\<close> reach their handlers with it behind their fields.\<close>

theorem decode_network_wire:
  assumes aead: "aead_laws cr" and session: "map_of (st_sessions t) session_id = Some s"
    and call: "protocol_ok call" and "length session_id = 16" and "length nonce = 12"
    and enc: "cc_encrypt cr (se_cipher s) nonce (protocol_datagram request_id call @ noise) = Some ciphertext"
  shows "decode_network cr (session_id @ nonce @ ciphertext) t =
    Some (\<lparr>rq_request_id = request_id, rq_opcode = protocol_opcode call,
      rq_payload = protocol_payload call @ (if delimited call then [] else noise), rq_is_local = False\<rparr>, session_id)"
proof -
  have plain: "cc_decrypt cr (se_cipher s) nonce ciphertext = Some (protocol_datagram request_id call @ noise)"
    and len: "length ciphertext = length (protocol_datagram request_id call @ noise) + 16"
    using aead enc by (auto simp: aead_laws_def)
  have dg: "protocol_datagram request_id call @ noise =
      u32_to_be_bytes request_id @ [protocol_opcode call] @ (protocol_payload call @ noise)"
    by (simp add: protocol_datagram_def)
  show ?thesis
    unfolding decode_network_def decrypt_request_def
    using assms(4,5) session len plain protocol_opcode_range[of call] extract_real_payload_protocol[OF call]
    by (simp add: Let_def dg datagram_parts[simplified] nth_append)
qed

lemma decode_network_wire_witness:
  "decode_network plain_crypto (replicate 16 9 @ replicate 12 5 @ (protocol_datagram 7 (Proto_Restore [1] [2] 0) @ replicate 8 3)
      @ replicate 12 5 @ replicate 4 0) sample_table =
    Some (\<lparr>rq_request_id = 7, rq_opcode = protocol_opcode (Proto_Restore [1] [2] 0),
      rq_payload = protocol_payload (Proto_Restore [1] [2] 0) @ (if delimited (Proto_Restore [1] [2] 0) then [] else replicate 8 3),
      rq_is_local = False\<rparr>, replicate 16 9)"
  by (rule decode_network_wire[OF aead_laws_plain, where noise = "replicate 8 3" and s = sample_session])
    (simp_all add: plain_crypto_def sample_table_def)

text \<open>Of a response sent over the network, the nonce field of the datagram is random and the
  ciphertext is made under another nonce, the session's counter, which the datagram does not
  carry: the receiver has to keep the counter itself.\<close>

theorem encode_network_nonce:
  assumes "map_of (st_sessions t) session_id = Some s" and "length session_id = 16" and "length nonce_bytes = 12"
    and "fst (encode_network cr random noise nonce_bytes response session_id t) = Some datagram"
  shows "take 12 (drop 16 datagram) = nonce_bytes \<and>
    (\<exists>plaintext. take (5 + length (rs_payload response)) plaintext = encode_local response \<and>
      cc_encrypt cr (se_cipher s) (response_nonce (se_nonce_counter s + 1)) plaintext = Some (drop 28 datagram))"
proof -
  let ?p = "u32_to_be_bytes (rs_request_id response) @ [rs_opcode response] @ rs_payload response
    @ noise (64 + unat random mod 961)"
  obtain x where x: "cc_encrypt cr (se_cipher s) (response_nonce (se_nonce_counter s + 1)) ?p = Some x"
    and d: "datagram = session_id @ nonce_bytes @ x"
    using assms(1,4) by (auto simp: encode_network_def encrypt_response_def Let_def split: option.splits)
  have "take (5 + length (rs_payload response)) ?p = encode_local response"
    by (simp add: encode_local_def)
  with x d assms(2,3) show ?thesis by (intro conjI exI[of _ ?p]) simp_all
qed

definition sample_ok :: response where
  "sample_ok = \<lparr>rs_request_id = 1, rs_opcode = 0x80, rs_payload = []\<rparr>"

lemma encode_network_nonce_witness:
  "let datagram = replicate 16 9 @ replicate 12 3 @ encode_local sample_ok @ replicate 64 0 @ response_nonce 42 @ replicate 4 0
   in take 12 (drop 16 datagram) = replicate 12 3 \<and>
    (\<exists>plaintext. take (5 + length (rs_payload sample_ok)) plaintext = encode_local sample_ok \<and>
      cc_encrypt plain_crypto (se_cipher sample_session) (response_nonce (se_nonce_counter sample_session + 1)) plaintext
        = Some (drop 28 datagram))"
  unfolding Let_def
  by (rule encode_network_nonce[where session_id = "replicate 16 9" and random = 0 and noise = "\<lambda>n. replicate n 0"
        and t = sample_table])
    (simp_all add: encode_network_def encrypt_response_def plain_crypto_def response_nonce_def encode_local_def
      sample_table_def sample_session_def sample_ok_def)

end
