(* ===== verification/Tric_Api.thy ===== *)
theory Tric_Api
  imports Timed_Map
begin

text \<open>
  \<open>src/lib.rs\<close>: the public handle \<open>Tric\<close>, a store behind a lock. Every method takes the lock,
  reads the clock, expires what is due and then runs one operation of the store; the lock makes
  each method one atomic step. \<open>tr_clock\<close> holds the values that the calls of
  \<open>Instant::now()\<close> made through this handle will return, in order: a monotone clock. Also
  \<open>TricBus\<close> of \<open>src/core/data_bus.rs\<close>, the bus that is a \<open>Tric\<close>, and the interpretation of
  the bus contract on it.
\<close>

record tric =
  tr_store :: store
  tr_clock :: "nat \<Rightarrow> instant"

definition create_tric :: "(nat \<Rightarrow> instant) \<Rightarrow> tric" where
  "create_tric clock = \<lparr>tr_store = create_store, tr_clock = clock\<rparr>"

definition instant_now :: "(tric, instant) op" where
  "instant_now = (\<lambda>T. (Ret (tr_clock T 0), T\<lparr>tr_clock := (\<lambda>n. tr_clock T (Suc n))\<rparr>))"

definition on_store :: "(store, 'a) op \<Rightarrow> (tric, 'a) op" where
  "on_store = op_on tr_store (\<lambda>s T. T\<lparr>tr_store := s\<rparr>)"

text \<open>
  \<open>Instant + Duration\<close> panics on overflow. The instants of the Unix targets count seconds in an
  \<open>i64\<close>.
\<close>

definition instant_limit :: nat where
  "instant_limit = 2 ^ 63 * 1000000000"

definition instant_add :: "instant \<Rightarrow> duration \<Rightarrow> instant option" where
  "instant_add i d = (if i + d < instant_limit then Some (i + d) else None)"

text \<open>The prologue that all methods share: lock, read the clock, delete the expired entries.\<close>

definition tric_locked :: "(instant \<Rightarrow> (tric, 'a) op) \<Rightarrow> (tric, 'a) op" where
  "tric_locked body =
     op_bind instant_now (\<lambda>now.
     op_bind (on_store (store_delete_expired_entries now)) (\<lambda>_. body now))"

definition tric_read_value :: "bytes \<Rightarrow> (tric, bytes option) op" where
  "tric_read_value key = tric_locked (\<lambda>_. on_store (store_read_value key))"

definition tric_write_value :: "bytes \<Rightarrow> bytes \<Rightarrow> (tric, unit) op" where
  "tric_write_value key value = tric_locked (\<lambda>_. on_store (store_write_value key value))"

definition tric_delete_value :: "bytes \<Rightarrow> (tric, unit) op" where
  "tric_delete_value key = tric_locked (\<lambda>_. on_store (store_delete_value key))"

definition tric_delete_value_if_match :: "bytes \<Rightarrow> bytes \<Rightarrow> (tric, bool) op" where
  "tric_delete_value_if_match key expected =
     tric_locked (\<lambda>_. on_store (store_delete_value_if_match key expected))"

definition tric_write_ttl :: "bytes \<Rightarrow> duration \<Rightarrow> (tric, unit) op" where
  "tric_write_ttl key duration = tric_locked (\<lambda>now.
     op_bind (op_unwrap (instant_add now duration)) (\<lambda>instant.
     on_store (store_write_ttl key instant)))"

definition tric_write_value_with_ttl :: "bytes \<Rightarrow> bytes \<Rightarrow> duration \<Rightarrow> (tric, unit) op" where
  "tric_write_value_with_ttl key value duration = tric_locked (\<lambda>now.
     op_bind (op_unwrap (instant_add now duration)) (\<lambda>instant.
     on_store (store_write_value_with_ttl key value instant)))"

definition tric_read_ttl_remaining :: "bytes \<Rightarrow> (tric, duration option) op" where
  "tric_read_ttl_remaining key = tric_locked (\<lambda>now. on_store (store_read_ttl_remaining key now))"

definition tric_find_by_prefix :: "bytes \<Rightarrow> (tric, (bytes \<times> bytes) list) op" where
  "tric_find_by_prefix pre = tric_locked (\<lambda>_. on_store (store_find_by_prefix pre))"

definition tric_bus :: "tric data_bus" where
  "tric_bus = \<lparr>
     bus_read_value = tric_read_value,
     bus_write_value = tric_write_value,
     bus_delete_value = tric_delete_value,
     bus_delete_value_if_match = tric_delete_value_if_match,
     bus_write_ttl = tric_write_ttl,
     bus_write_value_with_ttl = tric_write_value_with_ttl,
     bus_read_ttl_remaining = tric_read_ttl_remaining,
     bus_find_by_prefix = tric_find_by_prefix\<rparr>"

section \<open>Invariant and view\<close>

text \<open>
  The clock is monotone and stays below \<open>2 ^ 62\<close> seconds, so that adding any duration that fits
  on the wire stays below the limit of \<open>Instant\<close>.
\<close>

definition clock_ok :: "(nat \<Rightarrow> instant) \<Rightarrow> bool" where
  "clock_ok c \<longleftrightarrow> (\<forall>n. c n \<le> c (Suc n)) \<and> (\<forall>n. c n < 2 ^ 62 * 1000000000)"

definition tric_inv :: "tric \<Rightarrow> bool" where
  "tric_inv T \<longleftrightarrow> store_inv (tr_store T) \<and> clock_ok (tr_clock T)"

definition tric_now :: "tric \<Rightarrow> instant" where
  "tric_now T = tr_clock T 0"

definition tric_view :: "tric \<Rightarrow> instant \<Rightarrow> bytes \<Rightarrow> bytes option" where
  "tric_view T = store_view (tr_store T)"

lemma create_tric_inv: "clock_ok c \<Longrightarrow> tric_inv (create_tric c)"
  by (simp add: tric_inv_def create_tric_def)

lemma create_tric_view [simp]: "tric_view (create_tric c) t k = None"
  by (simp add: tric_view_def create_tric_def store_view_def create_store_def)

lemma clock_ok_shift: "clock_ok c \<Longrightarrow> clock_ok (\<lambda>n. c (Suc n))"
  by (simp add: clock_ok_def)

lemma instant_add_wire: "clock_ok c \<Longrightarrow> wire_duration d \<Longrightarrow> instant_add (c 0) d = Some (c 0 + d)"
  unfolding clock_ok_def wire_duration_def instant_add_def instant_limit_def
  by (elim conjE allE[of _ 0]) simp

text \<open>The state after a method: one clock reading used, the store replaced.\<close>

definition tric_after :: "tric \<Rightarrow> store \<Rightarrow> tric" where
  "tric_after T s = \<lparr>tr_store = s, tr_clock = (\<lambda>n. tr_clock T (Suc n))\<rparr>"

abbreviation tric_purged :: "tric \<Rightarrow> store" where
  "tric_purged T \<equiv> store_purge (tric_now T) (tr_store T)"

text \<open>The rule for every method: the body runs on the purged store.\<close>

lemma tric_locked_eq:
  assumes "tric_inv T"
  shows "tric_locked body T = body (tric_now T) (tric_after T (tric_purged T))"
  using assms
  by (cases T) (simp add: tric_locked_def instant_now_def on_store_def tric_inv_def tric_now_def
      op_bind_def op_on_def store_expire tric_after_def)

lemma on_store_after:
  "on_store m (tric_after T s) = (case m s of (r, s') \<Rightarrow> (r, tric_after T s'))"
  by (simp add: on_store_def op_on_def tric_after_def split: prod.split)

lemma returns_tric_locked:
  assumes "tric_inv T"
    and "returns m (tric_purged T) (\<lambda>x s'. Q x (tric_after T s'))"
  shows "returns (tric_locked (\<lambda>_. on_store m)) T Q"
  using assms(2)
  by (auto simp: returns_def tric_locked_eq[OF assms(1)] on_store_after split: prod.splits)

lemma returns_tric_locked_until:
  assumes "tric_inv T" and "wire_duration d"
    and "returns (m (tric_now T + d)) (tric_purged T) (\<lambda>x s'. Q x (tric_after T s'))"
  shows "returns (tric_locked (\<lambda>now. op_bind (op_unwrap (instant_add now d)) (\<lambda>i. on_store (m i)))) T Q"
proof -
  have "instant_add (tric_now T) d = Some (tric_now T + d)"
    using assms(1,2) by (simp add: tric_inv_def tric_now_def instant_add_wire)
  then show ?thesis
    using assms(3)
    by (auto simp: returns_def tric_locked_eq[OF assms(1)] op_unwrap_simps on_store_after split: prod.splits)
qed

text \<open>The view after a change at one key.\<close>

lemma store_view_upd:
  assumes "bt_get (data s') = (bt_get (data s))(k := x)"
    and "bt_get (ttl s') = (bt_get (ttl s))(k := y)"
  shows "store_view s' t = (store_view s t)(k := (case y of None \<Rightarrow> x | Some e \<Rightarrow> if e \<le> t then None else x))"
  unfolding store_view_def assms by (auto simp: fun_eq_iff split: option.split)

lemma tric_step:
  assumes "tric_inv T" and "store_inv s'"
    and "\<And>t. tric_now T \<le> t \<Longrightarrow> store_view s' t = upd t (store_view (tric_purged T) t)"
  shows "bus_step tric_inv tric_now tric_view T (tric_after T s') upd"
proof -
  have le: "tric_now T \<le> tric_now (tric_after T s')"
    using assms(1) by (simp add: tric_inv_def tric_now_def tric_after_def clock_ok_def)
  have "store_view (tric_purged T) t = tric_view T t" if "tric_now T \<le> t" for t
    using assms(1) that by (auto simp: tric_inv_def tric_view_def store_view_purge fun_eq_iff)
  then show ?thesis
    using assms le
    by (auto simp: bus_step_def tric_inv_def tric_after_def tric_view_def clock_ok_shift)
qed

lemma tric_purged_inv: "tric_inv T \<Longrightarrow> store_inv (tric_purged T)"
  by (simp add: tric_inv_def store_inv_purge)

lemma tric_purged_get: "bt_get (data (tric_purged T)) k = tric_view T (tric_now T) k"
  by (simp add: get_data_purge tric_view_def)

section \<open>What each method does\<close>

lemma tric_read_value_spec:
  assumes "tric_inv T"
  shows "returns (tric_read_value k) T (\<lambda>r T'. r = tric_view T (tric_now T) k
      \<and> bus_step tric_inv tric_now tric_view T T' (\<lambda>t m. m))"
  unfolding tric_read_value_def
  by (rule returns_tric_locked[OF assms])
    (simp add: store_read_value_def wp tric_purged_get tric_step assms tric_purged_inv)

lemma tric_write_value_spec:
  assumes "tric_inv T"
  shows "returns (tric_write_value k v) T (\<lambda>_ T'.
      bus_step tric_inv tric_now tric_view T T' (\<lambda>t m. m(k \<mapsto> v)))"
  unfolding tric_write_value_def
  by (rule returns_tric_locked[OF assms], rule returns_mono[OF store_write_value_spec[OF tric_purged_inv[OF assms]]])
    (auto intro!: tric_step assms simp: store_view_upd)

lemma tric_delete_value_spec:
  assumes "tric_inv T"
  shows "returns (tric_delete_value k) T (\<lambda>_ T'.
      bus_step tric_inv tric_now tric_view T T' (\<lambda>t m. m(k := None)))"
  unfolding tric_delete_value_def
  by (rule returns_tric_locked[OF assms], rule returns_mono[OF store_delete_value_spec[OF tric_purged_inv[OF assms]]])
    (auto intro!: tric_step assms simp: store_view_upd)

lemma tric_delete_value_if_match_spec:
  assumes "tric_inv T"
  shows "returns (tric_delete_value_if_match k e) T (\<lambda>r T'. r = (tric_view T (tric_now T) k = Some e)
      \<and> bus_step tric_inv tric_now tric_view T T' (\<lambda>t m. if r then m(k := None) else m))"
  unfolding tric_delete_value_if_match_def
proof (rule returns_tric_locked[OF assms],
    rule returns_mono[OF store_delete_value_if_match_spec[OF tric_purged_inv[OF assms]]], elim conjE, intro conjI)
  fix r s'
  assume r: "r = (bt_get (data (tric_purged T)) k = Some e)" and inv: "store_inv s'"
    and d: "bt_get (data s') = (if r then (bt_get (data (tric_purged T)))(k := None) else bt_get (data (tric_purged T)))"
    and t: "bt_get (ttl s') = (if r then (bt_get (ttl (tric_purged T)))(k := None) else bt_get (ttl (tric_purged T)))"
  show "r = (tric_view T (tric_now T) k = Some e)" by (simp add: r tric_purged_get)
  show "bus_step tric_inv tric_now tric_view T (tric_after T s') (\<lambda>t m. if r then m(k := None) else m)"
  proof (rule tric_step[OF assms inv])
    show "store_view s' u = (if r then (store_view (tric_purged T) u)(k := None) else store_view (tric_purged T) u)" for u
    proof (cases r)
      case True
      then show ?thesis using d t by (simp add: store_view_upd)
    next
      case False
      then show ?thesis using d t by (intro ext) (simp add: store_view_def split: option.split)
    qed
  qed
qed

lemma tric_write_ttl_spec:
  assumes "tric_inv T" and "wire_duration d"
  shows "returns (tric_write_ttl k d) T (\<lambda>_ T'. bus_step tric_inv tric_now tric_view T T'
      (\<lambda>t m. m(k := if t < tric_now T + d then tric_view T (tric_now T) k else None)))"
  unfolding tric_write_ttl_def
proof (rule returns_tric_locked_until[OF assms],
    rule returns_mono[OF store_write_ttl_spec[OF tric_purged_inv[OF assms(1)]]], elim conjE)
  fix s'
  assume inv: "store_inv s'" and d: "data s' = data (tric_purged T)"
    and t: "bt_get (ttl s') = (if bt_get (data (tric_purged T)) k = None then bt_get (ttl (tric_purged T))
        else (bt_get (ttl (tric_purged T)))(k \<mapsto> tric_now T + d))"
  show "bus_step tric_inv tric_now tric_view T (tric_after T s')
      (\<lambda>t m. m(k := if t < tric_now T + d then tric_view T (tric_now T) k else None))"
  proof (rule tric_step[OF assms(1) inv])
    fix u
    show "store_view s' u = (store_view (tric_purged T) u)
        (k := if u < tric_now T + d then tric_view T (tric_now T) k else None)"
      using d t by (cases "bt_get (data (tric_purged T)) k")
        (auto simp: store_view_def fun_eq_iff simp flip: tric_purged_get split: option.split)
  qed
qed

lemma tric_write_value_with_ttl_spec:
  assumes "tric_inv T" and "wire_duration d"
  shows "returns (tric_write_value_with_ttl k v d) T (\<lambda>_ T'. bus_step tric_inv tric_now tric_view T T'
      (\<lambda>t m. m(k := if t < tric_now T + d then Some v else None)))"
  unfolding tric_write_value_with_ttl_def
  by (rule returns_tric_locked_until[OF assms],
      rule returns_mono[OF store_write_value_with_ttl_spec[OF tric_purged_inv[OF assms(1)]]])
    (auto intro!: tric_step assms simp: store_view_upd)

lemma tric_read_ttl_remaining_spec:
  assumes "tric_inv T"
  shows "returns (tric_read_ttl_remaining k) T (\<lambda>r T'.
      (r \<noteq> None \<longrightarrow> tric_view T (tric_now T) k \<noteq> None)
      \<and> bus_step tric_inv tric_now tric_view T T' (\<lambda>t m. m))"
  unfolding tric_read_ttl_remaining_def
proof -
  have "tric_view T (tric_now T) k \<noteq> None" if "bt_get (ttl (tric_purged T)) k \<noteq> None"
    using that store_inv_ttl_data[OF tric_purged_inv[OF assms]] by (force simp flip: tric_purged_get)
  then show "returns (tric_locked (\<lambda>now. on_store (store_read_ttl_remaining k now))) T (\<lambda>r T'.
      (r \<noteq> None \<longrightarrow> tric_view T (tric_now T) k \<noteq> None)
      \<and> bus_step tric_inv tric_now tric_view T T' (\<lambda>t m. m))"
    by (auto simp: returns_def tric_locked_eq[OF assms] on_store_after store_read_ttl_remaining_def
        op_simps bind_eq_Some_conv intro!: tric_step assms tric_purged_inv)
qed

lemma tric_find_by_prefix_spec:
  assumes "tric_inv T"
  shows "returns (tric_find_by_prefix pre) T (\<lambda>r T'. is_scan (tric_view T (tric_now T)) pre r
      \<and> bus_step tric_inv tric_now tric_view T T' (\<lambda>t m. m))"
proof -
  have wf: "bt_wf (data (tric_purged T))"
    using tric_purged_inv[OF assms] by (rule store_inv_wf(1))
  then have "is_scan (tric_view T (tric_now T)) pre (filter (\<lambda>p. prefix pre (fst p)) (data (tric_purged T)))"
    using bt_wf_filter[OF wf, of "\<lambda>p. prefix pre (fst p)"]
    by (auto simp: is_scan_def bt_wf_def bt_get_in_set simp flip: tric_purged_get)
  then show ?thesis
    by (auto simp: returns_def tric_find_by_prefix_def tric_locked_eq[OF assms] on_store_after
        store_find_by_prefix_spec[OF tric_purged_inv[OF assms]] intro!: tric_step assms tric_purged_inv)
qed

lemma tric_view_antimono: "t \<le> t' \<Longrightarrow> tric_view T t' k = Some v \<Longrightarrow> tric_view T t k = Some v"
  by (auto simp: tric_view_def store_view_def split: option.splits if_splits)

lemma tric_write_ttl_law:
  assumes "tric_inv T" and "wire_duration d"
  shows "returns (tric_write_ttl k d) T (\<lambda>_ T'. \<exists>b. tric_now T \<le> b \<and> b \<le> tric_now T' \<and>
    bus_step tric_inv tric_now tric_view T T'
      (\<lambda>t m. m(k := if t < b + d then tric_view T (tric_now T) k else None)))"
  by (rule returns_mono[OF tric_write_ttl_spec[OF assms]], rule exI[of _ "tric_now T"])
    (simp add: bus_step_def)

lemma tric_write_value_with_ttl_law:
  assumes "tric_inv T" and "wire_duration d"
  shows "returns (tric_write_value_with_ttl k v d) T (\<lambda>_ T'. \<exists>b. tric_now T \<le> b \<and> b \<le> tric_now T' \<and>
    bus_step tric_inv tric_now tric_view T T' (\<lambda>t m. m(k := if t < b + d then Some v else None)))"
  by (rule returns_mono[OF tric_write_value_with_ttl_spec[OF assms]], rule exI[of _ "tric_now T"])
    (simp add: bus_step_def)

lemmas tric_laws = tric_read_value_spec tric_write_value_spec tric_delete_value_spec
  tric_delete_value_if_match_spec tric_read_ttl_remaining_spec tric_find_by_prefix_spec
  tric_write_ttl_law tric_write_value_with_ttl_law

interpretation tb: ttl_bus tric_bus tric_inv tric_now tric_view "\<lambda>_. True"
  by (unfold_locales; (unfold tric_bus_def data_bus.select_convs)?;
      (rule tric_laws tric_view_antimono; assumption))

end
