(* ===== verification/Sqlite_Correct.thy ===== *)
theory Sqlite_Correct
  imports Sqlite_Bus
begin

text \<open>
  The persistent tier keeps the bus contract: its invariant, the bus laws and their
  interpretation, what a poisoned lock does, and that a restart finds everything again.
\<close>

section \<open>Invariant and view\<close>

text \<open>
  The connection of a namespace is the one to its file; a row lies in the file of its key's
  namespace; a file with rows has a connection.
\<close>

definition sqlite_inv :: "'d sqlite \<Rightarrow> 'd sqlite_bus \<Rightarrow> bool" where
  "sqlite_inv eng s \<longleftrightarrow>
     sqlite_laws eng (sb_directory s) \<and> \<not> sb_poisoned s
   \<and> distinct (map fst (sb_databases s))
   \<and> (\<forall>ns p. map_of (sb_databases s) ns = Some p \<longrightarrow>
        plain_namespace ns \<and> p = db_path (sb_directory s) ns
      \<and> ns @ str ''.db'' \<in> db_listing eng (sb_directory s) (sb_disk s))
   \<and> (\<forall>ns k v. plain_namespace ns \<longrightarrow> sq_select eng (db_path (sb_directory s) ns) k (sb_disk s) = Some v \<longrightarrow>
        parse_namespace k = ns \<and> map_of (sb_databases s) ns \<noteq> None)"

definition sqlite_view :: "'d sqlite \<Rightarrow> 'd sqlite_bus \<Rightarrow> instant \<Rightarrow> bytes \<Rightarrow> bytes option" where
  "sqlite_view eng s t k =
     (case map_of (sb_databases s) (parse_namespace k) of
        None \<Rightarrow> None
      | Some p \<Rightarrow> sq_select eng p k (sb_disk s))"

definition sqlite_now :: "'d sqlite_bus \<Rightarrow> instant" where
  "sqlite_now s = 0"

lemma sqlite_invD:
  assumes "sqlite_inv eng s"
  shows "sqlite_laws eng (sb_directory s)" and "\<not> sb_poisoned s"
    and "distinct (map fst (sb_databases s))"
    and "map_of (sb_databases s) ns = Some p \<Longrightarrow> plain_namespace ns"
    and "map_of (sb_databases s) ns = Some p \<Longrightarrow> p = db_path (sb_directory s) ns"
    and "map_of (sb_databases s) ns = Some p \<Longrightarrow>
      ns @ str ''.db'' \<in> db_listing eng (sb_directory s) (sb_disk s)"
    and "plain_namespace ns \<Longrightarrow> sq_select eng (db_path (sb_directory s) ns) k (sb_disk s) = Some v \<Longrightarrow>
      parse_namespace k = ns"
    and "plain_namespace ns \<Longrightarrow> sq_select eng (db_path (sb_directory s) ns) k (sb_disk s) = Some v \<Longrightarrow>
      map_of (sb_databases s) ns \<noteq> None"
  using assms unfolding sqlite_inv_def by blast+

text \<open>On a key that can be stored the view is the row in the file of its namespace.\<close>

lemma sqlite_view_storable:
  assumes inv: "sqlite_inv eng s" and "storable_key k"
  shows "sqlite_view eng s t k = sq_select eng (db_path (sb_directory s) (parse_namespace k)) k (sb_disk s)"
proof (cases "map_of (sb_databases s) (parse_namespace k)")
  case None
  then have "sq_select eng (db_path (sb_directory s) (parse_namespace k)) k (sb_disk s) = None"
    using sqlite_invD(8)[OF inv, of "parse_namespace k" k] assms(2)
    by (cases "sq_select eng (db_path (sb_directory s) (parse_namespace k)) k (sb_disk s)")
      (auto simp: storable_key_def)
  with None show ?thesis by (simp add: sqlite_view_def)
next
  case (Some p)
  with sqlite_invD(5)[OF inv Some] show ?thesis by (simp add: sqlite_view_def)
qed

lemma sqlite_view_unstorable:
  "sqlite_inv eng s \<Longrightarrow> \<not> storable_key k \<Longrightarrow> sqlite_view eng s t k = None"
  using sqlite_invD(4) by (auto simp: sqlite_view_def storable_key_def split: option.split)

text \<open>Two states of the same directory with the same rows in the files have the same view.\<close>

lemma sqlite_view_eq:
  assumes "sqlite_inv eng s" and "sqlite_inv eng s'" and "sb_directory s' = sb_directory s"
    and "\<And>ns k. plain_namespace ns \<Longrightarrow>
      sq_select eng (db_path (sb_directory s) ns) k (sb_disk s') =
      (if k = key \<and> ns = parse_namespace key then x else sq_select eng (db_path (sb_directory s) ns) k (sb_disk s))"
    and "storable_key key"
  shows "sqlite_view eng s' t = (sqlite_view eng s t)(key := x)"
proof
  fix k
  show "sqlite_view eng s' t k = ((sqlite_view eng s t)(key := x)) k"
  proof (cases "storable_key k")
    case True
    then show ?thesis
      using assms by (auto simp: sqlite_view_storable storable_key_def)
  next
    case False
    with assms show ?thesis by (auto simp: sqlite_view_unstorable)
  qed
qed

section \<open>Every operation keeps the invariant\<close>

lemma sqlite_inv_disk:
  assumes inv: "sqlite_inv eng s"
    and "db_listing eng (sb_directory s) d = db_listing eng (sb_directory s) (sb_disk s)"
    and "\<And>ns k v. plain_namespace ns \<Longrightarrow> sq_select eng (db_path (sb_directory s) ns) k d = Some v \<Longrightarrow>
      parse_namespace k = ns \<and> map_of (sb_databases s) ns \<noteq> None"
  shows "sqlite_inv eng (s\<lparr>sb_disk := d\<rparr>)"
  using assms unfolding sqlite_inv_def by simp

lemma sqlite_write_connection_spec:
  assumes inv: "sqlite_inv eng s" and ns: "plain_namespace ns"
  shows "returns (sqlite_write_connection eng ns) s (\<lambda>_ s'. sqlite_inv eng s'
      \<and> sb_directory s' = sb_directory s
      \<and> map_of (sb_databases s') ns = Some (db_path (sb_directory s) ns)
      \<and> (\<forall>ns' k. plain_namespace ns' \<longrightarrow>
          sq_select eng (db_path (sb_directory s) ns') k (sb_disk s') =
          sq_select eng (db_path (sb_directory s) ns') k (sb_disk s)))"
proof (cases "map_of (sb_databases s) ns")
  case (Some p)
  then show ?thesis
    using inv sqlite_invD(2)[OF inv] sqlite_invD(5)[OF inv Some]
    by (simp add: sqlite_write_connection_def sqlite_lock_def sqlite_connection_def returns_def
        op_bind_def op_simps)
next
  case None
  let ?p = "db_path (sb_directory s) ns"
  note laws = sqlite_lawsD[OF sqlite_invD(1)[OF inv] ns]
  note select = sqlite_laws_select[OF sqlite_invD(1)[OF inv] ns]
  obtain d1 where d1: "sq_open eng ?p (sb_disk s) = (True, d1)"
    using laws(1)[of "sb_disk s"] by (cases "sq_open eng ?p (sb_disk s)") auto
  obtain d2 where d2: "sq_init eng ?p d1 = (True, d2)"
    using laws(2)[of d1] by (cases "sq_init eng ?p d1") auto
  have rows: "sq_select eng (db_path (sb_directory s) ns') k d2 = sq_select eng (db_path (sb_directory s) ns') k (sb_disk s)"
    if "plain_namespace ns'" for ns' k
    using select(1,2)[OF that, of k] d1 d2 by (metis snd_conv)
  have listing: "db_listing eng (sb_directory s) d2 = insert (ns @ str ''.db'') (db_listing eng (sb_directory s) (sb_disk s))"
    using laws(6)[of "sb_disk s"] laws(7)[of d1] d1 d2 by simp
  let ?s' = "s\<lparr>sb_disk := d2, sb_databases := hash_insert ns ?p (sb_databases s)\<rparr>"
  have run: "sqlite_write_connection eng ns s = (Ret (), ?s')"
    using None sqlite_invD(2)[OF inv] d1 d2
    by (simp add: sqlite_write_connection_def sqlite_lock_def sqlite_connection_def sqlite_on_disk_def
        op_bind_def op_simps)
  have "sqlite_inv eng ?s'"
    unfolding sqlite_inv_def
  proof (intro conjI allI impI)
    show "distinct (map fst (sb_databases ?s'))"
      using sqlite_invD(3)[OF inv] by (simp add: distinct_hash_insert)
    show "plain_namespace ns'" "p = db_path (sb_directory ?s') ns'"
      "ns' @ str ''.db'' \<in> db_listing eng (sb_directory ?s') (sb_disk ?s')"
      if "map_of (sb_databases ?s') ns' = Some p" for ns' p
      using that ns listing sqlite_invD(4-6)[OF inv] by (auto split: if_splits simp del: str_simps)
    show "parse_namespace k = ns'" "map_of (sb_databases ?s') ns' \<noteq> None"
      if "plain_namespace ns'" "sq_select eng (db_path (sb_directory ?s') ns') k (sb_disk ?s') = Some v" for ns' k v
      using that sqlite_invD(7,8)[OF inv that(1)] by (auto simp: rows)
  qed (use inv in \<open>simp_all add: sqlite_inv_def\<close>)
  with rows show ?thesis by (simp add: returns_def run)
qed

lemma sqlite_write_value_spec:
  assumes inv: "sqlite_inv eng s" and key: "storable_key key"
  shows "returns (sqlite_write_value eng key v) s (\<lambda>_ s'.
      bus_step (sqlite_inv eng) sqlite_now (sqlite_view eng) s s' (\<lambda>t m. m(key \<mapsto> v)))"
  unfolding sqlite_write_value_def Let_def returns_bind
proof (rule returns_mono[OF sqlite_write_connection_spec[OF inv key[unfolded storable_key_def]]], elim conjE)
  fix u s1
  let ?ns = "parse_namespace key" and ?dir = "sb_directory s"
  assume inv1: "sqlite_inv eng s1" and dir: "sb_directory s1 = ?dir"
    and conn: "map_of (sb_databases s1) ?ns = Some (db_path ?dir ?ns)"
    and rows: "\<forall>ns' k. plain_namespace ns' \<longrightarrow>
      sq_select eng (db_path ?dir ns') k (sb_disk s1) = sq_select eng (db_path ?dir ns') k (sb_disk s)"
  have ns: "plain_namespace ?ns" using key by (simp add: storable_key_def)
  note laws = sqlite_lawsD[OF sqlite_invD(1)[OF inv] ns] sqlite_laws_select[OF sqlite_invD(1)[OF inv] ns]
  let ?s' = "s1\<lparr>sb_disk := sq_replace eng (db_path ?dir ?ns) key v (sb_disk s1)\<rparr>"
  have rows': "sq_select eng (db_path ?dir ns') k (sb_disk ?s') =
      (if k = key \<and> ns' = ?ns then Some v else sq_select eng (db_path ?dir ns') k (sb_disk s1))"
    if "plain_namespace ns'" for ns' k
    using laws(12)[OF that] sqlite_invD(6)[OF inv1 conn] dir by auto
  have inv': "sqlite_inv eng ?s'"
    using sqlite_invD(7,8)[OF inv1] conn dir laws(8)
    by (intro sqlite_inv_disk[OF inv1]) (auto simp: rows'[simplified] split: if_splits)
  have "sqlite_view eng ?s' t = (sqlite_view eng s t)(key \<mapsto> v)" for t
    using rows by (intro sqlite_view_eq[OF inv inv' _ _ key]) (simp_all add: dir rows'[simplified])
  with inv' show "returns sqlite_lock s1 (\<lambda>_ s'. returns (sqlite_connection ?ns) s' (\<lambda>c s'.
      returns (case c of None \<Rightarrow> op_ret ()
        | Some path \<Rightarrow> op_modify (\<lambda>s. s\<lparr>sb_disk := sq_replace eng path key v (sb_disk s)\<rparr>)) s'
      (\<lambda>_ s'. bus_step (sqlite_inv eng) sqlite_now (sqlite_view eng) s s' (\<lambda>t m. m(key \<mapsto> v)))))"
    using sqlite_invD(2)[OF inv1] conn
    by (simp add: returns_def sqlite_lock_def sqlite_connection_def op_simps bus_step_def sqlite_now_def)
qed

text \<open>Reading changes nothing.\<close>

lemmas sqlite_run_defs = sqlite_read_connection_def sqlite_lock_def sqlite_connection_def
  op_bind_def op_simps Let_def

lemma sqlite_read_value_run:
  assumes inv: "sqlite_inv eng s"
  shows "sqlite_read_value eng k s = (Ret (sqlite_view eng s t k), s)"
  using sqlite_invD(2)[OF inv]
  by (cases "map_of (sb_databases s) (parse_namespace k)")
    (simp_all add: sqlite_read_value_def sqlite_view_def sqlite_run_defs)

lemma sqlite_quiet: "sqlite_inv eng s \<Longrightarrow> bus_step (sqlite_inv eng) sqlite_now (sqlite_view eng) s s (\<lambda>t m. m)"
  by (simp add: bus_step_def)

text \<open>Deleting a row, where the namespace has a connection.\<close>

lemma sqlite_delete_row:
  assumes inv: "sqlite_inv eng s" and conn: "map_of (sb_databases s) (parse_namespace key) = Some p"
  shows "bus_step (sqlite_inv eng) sqlite_now (sqlite_view eng) s
    (s\<lparr>sb_disk := sq_delete eng p key (sb_disk s)\<rparr>) (\<lambda>t m. m(key := None))"
proof -
  let ?ns = "parse_namespace key" and ?dir = "sb_directory s"
  let ?s' = "s\<lparr>sb_disk := sq_delete eng p key (sb_disk s)\<rparr>"
  have ns: "plain_namespace ?ns" and p: "p = db_path ?dir ?ns"
    using sqlite_invD(4,5)[OF inv conn] by auto
  note laws = sqlite_lawsD[OF sqlite_invD(1)[OF inv] ns] sqlite_laws_select[OF sqlite_invD(1)[OF inv] ns]
  have rows: "sq_select eng (db_path ?dir ns') k (sb_disk ?s') =
      (if k = key \<and> ns' = ?ns then None else sq_select eng (db_path ?dir ns') k (sb_disk s))"
    if "plain_namespace ns'" for ns' k
    using laws(13)[OF that] p by auto
  have inv': "sqlite_inv eng ?s'"
  proof (rule sqlite_inv_disk[OF inv])
    show "db_listing eng ?dir (sq_delete eng p key (sb_disk s)) = db_listing eng ?dir (sb_disk s)"
      unfolding p by (rule laws(9))
    show "parse_namespace k = ns' \<and> map_of (sb_databases s) ns' \<noteq> None"
      if "plain_namespace ns'" "sq_select eng (db_path ?dir ns') k (sq_delete eng p key (sb_disk s)) = Some v" for ns' k v
      using that sqlite_invD(7,8)[OF inv that(1)] by (auto simp: rows[simplified] split: if_splits)
  qed
  have "sqlite_view eng ?s' t = (sqlite_view eng s t)(key := None)" for t
    by (intro sqlite_view_eq[OF inv inv']) (simp_all add: rows[simplified] storable_key_def ns)
  with inv' show ?thesis by (simp add: bus_step_def sqlite_now_def)
qed

lemma sqlite_delete_value_spec:
  assumes inv: "sqlite_inv eng s"
  shows "returns (sqlite_delete_value eng key) s (\<lambda>_ s'.
      bus_step (sqlite_inv eng) sqlite_now (sqlite_view eng) s s' (\<lambda>t m. m(key := None)))"
proof (cases "map_of (sb_databases s) (parse_namespace key)")
  case None
  then have "sqlite_view eng s t key = None" for t by (simp add: sqlite_view_def)
  then have "(sqlite_view eng s t)(key := None) = sqlite_view eng s t" for t by auto
  then show ?thesis
    using None inv sqlite_invD(2)[OF inv]
    by (simp add: returns_def sqlite_delete_value_def sqlite_run_defs bus_step_def)
next
  case (Some p)
  then show ?thesis
    using sqlite_delete_row[OF inv Some] sqlite_invD(2)[OF inv]
    by (simp add: returns_def sqlite_delete_value_def sqlite_run_defs)
qed

lemma sqlite_delete_value_if_match_spec:
  assumes inv: "sqlite_inv eng s"
  shows "returns (sqlite_delete_value_if_match eng key e) s (\<lambda>r s'.
      r = (sqlite_view eng s (sqlite_now s) key = Some e) \<and>
      bus_step (sqlite_inv eng) sqlite_now (sqlite_view eng) s s' (\<lambda>t m. if r then m(key := None) else m))"
proof (cases "map_of (sb_databases s) (parse_namespace key)")
  case None
  then show ?thesis
    using sqlite_quiet[OF inv] sqlite_invD(2)[OF inv]
    by (simp add: returns_def sqlite_delete_value_if_match_def sqlite_view_def sqlite_run_defs)
next
  case (Some p)
  then show ?thesis
    using sqlite_delete_row[OF inv Some] sqlite_quiet[OF inv] sqlite_invD(2)[OF inv]
    by (simp add: returns_def sqlite_delete_value_if_match_def sqlite_run_defs sqlite_view_def[of eng s])
qed

section \<open>The prefix scan\<close>

lemma sqlite_rows_iff:
  assumes inv: "sqlite_inv eng s"
  shows "(k, v) \<in> set (concat (map (\<lambda>(_, path). filter (\<lambda>row. prefix pre (fst row)) (sq_rows eng path (sb_disk s)))
      (sb_databases s))) \<longleftrightarrow> prefix pre k \<and> sqlite_view eng s t k = Some v"
    (is "_ \<in> set ?rows \<longleftrightarrow> ?R")
proof -
  note conn = sqlite_invD(4,5)[OF inv]
  have "(k, v) \<in> set ?rows \<longleftrightarrow> (\<exists>ns p. map_of (sb_databases s) ns = Some p \<and> prefix pre k
      \<and> (k, v) \<in> set (sq_rows eng p (sb_disk s)))"
    using map_of_eq_Some_iff[OF sqlite_invD(3)[OF inv]] by fastforce
  also have "\<dots> \<longleftrightarrow> (\<exists>ns p. map_of (sb_databases s) ns = Some p \<and> prefix pre k
      \<and> sq_select eng p k (sb_disk s) = Some v)"
    using conn sqlite_lawsD(4)[OF sqlite_invD(1)[OF inv]] by (metis (no_types, lifting))
  also have "\<dots> \<longleftrightarrow> ?R"
  proof
    assume "\<exists>ns p. map_of (sb_databases s) ns = Some p \<and> prefix pre k \<and> sq_select eng p k (sb_disk s) = Some v"
    then obtain ns p where ns: "map_of (sb_databases s) ns = Some p" "prefix pre k"
      "sq_select eng p k (sb_disk s) = Some v" by blast
    then have "parse_namespace k = ns"
      using sqlite_invD(7)[OF inv conn(1)[OF ns(1)]] conn(2)[OF ns(1)] by blast
    with ns show ?R by (simp add: sqlite_view_def)
  qed (auto simp: sqlite_view_def split: option.splits)
  finally show ?thesis .
qed

lemma distinct_concat_disjoint:
  "distinct (map fst m) \<Longrightarrow> (\<And>x. x \<in> set m \<Longrightarrow> distinct (map fst (f x))) \<Longrightarrow>
    (\<And>x k. x \<in> set m \<Longrightarrow> k \<in> fst ` set (f x) \<Longrightarrow> g k = fst x) \<Longrightarrow> distinct (map fst (concat (map f m)))"
proof (induction m)
  case (Cons x m)
  have "fst ` set (f x) \<inter> fst ` set (concat (map f m)) = {}"
  proof (rule ccontr)
    assume "fst ` set (f x) \<inter> fst ` set (concat (map f m)) \<noteq> {}"
    then obtain k where k: "k \<in> fst ` set (f x)" "k \<in> fst ` set (concat (map f m))" by blast
    then obtain y where y: "y \<in> set m" "k \<in> fst ` set (f y)" by force
    have "g k = fst x" "g k = fst y" using Cons.prems(3) k y by auto
    with y Cons.prems(1) show False by (metis distinct.simps(2) image_eqI list.set_map list.simps(9))
  qed
  with Cons show ?case by simp
qed simp

lemma sqlite_find_by_prefix_spec:
  assumes inv: "sqlite_inv eng s"
  shows "\<exists>r. sqlite_find_by_prefix eng pre s = (Ret r, s) \<and> (\<forall>t. is_scan (sqlite_view eng s t) pre r)"
proof -
  let ?rows = "concat (map (\<lambda>(_, path). filter (\<lambda>row. prefix pre (fst row)) (sq_rows eng path (sb_disk s))) (sb_databases s))"
  have run: "sqlite_find_by_prefix eng pre s = (Ret (sort_key fst ?rows), s)"
    using sqlite_invD(2)[OF inv] by (simp add: sqlite_find_by_prefix_def sqlite_lock_def op_bind_def op_simps)
  have "distinct (map fst ?rows)"
  proof (rule distinct_concat_disjoint[OF sqlite_invD(3)[OF inv], where g = parse_namespace])
    fix x assume x: "x \<in> set (sb_databases s)"
    obtain ns p where np: "x = (ns, p)" by (cases x)
    with x have m: "map_of (sb_databases s) ns = Some p"
      using sqlite_invD(3)[OF inv] by simp
    note conn = sqlite_invD(4)[OF inv m] sqlite_invD(5)[OF inv m]
    note laws = sqlite_lawsD[OF sqlite_invD(1)[OF inv] conn(1)]
    have "sorted_wrt (<) (map fst (sq_rows eng p (sb_disk s)))" using laws(3) conn(2) by simp
    then have "distinct (map fst (sq_rows eng p (sb_disk s)))" by (simp add: strict_sorted_iff)
    then show "distinct (map fst (case x of (_, path) \<Rightarrow> filter (\<lambda>row. prefix pre (fst row)) (sq_rows eng path (sb_disk s))))"
      by (simp add: np distinct_map_filter)
    show "parse_namespace k = fst x"
      if "k \<in> fst ` set (case x of (_, path) \<Rightarrow> filter (\<lambda>row. prefix pre (fst row)) (sq_rows eng path (sb_disk s)))" for k
    proof -
      from that obtain v where "(k, v) \<in> set (sq_rows eng p (sb_disk s))" by (auto simp: np)
      then have "sq_select eng (db_path (sb_directory s) ns) k (sb_disk s) = Some v" using laws(4) conn(2) by simp
      from sqlite_invD(7)[OF inv conn(1) this] show ?thesis by (simp add: np)
    qed
  qed
  then have "sorted_wrt (<) (map fst (sort_key fst ?rows))" by (rule sorted_wrt_sort_key)
  then have "is_scan (sqlite_view eng s t) pre (sort_key fst ?rows)" for t
    using sqlite_rows_iff[OF inv, of _ _ pre t] by (simp add: is_scan_def)
  with run show ?thesis by blast
qed

section \<open>The contract\<close>

lemma sqlite_bus_simps [simp]:
  "bus_read_value (sqlite_data_bus eng) = sqlite_read_value eng"
  "bus_write_value (sqlite_data_bus eng) = sqlite_write_value eng"
  "bus_delete_value (sqlite_data_bus eng) = sqlite_delete_value eng"
  "bus_delete_value_if_match (sqlite_data_bus eng) = sqlite_delete_value_if_match eng"
  "bus_write_ttl (sqlite_data_bus eng) = sqlite_write_ttl"
  "bus_write_value_with_ttl (sqlite_data_bus eng) = sqlite_write_value_with_ttl eng"
  "bus_read_ttl_remaining (sqlite_data_bus eng) = sqlite_read_ttl_remaining"
  "bus_find_by_prefix (sqlite_data_bus eng) = sqlite_find_by_prefix eng"
  by (simp_all add: sqlite_data_bus_def)

interpretation sq: kv_bus "sqlite_data_bus eng" "sqlite_inv eng" sqlite_now "sqlite_view eng" storable_key
  for eng :: "'d sqlite"
proof
  fix s :: "'d sqlite_bus" and k v e pre :: bytes and t t' :: instant
  assume inv: "sqlite_inv eng s"
  note step = sqlite_quiet[OF inv]
  show "returns (bus_read_value (sqlite_data_bus eng) k) s (\<lambda>r s'. r = sqlite_view eng s (sqlite_now s) k
      \<and> bus_step (sqlite_inv eng) sqlite_now (sqlite_view eng) s s' (\<lambda>t m. m))"
    using step sqlite_read_value_run[OF inv, of k "sqlite_now s"] by (simp add: returns_def)
  show "returns (bus_delete_value (sqlite_data_bus eng) k) s (\<lambda>_ s'.
      bus_step (sqlite_inv eng) sqlite_now (sqlite_view eng) s s' (\<lambda>t m. m(k := None)))"
    using sqlite_delete_value_spec[OF inv] by simp
  show "returns (bus_delete_value_if_match (sqlite_data_bus eng) k e) s (\<lambda>r s'.
      r = (sqlite_view eng s (sqlite_now s) k = Some e) \<and>
      bus_step (sqlite_inv eng) sqlite_now (sqlite_view eng) s s' (\<lambda>t m. if r then m(k := None) else m))"
    using sqlite_delete_value_if_match_spec[OF inv] by simp
  show "returns (bus_read_ttl_remaining (sqlite_data_bus eng) k) s (\<lambda>r s'.
      (r \<noteq> None \<longrightarrow> sqlite_view eng s (sqlite_now s) k \<noteq> None)
      \<and> bus_step (sqlite_inv eng) sqlite_now (sqlite_view eng) s s' (\<lambda>t m. m))"
    using step by (simp add: sqlite_read_ttl_remaining_def wp)
  show "returns (bus_find_by_prefix (sqlite_data_bus eng) pre) s (\<lambda>r s'.
      is_scan (sqlite_view eng s (sqlite_now s)) pre r
      \<and> bus_step (sqlite_inv eng) sqlite_now (sqlite_view eng) s s' (\<lambda>t m. m))"
    using step sqlite_find_by_prefix_spec[OF inv, of pre] by (auto simp: returns_def)
  show "sqlite_view eng s t k = Some v" if "sqlite_view eng s t' k = Some v"
    using that by (simp add: sqlite_view_def)
  show "returns (bus_write_value (sqlite_data_bus eng) k v) s (\<lambda>_ s'.
      bus_step (sqlite_inv eng) sqlite_now (sqlite_view eng) s s' (\<lambda>t m. m(k \<mapsto> v)))" if "storable_key k"
    using sqlite_write_value_spec[OF inv that] by simp
qed


section \<open>A poisoned lock\<close>

lemma sqlite_poisoned_panics:
  assumes "sb_poisoned s"
  shows "sqlite_read_value eng k s = (Panicked, s)" and "sqlite_write_value eng k v s = (Panicked, s)"
    and "sqlite_delete_value eng k s = (Panicked, s)"
    and "sqlite_delete_value_if_match eng k v s = (Panicked, s)"
    and "sqlite_find_by_prefix eng pre s = (Panicked, s)"
  using assms by (simp_all add: sqlite_read_value_def sqlite_write_value_def sqlite_delete_value_def
      sqlite_delete_value_if_match_def sqlite_find_by_prefix_def sqlite_write_connection_def sqlite_run_defs)

text \<open>A write to a namespace whose file cannot be opened panics with the lock held.\<close>

lemma sqlite_write_open_fails:
  assumes "\<not> sb_poisoned s" and "map_of (sb_databases s) (parse_namespace k) = None"
    and "\<not> fst (sq_open eng (db_path (sb_directory s) (parse_namespace k)) (sb_disk s))"
  shows "fst (sqlite_write_value eng k v s) = Panicked \<and> sb_poisoned (snd (sqlite_write_value eng k v s))"
  using assms by (cases "sq_open eng (db_path (sb_directory s) (parse_namespace k)) (sb_disk s)")
    (simp add: sqlite_write_value_def sqlite_write_connection_def sqlite_on_disk_def sqlite_panic_locked_def sqlite_run_defs)

section \<open>Restart\<close>

text \<open>
  What a restart relies on beside \<open>sqlite_laws\<close>: \<open>create_dir_all\<close> of the existing directory
  changes no database, and the directory can be listed.
\<close>

definition sqlite_restart_laws :: "'d sqlite \<Rightarrow> bytes \<Rightarrow> 'd \<Rightarrow> bool" where
  "sqlite_restart_laws eng dir d \<longleftrightarrow>
     fst (fs_create_dir_all eng dir d)
   \<and> db_listing eng dir (snd (fs_create_dir_all eng dir d)) = db_listing eng dir d
   \<and> (\<forall>ns k. plain_namespace ns \<longrightarrow>
        sq_select eng (db_path dir ns) k (snd (fs_create_dir_all eng dir d)) = sq_select eng (db_path dir ns) k d)
   \<and> fs_read_dir eng dir (snd (fs_create_dir_all eng dir d)) \<noteq> None
   \<and> db_listing eng dir d \<subseteq> (\<lambda>ns. ns @ str ''.db'') ` Collect plain_namespace"

lemma file_extension_db:
  assumes "file_extension name = Some (str ''db'')"
  shows "suffix (str ''.db'') name"
proof -
  let ?r = "rev name"
  from assms have tw: "takeWhile (\<lambda>b. b \<noteq> 46) ?r = rev (str ''db'')" and len: "3 < length name"
    by (auto simp: file_extension_def Let_def rev_swap split: if_splits simp del: str_simps)
      (simp_all add: str_def)
  have two: "length (takeWhile (\<lambda>b. b \<noteq> 46) ?r) = 2" by (simp add: tw)
  then have dot: "?r ! 2 = 46"
    using nth_length_takeWhile[of "\<lambda>b. b \<noteq> 46" ?r] len by simp
  have "?r = take 2 ?r @ ?r ! 2 # drop (Suc 2) ?r" by (rule id_take_nth_drop) (use len in simp)
  also have "take 2 ?r = rev (str ''db'')"
    using takeWhile_eq_take[of "\<lambda>b. b \<noteq> 46" ?r] two tw by (metis)
  finally have "name = rev (drop (Suc 2) ?r) @ (?r ! 2 # str ''db'')"
    by (metis append.assoc append_Cons append_Nil rev.simps(2) rev_append rev_rev_ident)
  then show ?thesis by (auto simp: dot suffix_def)
qed

lemma plain_extension:
  assumes "ns \<noteq> []"
  shows "file_extension (ns @ str ''.db'') = Some (str ''db'')" and "file_stem (ns @ str ''.db'') = ns"
  using assms by (auto simp: file_extension_def file_stem_def Let_def)

text \<open>The loop over the directory: every plain, nonempty namespace seen gets its connection.\<close>

definition opened_upto :: "'d sqlite \<Rightarrow> bytes \<Rightarrow> 'd \<Rightarrow> bytes list \<Rightarrow> (bytes \<times> bytes) list \<times> 'd \<Rightarrow> bool" where
  "opened_upto eng dir d names st \<longleftrightarrow>
     distinct (map fst (fst st))
   \<and> (\<forall>ns. map_of (fst st) ns = (if ns \<noteq> [] \<and> ns @ str ''.db'' \<in> set names then Some (db_path dir ns) else None))
   \<and> db_listing eng dir (snd st) = db_listing eng dir d
   \<and> (\<forall>ns k. plain_namespace ns \<longrightarrow>
        sq_select eng (db_path dir ns) k (snd st) = sq_select eng (db_path dir ns) k d)"

lemma open_entry_step:
  assumes laws: "sqlite_laws eng dir" and st: "opened_upto eng dir d names st"
    and name: "suffix (str ''.db'') name \<Longrightarrow>
      name \<in> db_listing eng dir d \<and> (\<exists>ns. plain_namespace ns \<and> name = ns @ str ''.db'')"
  shows "opened_upto eng dir d (name # names) (open_entry eng dir name st)"
proof (cases "file_extension name = Some (str ''db'')")
  case False
  have "name \<noteq> ns @ str ''.db''" if "ns \<noteq> []" for ns
    using False plain_extension(1)[OF that] by metis
  with st False show ?thesis
    by (auto simp: opened_upto_def open_entry_def split: prod.split simp del: str_simps)
next
  case True
  obtain m d1 where m: "st = (m, d1)" by (cases st)
  from name[OF file_extension_db[OF True]] obtain ns where ns: "plain_namespace ns" "name = ns @ str ''.db''"
    and listed: "ns @ str ''.db'' \<in> db_listing eng dir d" by blast
  have "ns \<noteq> []" using True ns(2) by (auto simp: file_extension_def)
  note L = sqlite_lawsD[OF laws ns(1)] and S = sqlite_laws_select[OF laws ns(1)]
  have path: "path_join dir (ns @ str ''.db'') = db_path dir ns" by (simp add: db_path_def)
  obtain d2 where d2: "sq_open eng (db_path dir ns) d1 = (True, d2)"
    using L(1)[of d1] by (cases "sq_open eng (db_path dir ns) d1") auto
  have run: "open_entry eng dir name st = (hash_insert ns (db_path dir ns) m, snd (sq_init eng (db_path dir ns) d2))"
    using True ns plain_extension(2)[OF \<open>ns \<noteq> []\<close>] d2
    by (simp add: open_entry_def m path from_utf8_def plain_namespace_def Let_def del: str_simps)
  have "db_listing eng dir d2 = db_listing eng dir d1"
    using L(6)[of d1] d2 listed st by (auto simp: opened_upto_def m insert_absorb simp del: str_simps)
  moreover have "sq_select eng (db_path dir ns') k d2 = sq_select eng (db_path dir ns') k d1"
    if "plain_namespace ns'" for ns' k
    using S(1)[OF that, of k d1] d2 by simp
  ultimately show ?thesis
    unfolding run using st L(7)[of d2] S(2) \<open>ns \<noteq> []\<close>
    by (auto simp: opened_upto_def m distinct_hash_insert ns(2) simp del: str_simps)
qed

lemma open_entries:
  assumes laws: "sqlite_laws eng dir" and "opened_upto eng dir d names st"
    and "\<And>name. name \<in> set entries \<Longrightarrow> suffix (str ''.db'') name \<Longrightarrow>
      name \<in> db_listing eng dir d \<and> (\<exists>ns. plain_namespace ns \<and> name = ns @ str ''.db'')"
  shows "opened_upto eng dir d (rev entries @ names) (fold (open_entry eng dir) entries st)"
  using assms(2,3)
proof (induction entries arbitrary: names st)
  case (Cons name entries)
  have "opened_upto eng dir d (name # names) (open_entry eng dir name st)"
    using Cons.prems by (intro open_entry_step[OF laws]) auto
  from Cons.IH[OF this] Cons.prems(2) show ?case by simp
qed simp

lemma sqlite_restart:
  assumes inv: "sqlite_inv eng s" and restart: "sqlite_restart_laws eng (sb_directory s) (sb_disk s)"
    and dir: "instance_dir base inst slot = sb_directory s"
  obtains s' where "create_sqlite_bus eng base inst slot (sb_disk s) = Ret s'"
    and "sb_directory s' = sb_directory s" and "\<not> sb_poisoned s'"
    and "opened_upto eng (sb_directory s) (sb_disk s)
      (the (fs_read_dir eng (sb_directory s) (snd (fs_create_dir_all eng (sb_directory s) (sb_disk s)))))
      (sb_databases s', sb_disk s')"
proof -
  let ?dir = "sb_directory s"
  obtain d0 where d0: "fs_create_dir_all eng ?dir (sb_disk s) = (True, d0)"
    using restart by (cases "fs_create_dir_all eng ?dir (sb_disk s)") (auto simp: sqlite_restart_laws_def)
  obtain entries where entries: "fs_read_dir eng ?dir d0 = Some entries"
    using restart d0 by (auto simp: sqlite_restart_laws_def)
  have listing: "db_listing eng ?dir d0 = db_listing eng ?dir (sb_disk s)"
    "db_listing eng ?dir (sb_disk s) \<subseteq> (\<lambda>ns. ns @ str ''.db'') ` Collect plain_namespace"
    using restart d0 by (simp_all add: sqlite_restart_laws_def del: str_simps)
  have start: "opened_upto eng ?dir (sb_disk s) [] ([], d0)"
    using restart d0 by (simp add: sqlite_restart_laws_def opened_upto_def)
  obtain m d where fold: "fold (open_entry eng ?dir) entries ([], d0) = (m, d)" by force
  have "opened_upto eng ?dir (sb_disk s) (rev entries @ []) (m, d)"
    unfolding fold[symmetric]
  proof (rule open_entries[OF sqlite_invD(1)[OF inv] start])
    show "name \<in> db_listing eng ?dir (sb_disk s) \<and> (\<exists>ns. plain_namespace ns \<and> name = ns @ str ''.db'')"
      if "name \<in> set entries" "suffix (str ''.db'') name" for name
    proof -
      have "name \<in> db_listing eng ?dir (sb_disk s)"
        unfolding listing(1)[symmetric] using that entries by (simp add: db_listing_def)
      with listing(2) show ?thesis by blast
    qed
  qed
  then have "opened_upto eng ?dir (sb_disk s) entries (m, d)" by (simp add: opened_upto_def)
  then show thesis
    using that[of "\<lparr>sb_directory = ?dir, sb_databases = m, sb_poisoned = False, sb_disk = d\<rparr>"] d0 entries fold
    by (simp add: create_sqlite_bus_def Let_def dir)
qed

text \<open>
  What the reopened tier finds: all that was stored, except under keys of the empty namespace
  (their file \<open>.db\<close> has no extension, so the loop passes it over).
\<close>

lemma sqlite_restart_view:
  assumes inv: "sqlite_inv eng s" and restart: "sqlite_restart_laws eng (sb_directory s) (sb_disk s)"
    and dir: "instance_dir base inst slot = sb_directory s"
  shows "\<exists>s'. create_sqlite_bus eng base inst slot (sb_disk s) = Ret s' \<and>
    (\<forall>t k. sqlite_view eng s' t k = (if parse_namespace k = [] then None else sqlite_view eng s t k)) \<and>
    ((\<forall>k. parse_namespace k = [] \<longrightarrow> sqlite_view eng s 0 k = None) \<longrightarrow> sqlite_inv eng s')"
proof -
  let ?dir = "sb_directory s"
  let ?entries = "the (fs_read_dir eng ?dir (snd (fs_create_dir_all eng ?dir (sb_disk s))))"
  obtain s' where s': "create_sqlite_bus eng base inst slot (sb_disk s) = Ret s'"
    and dir': "sb_directory s' = ?dir" and lock: "\<not> sb_poisoned s'"
    and opened: "opened_upto eng ?dir (sb_disk s) ?entries (sb_databases s', sb_disk s')"
    by (rule sqlite_restart[OF assms])
  have conn: "map_of (sb_databases s') ns = (if ns \<noteq> [] \<and> ns @ str ''.db'' \<in> db_listing eng ?dir (sb_disk s)
      then Some (db_path ?dir ns) else None)" for ns
  proof -
    have "ns @ str ''.db'' \<in> set ?entries \<longleftrightarrow> ns @ str ''.db'' \<in> db_listing eng ?dir (sb_disk s)"
      using restart by (auto simp: sqlite_restart_laws_def db_listing_def simp del: str_simps)
    then show ?thesis using opened by (simp add: opened_upto_def)
  qed
  have rows: "sq_select eng (db_path ?dir ns) k (sb_disk s') = sq_select eng (db_path ?dir ns) k (sb_disk s)"
    if "plain_namespace ns" for ns k
    using opened that by (simp add: opened_upto_def)
  have view: "sqlite_view eng s' t k = (if parse_namespace k = [] then None else sqlite_view eng s t k)" for t k
  proof (cases "storable_key k")
    case True
    then have ns: "plain_namespace (parse_namespace k)" by (simp add: storable_key_def)
    show ?thesis
      using sqlite_lawsD(5)[OF sqlite_invD(1)[OF inv] ns, of "sb_disk s" k] rows[OF ns, of k]
      by (simp add: sqlite_view_storable[OF inv True] sqlite_view_def[of eng s'] conn del: str_simps)
  next
    case False
    then have "parse_namespace k @ str ''.db'' \<notin> db_listing eng ?dir (sb_disk s)"
      using restart by (auto simp: sqlite_restart_laws_def storable_key_def simp del: str_simps)
    then show ?thesis
      using sqlite_view_unstorable[OF inv False] by (simp add: sqlite_view_def[of eng s'] conn)
  qed
  have "sqlite_inv eng s'" if none: "\<forall>k. parse_namespace k = [] \<longrightarrow> sqlite_view eng s 0 k = None"
    unfolding sqlite_inv_def dir'
  proof (intro conjI allI impI)
    show "distinct (map fst (sb_databases s'))" using opened by (simp add: opened_upto_def)
    show "plain_namespace ns" "p = db_path ?dir ns" "ns @ str ''.db'' \<in> db_listing eng ?dir (sb_disk s')"
      if "map_of (sb_databases s') ns = Some p" for ns p
      using that restart opened
      by (auto simp: conn sqlite_restart_laws_def opened_upto_def split: if_splits simp del: str_simps)
    show "parse_namespace k = ns" and "map_of (sb_databases s') ns \<noteq> None"
      if ns: "plain_namespace ns" and row: "sq_select eng (db_path ?dir ns) k (sb_disk s') = Some v" for ns k v
    proof -
      from row have old: "sq_select eng (db_path ?dir ns) k (sb_disk s) = Some v" by (simp add: rows[OF ns])
      show k: "parse_namespace k = ns" by (rule sqlite_invD(7)[OF inv ns old])
      have "sqlite_view eng s 0 k = Some v"
        using old ns by (simp add: sqlite_view_storable[OF inv] storable_key_def k)
      then have "ns \<noteq> []" using none k by force
      moreover have "ns @ str ''.db'' \<in> db_listing eng ?dir (sb_disk s)"
        using sqlite_lawsD(5)[OF sqlite_invD(1)[OF inv] ns, of "sb_disk s" k] old by fastforce
      ultimately show "map_of (sb_databases s') ns \<noteq> None" by (simp add: conn)
    qed
  qed (use sqlite_invD(1)[OF inv] lock in simp_all)
  with s' view show ?thesis by blast
qed

end
