(* ===== verification/Permutive_Bus.thy ===== *)
theory Permutive_Bus
  imports Tric_Api Sqlite_Correct
begin

text \<open>
  \<open>src/core/permutive_bus.rs\<close>: the bus the program runs on. A key with a lifetime lives in the
  transient tier (a \<open>Tric\<close>), a key without one in the persistent tier (a \<open>SqliteBus\<close>); a
  persistent key that is read is cached in the transient tier for sixty seconds. The invariant is
  that the two tiers agree on the keys they share; under it the pair is, for its clients, one
  map with lifetimes: the bus contract, proved from the contracts of the two tiers.
\<close>

record 'd permutive =
  pm_transient :: tric
  pm_persistent :: "'d sqlite_bus"
  pm_base_dir :: bytes
  pm_instance :: bytes
  pm_slot :: nat

definition cache_promotion_seconds :: u64 where
  "cache_promotion_seconds = 60"

definition on_transient :: "(tric, 'a) op \<Rightarrow> ('d permutive, 'a) op" where
  "on_transient = op_on pm_transient (\<lambda>t s. s\<lparr>pm_transient := t\<rparr>)"

definition on_persistent :: "('d sqlite_bus, 'a) op \<Rightarrow> ('d permutive, 'a) op" where
  "on_persistent = op_on pm_persistent (\<lambda>t s. s\<lparr>pm_persistent := t\<rparr>)"

section \<open>Creation\<close>

definition registry_entry :: "bytes \<Rightarrow> nat \<Rightarrow> bytes \<times> bytes" where
  "registry_entry inst slot_id =
     (str ''_instance:'' @ inst @ str ''_'' @ dec_nat slot_id,
      if slot_id = 0 then str ''active'' else str ''clone:'' @ inst @ str ''_'' @ dec_nat 0)"

definition write_registry :: "'d sqlite \<Rightarrow> ('d permutive, unit) op" where
  "write_registry eng =
     op_bind (op_get (\<lambda>s. (find_instance_slots eng (pm_base_dir s) (pm_instance s) (sb_disk (pm_persistent s)),
       pm_instance s))) (\<lambda>(slots, inst).
     op_each (\<lambda>(slot_id, _).
       case registry_entry inst slot_id of (key, origin) \<Rightarrow> on_transient (tric_write_value key origin)) slots)"

definition create_permutive_bus ::
  "'d sqlite \<Rightarrow> (nat \<Rightarrow> instant) \<Rightarrow> bytes \<Rightarrow> bytes \<Rightarrow> nat \<Rightarrow> 'd \<Rightarrow> 'd permutive outcome" where
  "create_permutive_bus eng clock base_dir inst slot d =
     (case create_sqlite_bus eng base_dir inst slot d of
        Ret persistent \<Rightarrow>
          (case write_registry eng
              \<lparr>pm_transient = create_tric clock, pm_persistent = persistent,
               pm_base_dir = base_dir, pm_instance = inst, pm_slot = slot\<rparr> of
             (Ret _, bus) \<Rightarrow> Ret bus
           | (Panicked, _) \<Rightarrow> Panicked
           | (Exited c, _) \<Rightarrow> Exited c)
      | Panicked \<Rightarrow> Panicked
      | Exited c \<Rightarrow> Exited c)"

section \<open>The bus methods\<close>

definition permutive_read_value :: "'d sqlite \<Rightarrow> bytes \<Rightarrow> ('d permutive, bytes option) op" where
  "permutive_read_value eng key =
     op_bind (on_transient (tric_read_value key)) (\<lambda>cached.
     case cached of
       Some value \<Rightarrow> op_ret (Some value)
     | None \<Rightarrow>
         op_bind (on_persistent (sqlite_read_value eng key)) (\<lambda>stored.
         case stored of
           None \<Rightarrow> op_ret None
         | Some value \<Rightarrow>
             op_bind (on_transient (tric_write_value key value)) (\<lambda>_.
             op_bind (on_transient (tric_write_ttl key (from_secs cache_promotion_seconds))) (\<lambda>_.
             op_ret (Some value)))))"

definition permutive_write_value :: "'d sqlite \<Rightarrow> bytes \<Rightarrow> bytes \<Rightarrow> ('d permutive, unit) op" where
  "permutive_write_value eng key value =
     op_bind (on_persistent (sqlite_write_value eng key value)) (\<lambda>_.
     on_transient (tric_delete_value key))"

definition permutive_delete_value :: "'d sqlite \<Rightarrow> bytes \<Rightarrow> ('d permutive, unit) op" where
  "permutive_delete_value eng key =
     op_bind (on_transient (tric_delete_value key)) (\<lambda>_.
     on_persistent (sqlite_delete_value eng key))"

definition permutive_delete_value_if_match :: "'d sqlite \<Rightarrow> bytes \<Rightarrow> bytes \<Rightarrow> ('d permutive, bool) op" where
  "permutive_delete_value_if_match eng key expected =
     op_bind (on_transient (tric_delete_value_if_match key expected)) (\<lambda>transient_match.
     op_bind (on_persistent (sqlite_delete_value_if_match eng key expected)) (\<lambda>persistent_match.
     op_ret (transient_match \<or> persistent_match)))"

definition permutive_write_ttl :: "'d sqlite \<Rightarrow> bytes \<Rightarrow> duration \<Rightarrow> ('d permutive, unit) op" where
  "permutive_write_ttl eng key duration =
     op_bind (on_persistent (sqlite_read_value eng key)) (\<lambda>stored.
     op_bind (case stored of
         Some value \<Rightarrow>
           op_bind (on_persistent (sqlite_delete_value eng key)) (\<lambda>_.
           on_transient (tric_write_value key value))
       | None \<Rightarrow> op_ret ()) (\<lambda>_.
     on_transient (tric_write_ttl key duration)))"

definition permutive_write_value_with_ttl :: "'d sqlite \<Rightarrow> bytes \<Rightarrow> bytes \<Rightarrow> duration \<Rightarrow> ('d permutive, unit) op" where
  "permutive_write_value_with_ttl eng key value duration =
     op_bind (on_persistent (sqlite_delete_value eng key)) (\<lambda>_.
     on_transient (tric_write_value_with_ttl key value duration))"

definition permutive_read_ttl_remaining :: "bytes \<Rightarrow> ('d permutive, duration option) op" where
  "permutive_read_ttl_remaining key = on_transient (tric_read_ttl_remaining key)"

definition merge_tiers :: "(bytes \<times> bytes) list \<Rightarrow> (bytes \<times> bytes) list \<Rightarrow> (bytes \<times> bytes) list" where
  "merge_tiers transient_results persistent_results =
     (let transient_keys = fst ` set transient_results
      in sort_key fst (transient_results @ filter (\<lambda>(key, _). key \<notin> transient_keys) persistent_results))"

definition permutive_find_by_prefix :: "'d sqlite \<Rightarrow> bytes \<Rightarrow> ('d permutive, (bytes \<times> bytes) list) op" where
  "permutive_find_by_prefix eng pre =
     op_bind (on_transient (tric_find_by_prefix pre)) (\<lambda>transient_results.
     op_bind (on_persistent (sqlite_find_by_prefix eng pre)) (\<lambda>persistent_results.
     op_ret (merge_tiers transient_results persistent_results)))"

definition permutive_bus :: "'d sqlite \<Rightarrow> 'd permutive data_bus" where
  "permutive_bus eng = \<lparr>
     bus_read_value = permutive_read_value eng,
     bus_write_value = permutive_write_value eng,
     bus_delete_value = permutive_delete_value eng,
     bus_delete_value_if_match = permutive_delete_value_if_match eng,
     bus_write_ttl = permutive_write_ttl eng,
     bus_write_value_with_ttl = permutive_write_value_with_ttl eng,
     bus_read_ttl_remaining = permutive_read_ttl_remaining,
     bus_find_by_prefix = permutive_find_by_prefix eng\<rparr>"

section \<open>Invariant and view\<close>

definition permutive_now :: "'d permutive \<Rightarrow> instant" where
  "permutive_now P = tric_now (pm_transient P)"

text \<open>The transient tier hides the persistent one.\<close>

definition permutive_view :: "'d sqlite \<Rightarrow> 'd permutive \<Rightarrow> instant \<Rightarrow> bytes \<Rightarrow> bytes option" where
  "permutive_view eng P t = sqlite_view eng (pm_persistent P) t ++ tric_view (pm_transient P) t"

definition tiers_agree :: "(bytes \<Rightarrow> bytes option) \<Rightarrow> (bytes \<Rightarrow> bytes option) \<Rightarrow> bool" where
  "tiers_agree m n \<longleftrightarrow> (\<forall>k v w. m k = Some v \<longrightarrow> n k = Some w \<longrightarrow> v = w)"

definition permutive_inv :: "'d sqlite \<Rightarrow> 'd permutive \<Rightarrow> bool" where
  "permutive_inv eng P \<longleftrightarrow>
     tric_inv (pm_transient P) \<and> sqlite_inv eng (pm_persistent P)
   \<and> tiers_agree (tric_view (pm_transient P) (permutive_now P)) (sqlite_view eng (pm_persistent P) 0)"

abbreviation tric_stepped :: "tric \<Rightarrow> tric \<Rightarrow> (instant \<Rightarrow> (bytes \<Rightarrow> bytes option) \<Rightarrow> bytes \<Rightarrow> bytes option) \<Rightarrow> bool" where
  "tric_stepped \<equiv> bus_step tric_inv tric_now tric_view"

abbreviation sqlite_stepped :: "'d sqlite \<Rightarrow> 'd sqlite_bus \<Rightarrow> 'd sqlite_bus \<Rightarrow>
    (instant \<Rightarrow> (bytes \<Rightarrow> bytes option) \<Rightarrow> bytes \<Rightarrow> bytes option) \<Rightarrow> bool" where
  "sqlite_stepped eng \<equiv> bus_step (sqlite_inv eng) sqlite_now (sqlite_view eng)"

abbreviation permutive_stepped :: "'d sqlite \<Rightarrow> 'd permutive \<Rightarrow> 'd permutive \<Rightarrow>
    (instant \<Rightarrow> (bytes \<Rightarrow> bytes option) \<Rightarrow> bytes \<Rightarrow> bytes option) \<Rightarrow> bool" where
  "permutive_stepped eng \<equiv> bus_step (permutive_inv eng) permutive_now (permutive_view eng)"

lemma sqlite_view_time: "sqlite_view eng S t = sqlite_view eng S 0"
  by (simp add: sqlite_view_def fun_eq_iff)

lemma tiers_agree_upd:
  "tiers_agree m n \<Longrightarrow> tiers_agree (m(k := None)) (n(k := x))"
  "tiers_agree m n \<Longrightarrow> tiers_agree (m(k := x)) (n(k := None))"
  by (auto simp: tiers_agree_def)

lemma merge_upd:
  "(n :: bytes \<Rightarrow> bytes option)(k := x) ++ m(k := None) = (n ++ m)(k := x)"
  "n(k := None) ++ m(k := x) = (n ++ m)(k := x)"
  by (auto simp: fun_eq_iff map_add_def split: option.split)

lemma tiers_agree_later:
  assumes "permutive_inv eng P" and "permutive_now P \<le> t"
  shows "tiers_agree (tric_view (pm_transient P) t) (sqlite_view eng (pm_persistent P) t)"
  using assms tric_view_antimono[OF assms(2), of "pm_transient P"]
  unfolding permutive_inv_def tiers_agree_def sqlite_view_time[of eng _ t] by blast

text \<open>A step of each tier is a step of the pair, if afterwards the tiers agree.\<close>

lemma permutive_step:
  assumes inv: "permutive_inv eng P"
    and t: "tric_stepped (pm_transient P) (pm_transient P') f"
    and p: "sqlite_stepped eng (pm_persistent P) (pm_persistent P') g"
    and upd: "\<And>t m n. permutive_now P' \<le> t \<Longrightarrow> m = tric_view (pm_transient P) t \<Longrightarrow>
      n = sqlite_view eng (pm_persistent P) t \<Longrightarrow> tiers_agree m n \<Longrightarrow>
      tiers_agree (f t m) (g t n) \<and> g t n ++ f t m = upd t (n ++ m)"
  shows "permutive_stepped eng P P' upd"
proof -
  have le: "permutive_now P \<le> permutive_now P'"
    using t by (simp add: bus_step_def permutive_now_def)
  have view: "tric_view (pm_transient P') u = f u (tric_view (pm_transient P) u)"
    "sqlite_view eng (pm_persistent P') u = g u (sqlite_view eng (pm_persistent P) u)" if "permutive_now P' \<le> u" for u
    using t p that by (simp_all add: bus_step_def sqlite_now_def permutive_now_def)
  have both: "tiers_agree (tric_view (pm_transient P') u) (sqlite_view eng (pm_persistent P') u)
      \<and> permutive_view eng P' u = upd u (permutive_view eng P u)" if u: "permutive_now P' \<le> u" for u
    using upd[OF u refl refl tiers_agree_later[OF inv]] le u
    by (simp add: view[OF u] permutive_view_def)
  have "permutive_inv eng P'"
    using t p both[of "permutive_now P'"]
    by (simp add: permutive_inv_def bus_step_def sqlite_view_time[of eng _ "permutive_now P'"])
  with both le show ?thesis by (simp add: bus_step_def)
qed

lemma permutive_quiet:
  assumes "permutive_inv eng P" and "tric_stepped (pm_transient P) (pm_transient P') (\<lambda>t m. m)"
    and "sqlite_stepped eng (pm_persistent P) (pm_persistent P') (\<lambda>t m. m)"
  shows "permutive_stepped eng P P' (\<lambda>t m. m)"
  by (rule permutive_step[OF assms]) simp

section \<open>What each method does\<close>

text \<open>The contracts of the two tiers, on the names of their operations.\<close>

lemma tric_bus_simps:
  "bus_read_value tric_bus = tric_read_value" "bus_write_value tric_bus = tric_write_value"
  "bus_delete_value tric_bus = tric_delete_value"
  "bus_delete_value_if_match tric_bus = tric_delete_value_if_match"
  "bus_write_ttl tric_bus = tric_write_ttl" "bus_write_value_with_ttl tric_bus = tric_write_value_with_ttl"
  "bus_read_ttl_remaining tric_bus = tric_read_ttl_remaining"
  "bus_find_by_prefix tric_bus = tric_find_by_prefix"
  by (simp_all add: tric_bus_def)

lemmas tb_read = tb.read_law[unfolded tric_bus_simps]
lemmas tb_write = tb.write_law[OF _ TrueI, unfolded tric_bus_simps]
lemmas tb_delete = tb.delete_law[unfolded tric_bus_simps]
lemmas tb_cas = tb.cas_law[unfolded tric_bus_simps]
lemmas tb_remaining = tb.remaining_law[unfolded tric_bus_simps]
lemmas tb_find = tb.find_law[unfolded tric_bus_simps]
lemmas tb_write_ttl = tb.write_ttl_law[unfolded tric_bus_simps]
lemmas tb_write_with_ttl = tb.write_with_ttl_law[unfolded tric_bus_simps]
lemmas sq_read = sq.read_law[unfolded sqlite_bus_simps]
lemmas sq_write = sq.write_law[unfolded sqlite_bus_simps]
lemmas sq_delete = sq.delete_law[unfolded sqlite_bus_simps]
lemmas sq_cas = sq.cas_law[unfolded sqlite_bus_simps]
lemmas sq_find = sq.find_law[unfolded sqlite_bus_simps]

lemma tb_write_ttl_value:
  assumes "tric_inv T" and "wire_duration d" and "tric_view T (tric_now T) k = x"
  shows "returns (tric_write_ttl k d) T (\<lambda>_ T'. \<exists>b. tric_now T \<le> b \<and> b \<le> tric_now T' \<and>
    tric_stepped T T' (\<lambda>t m. m(k := if t < b + d then x else None)))"
  unfolding assms(3)[symmetric] by (rule tb_write_ttl[OF assms(1,2)])

lemma permutive_invD:
  assumes "permutive_inv eng P"
  shows "tric_inv (pm_transient P)" and "sqlite_inv eng (pm_persistent P)"
  using assms by (simp_all add: permutive_inv_def)

lemma stepped_inv:
  "tric_stepped T T' f \<Longrightarrow> tric_inv T'"
  "sqlite_stepped eng S S' g \<Longrightarrow> sqlite_inv eng S'"
  by (simp_all add: bus_step_def)

lemma permutive_view_now:
  "permutive_view eng P (permutive_now P) k =
    (case tric_view (pm_transient P) (tric_now (pm_transient P)) k of
       Some v \<Rightarrow> Some v | None \<Rightarrow> sqlite_view eng (pm_persistent P) (sqlite_now (pm_persistent P)) k)"
  by (simp add: permutive_view_def permutive_now_def map_add_def sqlite_view_time[of eng _ "tric_now (pm_transient P)"]
      sqlite_view_time[of eng _ "sqlite_now (pm_persistent P)"] split: option.split)

lemma permutive_write_value_spec:
  assumes inv: "permutive_inv eng P" and key: "storable_key k"
  shows "returns (permutive_write_value eng k v) P (\<lambda>_ P'. permutive_stepped eng P P' (\<lambda>t m. m(k \<mapsto> v)))"
  unfolding permutive_write_value_def on_persistent_def on_transient_def returns_bind returns_on
proof (rule returns_mono[OF sq_write[OF permutive_invD(2)[OF inv] key]])
  fix u S'
  assume p: "sqlite_stepped eng (pm_persistent P) S' (\<lambda>t m. m(k \<mapsto> v))"
  let ?P = "P\<lparr>pm_persistent := S'\<rparr>"
  show "returns (tric_delete_value k) (pm_transient ?P)
      (\<lambda>_ T'. permutive_stepped eng P (?P\<lparr>pm_transient := T'\<rparr>) (\<lambda>t m. m(k \<mapsto> v)))"
  proof (rule returns_mono, rule tb_delete)
    show "tric_inv (pm_transient ?P)" using permutive_invD(1)[OF inv] by simp
    fix u T'
    assume t: "tric_stepped (pm_transient ?P) T' (\<lambda>t m. m(k := None))"
    show "permutive_stepped eng P (?P\<lparr>pm_transient := T'\<rparr>) (\<lambda>t m. m(k \<mapsto> v))"
      using t p by (intro permutive_step[OF inv, where f = "\<lambda>t m. m(k := None)" and g = "\<lambda>t m. m(k \<mapsto> v)"])
        (simp_all add: tiers_agree_upd merge_upd)
  qed
qed

lemma permutive_delete_value_spec:
  assumes inv: "permutive_inv eng P"
  shows "returns (permutive_delete_value eng k) P (\<lambda>_ P'. permutive_stepped eng P P' (\<lambda>t m. m(k := None)))"
  unfolding permutive_delete_value_def on_persistent_def on_transient_def returns_bind returns_on
proof (rule returns_mono[OF tb_delete[OF permutive_invD(1)[OF inv]]])
  fix u T'
  assume t: "tric_stepped (pm_transient P) T' (\<lambda>t m. m(k := None))"
  let ?P = "P\<lparr>pm_transient := T'\<rparr>"
  show "returns (sqlite_delete_value eng k) (pm_persistent ?P)
      (\<lambda>_ S'. permutive_stepped eng P (?P\<lparr>pm_persistent := S'\<rparr>) (\<lambda>t m. m(k := None)))"
  proof (rule returns_mono, rule sq_delete)
    show "sqlite_inv eng (pm_persistent ?P)" using permutive_invD(2)[OF inv] by simp
    fix u S'
    assume p: "sqlite_stepped eng (pm_persistent ?P) S' (\<lambda>t m. m(k := None))"
    show "permutive_stepped eng P (?P\<lparr>pm_persistent := S'\<rparr>) (\<lambda>t m. m(k := None))"
      using t p by (intro permutive_step[OF inv, where f = "\<lambda>t m. m(k := None)" and g = "\<lambda>t m. m(k := None)"])
        (simp_all add: tiers_agree_upd merge_upd)
  qed
qed

lemma permutive_write_value_with_ttl_spec:
  assumes inv: "permutive_inv eng P" and d: "wire_duration d"
  shows "returns (permutive_write_value_with_ttl eng k v d) P (\<lambda>_ P'.
    \<exists>b. permutive_now P \<le> b \<and> b \<le> permutive_now P' \<and>
      permutive_stepped eng P P' (\<lambda>t m. m(k := if t < b + d then Some v else None)))"
  unfolding permutive_write_value_with_ttl_def on_persistent_def on_transient_def returns_bind returns_on
proof (rule returns_mono[OF sq_delete[OF permutive_invD(2)[OF inv]]])
  fix u S'
  assume p: "sqlite_stepped eng (pm_persistent P) S' (\<lambda>t m. m(k := None))"
  let ?P = "P\<lparr>pm_persistent := S'\<rparr>"
  show "returns (tric_write_value_with_ttl k v d) (pm_transient ?P) (\<lambda>_ T'.
      \<exists>b. permutive_now P \<le> b \<and> b \<le> permutive_now (?P\<lparr>pm_transient := T'\<rparr>) \<and>
        permutive_stepped eng P (?P\<lparr>pm_transient := T'\<rparr>) (\<lambda>t m. m(k := if t < b + d then Some v else None)))"
  proof (rule returns_mono, rule tb_write_with_ttl[OF _ d], goal_cases)
    case 1 show ?case using permutive_invD(1)[OF inv] by simp
  next
    case (2 u T')
    then obtain b where b: "tric_now (pm_transient ?P) \<le> b" "b \<le> tric_now T'"
      and t: "tric_stepped (pm_transient ?P) T' (\<lambda>t m. m(k := if t < b + d then Some v else None))"
      by (elim exE conjE)
    show ?case
      using b t p by (intro exI[of _ b] conjI permutive_step[OF inv,
            where f = "\<lambda>t m. m(k := if t < b + d then Some v else None)" and g = "\<lambda>t m. m(k := None)"])
        (simp_all add: tiers_agree_upd merge_upd permutive_now_def)
  qed
qed

text \<open>Reading, with the promotion of a persistent value into the cache.\<close>

lemma permutive_promote:
  assumes inv: "permutive_inv eng P" and t: "tric_stepped (pm_transient P) (pm_transient P') (\<lambda>t m. m)"
    and p: "sqlite_stepped eng (pm_persistent P) (pm_persistent P') (\<lambda>t m. m)"
    and v: "sqlite_view eng (pm_persistent P) 0 k = Some v" and d: "wire_duration d"
  shows "returns (op_bind (on_transient (tric_write_value k v)) (\<lambda>_. on_transient (tric_write_ttl k d))) P'
    (\<lambda>_ P''. permutive_stepped eng P P'' (\<lambda>t m. m))"
  unfolding on_transient_def returns_bind returns_on
proof (rule returns_mono[OF tb_write[OF stepped_inv(1)[OF t]]])
  fix u T1
  assume t1: "tric_stepped (pm_transient P') T1 (\<lambda>t m. m(k \<mapsto> v))"
  let ?P1 = "P'\<lparr>pm_transient := T1\<rparr>"
  have t1': "tric_stepped (pm_transient P) T1 (\<lambda>t m. m(k \<mapsto> v))"
    using bus_step_trans[OF t t1] by simp
  have v1: "tric_view T1 (tric_now T1) k = Some v"
    using t1 by (simp add: bus_step_def)
  show "returns (tric_write_ttl k d) (pm_transient ?P1)
      (\<lambda>_ T2. permutive_stepped eng P (?P1\<lparr>pm_transient := T2\<rparr>) (\<lambda>t m. m))"
  proof (rule returns_mono, rule tb_write_ttl_value[OF _ d, where x = "Some v"], goal_cases)
    case 1 show ?case using stepped_inv(1)[OF t1] by simp
  next
    case 2 show ?case using v1 by simp
  next
    case (3 u T2)
    then obtain b where t2: "tric_stepped T1 T2 (\<lambda>t m. m(k := if t < b + d then Some v else None))"
      by auto
    note t2' = bus_step_trans[OF t1' t2]
    show ?case
    proof (rule permutive_step[OF inv])
      show "tric_stepped (pm_transient P) (pm_transient (?P1\<lparr>pm_transient := T2\<rparr>))
          (\<lambda>t m. m(k := if t < b + d then Some v else None))"
        using t2' by simp
      show "sqlite_stepped eng (pm_persistent P) (pm_persistent (?P1\<lparr>pm_transient := T2\<rparr>)) (\<lambda>t m. m)"
        using p by simp
      fix t m n
      assume n: "n = sqlite_view eng (pm_persistent P) t" and agree: "tiers_agree m n"
      have nk: "n k = Some v"
        unfolding n sqlite_view_time[of eng "pm_persistent P" t] by (rule v)
      have mk: "m k = None \<or> m k = Some v"
        using agree nk by (cases "m k") (auto simp: tiers_agree_def)
      show "tiers_agree (m(k := if t < b + d then Some v else None)) n \<and>
          n ++ m(k := if t < b + d then Some v else None) = n ++ m"
        using agree nk mk by (auto simp: tiers_agree_def fun_eq_iff map_add_def split: option.split)
    qed
  qed
qed

lemma wire_cache_promotion: "wire_duration (from_secs cache_promotion_seconds)"
  by (simp add: wire_duration_def from_secs_def cache_promotion_seconds_def)

lemma permutive_read_value_spec:
  assumes inv: "permutive_inv eng P"
  shows "returns (permutive_read_value eng k) P (\<lambda>r P'. r = permutive_view eng P (permutive_now P) k
    \<and> permutive_stepped eng P P' (\<lambda>t m. m))"
  unfolding permutive_read_value_def on_transient_def returns_bind[of "op_on _ _ (tric_read_value k)"] returns_on
proof (rule returns_mono[OF tb_read[OF permutive_invD(1)[OF inv]]], elim conjE)
  fix r T'
  assume r: "r = tric_view (pm_transient P) (tric_now (pm_transient P)) k"
    and t: "tric_stepped (pm_transient P) T' (\<lambda>t m. m)"
  let ?P = "P\<lparr>pm_transient := T'\<rparr>"
  let ?Q = "\<lambda>r P'. r = permutive_view eng P (permutive_now P) k \<and> permutive_stepped eng P P' (\<lambda>t m. m)"
  show "returns (case r of Some value \<Rightarrow> op_ret (Some value)
     | None \<Rightarrow> op_bind (on_persistent (sqlite_read_value eng k)) (\<lambda>stored. case stored of
         None \<Rightarrow> op_ret None
       | Some value \<Rightarrow>
           op_bind (op_on pm_transient (\<lambda>t s. s\<lparr>pm_transient := t\<rparr>) (tric_write_value k value)) (\<lambda>_.
           op_bind (op_on pm_transient (\<lambda>t s. s\<lparr>pm_transient := t\<rparr>)
             (tric_write_ttl k (from_secs cache_promotion_seconds))) (\<lambda>_.
           op_ret (Some value))))) ?P ?Q"
  proof (cases r)
    case (Some v)
    then show ?thesis
      using t r sqlite_quiet[OF permutive_invD(2)[OF inv]]
      by (simp add: wp permutive_view_now permutive_quiet[OF inv])
  next
    case None
    have miss: "permutive_view eng P (permutive_now P) k = sqlite_view eng (pm_persistent P) 0 k"
      using None r by (simp add: permutive_view_now sqlite_now_def)
    show ?thesis
      unfolding None option.case returns_bind on_persistent_def returns_on
    proof (rule returns_mono, rule sq_read, goal_cases)
      case 1 show ?case using permutive_invD(2)[OF inv] by simp
    next
      case (2 x S')
      then have x: "x = sqlite_view eng (pm_persistent P) 0 k"
        and p: "sqlite_stepped eng (pm_persistent P) S' (\<lambda>t m. m)"
        by (simp_all add: sqlite_now_def)
      let ?P' = "?P\<lparr>pm_persistent := S'\<rparr>"
      show ?case
      proof (cases x)
        case None
        then show ?thesis using x miss t p by (simp add: wp permutive_quiet[OF inv])
      next
        case (Some v)
        have "returns (op_bind (on_transient (tric_write_value k v)) (\<lambda>_.
            on_transient (tric_write_ttl k (from_secs cache_promotion_seconds)))) ?P'
            (\<lambda>_ P''. permutive_stepped eng P P'' (\<lambda>t m. m))"
          using t p x Some by (intro permutive_promote[OF inv _ _ _ wire_cache_promotion]) simp_all
        then show ?thesis
          using miss unfolding Some option.case x[symmetric] by (simp add: Some on_transient_def wp)
      qed
    qed
  qed
qed

lemma permutive_delete_value_if_match_spec:
  assumes inv: "permutive_inv eng P"
  shows "returns (permutive_delete_value_if_match eng k e) P (\<lambda>r P'.
    r = (permutive_view eng P (permutive_now P) k = Some e) \<and>
    permutive_stepped eng P P' (\<lambda>t m. if r then m(k := None) else m))"
  unfolding permutive_delete_value_if_match_def on_transient_def on_persistent_def returns_bind returns_on
proof (rule returns_mono[OF tb_cas[OF permutive_invD(1)[OF inv]]], elim conjE)
  fix a T'
  assume a: "a = (tric_view (pm_transient P) (tric_now (pm_transient P)) k = Some e)"
    and t: "tric_stepped (pm_transient P) T' (\<lambda>t m. if a then m(k := None) else m)"
  let ?P = "P\<lparr>pm_transient := T'\<rparr>"
  show "returns (sqlite_delete_value_if_match eng k e) (pm_persistent ?P) (\<lambda>b S'.
      returns (op_ret (a \<or> b)) (?P\<lparr>pm_persistent := S'\<rparr>) (\<lambda>r P'.
        r = (permutive_view eng P (permutive_now P) k = Some e) \<and>
        permutive_stepped eng P P' (\<lambda>t m. if r then m(k := None) else m)))"
  proof (rule returns_mono, rule sq_cas, goal_cases)
    case 1 show ?case using permutive_invD(2)[OF inv] by simp
  next
    case (2 b S')
    then have b: "b = (sqlite_view eng (pm_persistent P) 0 k = Some e)"
      by (simp add: sqlite_now_def)
    from 2 have "sqlite_stepped eng (pm_persistent ?P) S' (\<lambda>t m. if b then m(k := None) else m)"
      by (rule conjunct2)
    then have p: "sqlite_stepped eng (pm_persistent P) S' (\<lambda>t m. if b then m(k := None) else m)"
      by simp
    have agree: "tric_view (pm_transient P) (tric_now (pm_transient P)) k = Some v \<Longrightarrow>
        sqlite_view eng (pm_persistent P) 0 k = Some w \<Longrightarrow> v = w" for v w
      using inv by (simp add: permutive_inv_def permutive_now_def tiers_agree_def)
    have r: "(a \<or> b) = (permutive_view eng P (permutive_now P) k = Some e)"
      using agree by (auto simp: a b permutive_view_now sqlite_now_def split: option.splits)
    have "permutive_stepped eng P (?P\<lparr>pm_persistent := S'\<rparr>) (\<lambda>t m. if a \<or> b then m(k := None) else m)"
    proof (rule permutive_step[OF inv])
      show "tric_stepped (pm_transient P) (pm_transient (?P\<lparr>pm_persistent := S'\<rparr>)) (\<lambda>t m. if a then m(k := None) else m)"
        using t by simp
      show "sqlite_stepped eng (pm_persistent P) (pm_persistent (?P\<lparr>pm_persistent := S'\<rparr>)) (\<lambda>t m. if b then m(k := None) else m)"
        using p by simp
      fix t m n
      assume now: "permutive_now (?P\<lparr>pm_persistent := S'\<rparr>) \<le> t" and m: "m = tric_view (pm_transient P) t"
        and n: "n = sqlite_view eng (pm_persistent P) t" and mn: "tiers_agree m n"
      have le: "tric_now (pm_transient P) \<le> t"
        using now t by (simp add: permutive_now_def bus_step_def)
      have n_gone: "a \<Longrightarrow> \<not> b \<Longrightarrow> n k = None"
        using agree[of e] sqlite_view_time[of eng "pm_persistent P" t]
        by (cases "n k") (auto simp: a b n)
      have m_gone: "b \<Longrightarrow> \<not> a \<Longrightarrow> m k = None"
        using agree[of _ e] tric_view_antimono[OF le, of "pm_transient P" k]
        by (cases "m k") (auto simp: a b m)
      show "tiers_agree (if a then m(k := None) else m) (if b then n(k := None) else n) \<and>
          (if b then n(k := None) else n) ++ (if a then m(k := None) else m) =
          (if a \<or> b then (n ++ m)(k := None) else n ++ m)"
        using mn n_gone m_gone by (auto simp: tiers_agree_def fun_eq_iff map_add_def split: option.split)
    qed
    with r show ?case by (simp add: wp)
  qed
qed

text \<open>Setting a lifetime moves a persistent key to the transient tier.\<close>

lemma permutive_write_ttl_spec:
  assumes inv: "permutive_inv eng P" and d: "wire_duration d"
  shows "returns (permutive_write_ttl eng k d) P (\<lambda>_ P'.
    \<exists>b. permutive_now P \<le> b \<and> b \<le> permutive_now P' \<and> permutive_stepped eng P P' (\<lambda>t m.
      m(k := if t < b + d then permutive_view eng P (permutive_now P) k else None)))"
    (is "returns _ _ (\<lambda>_. ?Q)")
  unfolding permutive_write_ttl_def on_persistent_def returns_bind[of "op_on _ _ (sqlite_read_value eng k)"] returns_on
proof (rule returns_mono[OF sq_read[OF permutive_invD(2)[OF inv]]], elim conjE)
  fix x S'
  assume x: "x = sqlite_view eng (pm_persistent P) (sqlite_now (pm_persistent P)) k"
    and p: "sqlite_stepped eng (pm_persistent P) S' (\<lambda>t m. m)"
  let ?P = "P\<lparr>pm_persistent := S'\<rparr>"
  show "returns (op_bind (case x of
         Some value \<Rightarrow> op_bind (op_on pm_persistent (\<lambda>t s. s\<lparr>pm_persistent := t\<rparr>) (sqlite_delete_value eng k))
           (\<lambda>_. on_transient (tric_write_value k value))
       | None \<Rightarrow> op_ret ())
      (\<lambda>_. on_transient (tric_write_ttl k d))) ?P (\<lambda>_. ?Q)"
  proof (cases x)
    case None
    have now: "permutive_view eng P (permutive_now P) k = tric_view (pm_transient P) (tric_now (pm_transient P)) k"
      using None x by (simp add: permutive_view_now split: option.split)
    have "returns (on_transient (tric_write_ttl k d)) ?P (\<lambda>_. ?Q)"
      unfolding now on_transient_def returns_on
    proof (rule returns_mono, rule tb_write_ttl_value[OF _ d,
          where x = "tric_view (pm_transient P) (tric_now (pm_transient P)) k"], goal_cases)
      case 1 show ?case using permutive_invD(1)[OF inv] by simp
    next
      case 2 show ?case by simp
    next
      case (3 u T')
      let ?v = "tric_view (pm_transient P) (tric_now (pm_transient P)) k"
      from 3 obtain b where b: "tric_now (pm_transient P) \<le> b" "b \<le> tric_now T'"
        and t: "tric_stepped (pm_transient P) T' (\<lambda>t m. m(k := if t < b + d then ?v else None))"
        by auto
      have n: "sqlite_view eng (pm_persistent P) t k = None" for t
        using None x sqlite_view_time by metis
      show ?case
        using b t p n by (intro exI[of _ b] conjI permutive_step[OF inv,
            where f = "\<lambda>t m. m(k := if t < b + d then ?v else None)" and g = "\<lambda>t m. m"])
          (auto simp: permutive_now_def tiers_agree_def fun_eq_iff map_add_def split: option.split)
    qed
    then show ?thesis by (simp add: None)
  next
    case (Some v)
    have v: "sqlite_view eng (pm_persistent P) t k = Some v" for t
      using Some x sqlite_view_time by metis
    have now: "permutive_view eng P (permutive_now P) k = Some v"
      using tiers_agree_later[OF inv order.refl] v unfolding permutive_view_def tiers_agree_def
      by (auto simp: map_add_def split: option.split)
    show ?thesis
      unfolding Some option.case op_bind_assoc now on_transient_def returns_bind returns_on
    proof (rule returns_mono, rule sq_delete, goal_cases)
      case 1 show ?case using stepped_inv(2)[OF p] by simp
    next
      case (2 u S2)
      then have p2: "sqlite_stepped eng (pm_persistent P) S2 (\<lambda>t m. m(k := None))"
        using bus_step_trans[OF p, of S2] by simp
      let ?P2 = "?P\<lparr>pm_persistent := S2\<rparr>"
      show ?case
      proof (rule returns_mono, rule tb_write, goal_cases)
        case 1 show ?case using permutive_invD(1)[OF inv] by simp
      next
        case (2 u T1)
        then have t1: "tric_stepped (pm_transient P) T1 (\<lambda>t m. m(k \<mapsto> v))" by simp
        show ?case
        proof (rule returns_mono, rule tb_write_ttl_value[OF _ d, where x = "Some v"], goal_cases)
          case 1 show ?case using stepped_inv(1)[OF t1] by simp
        next
          case 2 show ?case using t1 by (simp add: bus_step_def)
        next
          case (3 u T2)
          then obtain b where b: "tric_now T1 \<le> b" "b \<le> tric_now T2"
            and t2: "tric_stepped T1 T2 (\<lambda>t m. m(k := if t < b + d then Some v else None))"
            by auto
          have le: "tric_now (pm_transient P) \<le> b" using t1 b by (simp add: bus_step_def)
          show ?case
            using b le p2 bus_step_trans[OF t1 t2]
            by (intro exI[of _ b] conjI permutive_step[OF inv,
                where f = "\<lambda>t m. m(k := if t < b + d then Some v else None)" and g = "\<lambda>t m. m(k := None)"])
              (simp_all add: permutive_now_def tiers_agree_upd merge_upd)
        qed
      qed
    qed
  qed
qed

section \<open>Scan and lifetime\<close>

lemma merge_tiers_scan:
  assumes "is_scan m pre r" and "is_scan n pre q"
  shows "is_scan (n ++ m) pre (merge_tiers r q)"
proof -
  have dr: "distinct (map fst r)" and dq: "distinct (map fst q)"
    using assms by (auto simp: is_scan_def strict_sorted_iff)
  let ?all = "r @ filter (\<lambda>(key, _). key \<notin> fst ` set r) q"
  have "distinct (map fst (filter (\<lambda>(key, _). key \<notin> fst ` set r) q))"
    using dq by (simp add: distinct_map_filter)
  moreover have "fst ` set r \<inter> fst ` set (filter (\<lambda>(key, _). key \<notin> fst ` set r) q) = {}"
    by (force simp: image_iff)
  ultimately have "distinct (map fst ?all)"
    using dr by (simp only: map_append distinct_append list.set_map simp_thms)
  then have "sorted_wrt (<) (map fst (sort_key fst ?all))" by (rule sorted_wrt_sort_key)
  moreover have dom_r: "k \<in> fst ` set r \<longleftrightarrow> prefix pre k \<and> m k \<noteq> None" for k
  proof -
    have "k \<in> fst ` set r \<longleftrightarrow> (\<exists>v. (k, v) \<in> set r)" by force
    then show ?thesis using assms(1) by (simp add: is_scan_def)
  qed
  have "(k, v) \<in> set ?all \<longleftrightarrow> prefix pre k \<and> (n ++ m) k = Some v" for k v
  proof -
    have "(k, v) \<in> set ?all \<longleftrightarrow> (k, v) \<in> set r \<or> k \<notin> fst ` set r \<and> (k, v) \<in> set q" by auto
    also have "\<dots> \<longleftrightarrow> prefix pre k \<and> (m k = Some v \<or> m k = None \<and> n k = Some v)"
    proof -
      have "(k, v) \<in> set r \<longleftrightarrow> prefix pre k \<and> m k = Some v" "(k, v) \<in> set q \<longleftrightarrow> prefix pre k \<and> n k = Some v"
        using assms by (simp_all add: is_scan_def)
      then show ?thesis unfolding dom_r by (cases "m k") auto
    qed
    finally show ?thesis by (simp add: map_add_Some_iff disj_commute)
  qed
  ultimately show ?thesis
    unfolding is_scan_def merge_tiers_def Let_def set_sort by simp
qed

lemma permutive_find_by_prefix_spec:
  assumes inv: "permutive_inv eng P"
  shows "returns (permutive_find_by_prefix eng pre) P (\<lambda>r P'.
    is_scan (permutive_view eng P (permutive_now P)) pre r \<and> permutive_stepped eng P P' (\<lambda>t m. m))"
  unfolding permutive_find_by_prefix_def on_transient_def on_persistent_def returns_bind returns_on
proof (rule returns_mono[OF tb_find[OF permutive_invD(1)[OF inv]]], elim conjE)
  fix r T'
  assume r: "is_scan (tric_view (pm_transient P) (tric_now (pm_transient P))) pre r"
    and t: "tric_stepped (pm_transient P) T' (\<lambda>t m. m)"
  let ?P = "P\<lparr>pm_transient := T'\<rparr>"
  show "returns (sqlite_find_by_prefix eng pre) (pm_persistent ?P) (\<lambda>q S'.
      returns (op_ret (merge_tiers r q)) (?P\<lparr>pm_persistent := S'\<rparr>) (\<lambda>r P'.
        is_scan (permutive_view eng P (permutive_now P)) pre r \<and> permutive_stepped eng P P' (\<lambda>t m. m)))"
  proof (rule returns_mono, rule sq_find, goal_cases)
    case 1 show ?case using permutive_invD(2)[OF inv] by simp
  next
    case (2 q S')
    then have q: "is_scan (sqlite_view eng (pm_persistent P) 0) pre q"
      and p: "sqlite_stepped eng (pm_persistent P) S' (\<lambda>t m. m)"
      by (simp_all add: sqlite_now_def)
    have "permutive_view eng P (permutive_now P) =
        sqlite_view eng (pm_persistent P) 0 ++ tric_view (pm_transient P) (tric_now (pm_transient P))"
      unfolding permutive_view_def sqlite_view_time[of eng _ "permutive_now P"] by (simp add: permutive_now_def)
    then show ?case
      using merge_tiers_scan[OF r q] t p by (simp add: wp permutive_quiet[OF inv])
  qed
qed

lemma permutive_read_ttl_remaining_spec:
  assumes inv: "permutive_inv eng P"
  shows "returns (permutive_read_ttl_remaining k) P (\<lambda>r P'.
    (r \<noteq> None \<longrightarrow> permutive_view eng P (permutive_now P) k \<noteq> None) \<and> permutive_stepped eng P P' (\<lambda>t m. m))"
  unfolding permutive_read_ttl_remaining_def on_transient_def returns_on
proof (rule returns_mono[OF tb_remaining[OF permutive_invD(1)[OF inv]]], elim conjE, intro conjI)
  fix r T'
  assume r: "r \<noteq> None \<longrightarrow> tric_view (pm_transient P) (tric_now (pm_transient P)) k \<noteq> None"
    and t: "tric_stepped (pm_transient P) T' (\<lambda>t m. m)"
  show "r \<noteq> None \<longrightarrow> permutive_view eng P (permutive_now P) k \<noteq> None"
    using r by (auto simp: permutive_view_now split: option.split)
  show "permutive_stepped eng P (P\<lparr>pm_transient := T'\<rparr>) (\<lambda>t m. m)"
    using t sqlite_quiet[OF permutive_invD(2)[OF inv]] by (simp add: permutive_quiet[OF inv])
qed

lemma permutive_view_antimono:
  assumes inv: "permutive_inv eng P" and le: "t \<le> t'" and now: "permutive_now P \<le> t"
    and v: "permutive_view eng P t' k = Some v"
  shows "permutive_view eng P t k = Some v"
proof (cases "tric_view (pm_transient P) t' k")
  case (Some w)
  with v have "tric_view (pm_transient P) t' k = Some v" by (simp add: permutive_view_def map_add_def)
  from tric_view_antimono[OF le this] show ?thesis by (simp add: permutive_view_def map_add_def)
next
  case None
  with v have "sqlite_view eng (pm_persistent P) t k = Some v"
    using sqlite_view_time by (metis map_add_dom_app_simps(3) domIff permutive_view_def)
  then show ?thesis
    using tiers_agree_later[OF inv now]
    by (auto simp: permutive_view_def map_add_def tiers_agree_def split: option.split)
qed

section \<open>The contract\<close>

lemma permutive_bus_simps [simp]:
  "bus_read_value (permutive_bus eng) = permutive_read_value eng"
  "bus_write_value (permutive_bus eng) = permutive_write_value eng"
  "bus_delete_value (permutive_bus eng) = permutive_delete_value eng"
  "bus_delete_value_if_match (permutive_bus eng) = permutive_delete_value_if_match eng"
  "bus_write_ttl (permutive_bus eng) = permutive_write_ttl eng"
  "bus_write_value_with_ttl (permutive_bus eng) = permutive_write_value_with_ttl eng"
  "bus_read_ttl_remaining (permutive_bus eng) = permutive_read_ttl_remaining"
  "bus_find_by_prefix (permutive_bus eng) = permutive_find_by_prefix eng"
  by (simp_all add: permutive_bus_def)

lemmas permutive_laws = permutive_read_value_spec permutive_write_value_spec permutive_delete_value_spec
  permutive_delete_value_if_match_spec permutive_read_ttl_remaining_spec permutive_find_by_prefix_spec
  permutive_write_ttl_spec permutive_write_value_with_ttl_spec

interpretation pb: ttl_bus "permutive_bus eng" "permutive_inv eng" permutive_now "permutive_view eng" storable_key
  for eng :: "'d sqlite"
  by (unfold_locales; (unfold permutive_bus_simps)?;
      (rule permutive_laws permutive_view_antimono; assumption))

section \<open>Start-up\<close>

text \<open>
  The registry entries are the only values of the transient tier at start-up; if the persistent
  tier holds no key of that namespace the tiers agree and nothing persistent is hidden.
\<close>

lemma write_registry_spec:
  assumes inv: "permutive_inv eng P"
    and free: "\<And>k. prefix (str ''_instance:'') k \<Longrightarrow> sqlite_view eng (pm_persistent P) 0 k = None"
  shows "returns (write_registry eng) P (\<lambda>_ P'. permutive_inv eng P' \<and> pm_persistent P' = pm_persistent P
    \<and> (\<forall>t k. permutive_now P' \<le> t \<longrightarrow> \<not> prefix (str ''_instance:'') k \<longrightarrow>
         permutive_view eng P' t k = permutive_view eng P t k))"
proof -
  let ?I = "\<lambda>P'. permutive_inv eng P' \<and> pm_persistent P' = pm_persistent P \<and> permutive_now P \<le> permutive_now P'
    \<and> (\<forall>t k. permutive_now P' \<le> t \<longrightarrow> \<not> prefix (str ''_instance:'') k \<longrightarrow>
         permutive_view eng P' t k = permutive_view eng P t k)"
  obtain slots where slots: "find_instance_slots eng (pm_base_dir P) (pm_instance P) (sb_disk (pm_persistent P)) = slots"
    by simp
  have one: "returns (on_transient (tric_write_value key origin)) P1 (\<lambda>_. ?I)"
    if P1: "?I P1" and key: "(key, origin) = registry_entry (pm_instance P) slot" for P1 key origin slot
    unfolding on_transient_def returns_on
  proof (rule returns_mono, rule tb_write, goal_cases)
    case 1 show ?case using P1 permutive_invD(1) by blast
  next
    case (2 u T')
    have pre: "prefix (str ''_instance:'') key" using key by (simp add: registry_entry_def)
    from free[OF pre] have n: "sqlite_view eng (pm_persistent P1) t key = None" for t
      using P1 sqlite_view_time by metis
    have "permutive_stepped eng P1 (P1\<lparr>pm_transient := T'\<rparr>) (\<lambda>t m. m(key \<mapsto> origin))"
      using 2 n sqlite_quiet[OF permutive_invD(2), of eng P1] P1
      by (intro permutive_step[where f = "\<lambda>t m. m(key \<mapsto> origin)" and g = "\<lambda>t m. m"])
        (auto simp: tiers_agree_def)
    then show ?case using P1 pre by (auto simp: bus_step_def)
  qed
  have "returns (op_each (\<lambda>(slot_id, _). case registry_entry (pm_instance P) slot_id of (key, origin) \<Rightarrow>
      on_transient (tric_write_value key origin)) slots) P (\<lambda>_. ?I)"
  proof (rule returns_each[where I = "\<lambda>_. ?I"])
    show "?I P" using inv by simp
    fix x P1
    assume "?I P1"
    then show "returns (case x of (slot_id, _) \<Rightarrow> case registry_entry (pm_instance P) slot_id of (key, origin) \<Rightarrow>
        on_transient (tric_write_value key origin)) P1 (\<lambda>_. ?I)"
      using one[of P1 _ _ "fst x"] by (cases x) (auto split: prod.split)
  qed
  then show ?thesis
    unfolding write_registry_def returns_bind returns_get prod.case slots
    by (rule returns_mono) blast
qed

text \<open>A restart: the new bus on the disk of the old one.\<close>

lemma create_permutive_bus_spec:
  assumes create: "create_sqlite_bus eng base inst slot d = Ret S" and S: "sqlite_inv eng S"
    and clock: "clock_ok clock"
    and free: "\<And>k. prefix (str ''_instance:'') k \<Longrightarrow> sqlite_view eng S 0 k = None"
  shows "\<exists>P. create_permutive_bus eng clock base inst slot d = Ret P \<and> permutive_inv eng P \<and>
    pm_persistent P = S \<and> (\<forall>t k. permutive_now P \<le> t \<longrightarrow> \<not> prefix (str ''_instance:'') k \<longrightarrow>
      permutive_view eng P t k = sqlite_view eng S t k)"
proof -
  let ?P = "\<lparr>pm_transient = create_tric clock, pm_persistent = S, pm_base_dir = base, pm_instance = inst, pm_slot = slot\<rparr>"
  have inv: "permutive_inv eng ?P"
    using S clock by (simp add: permutive_inv_def create_tric_inv tiers_agree_def)
  have view: "permutive_view eng ?P t k = sqlite_view eng S t k" for t k
    by (simp add: permutive_view_def map_add_def)
  obtain P where "write_registry eng ?P = (Ret (), P)" "permutive_inv eng P" "pm_persistent P = S"
    "\<forall>t k. permutive_now P \<le> t \<longrightarrow> \<not> prefix (str ''_instance:'') k \<longrightarrow>
       permutive_view eng P t k = permutive_view eng ?P t k"
    using write_registry_spec[OF inv] free by (auto elim!: returnsE simp del: str_simps)
  then show ?thesis
    by (intro exI[of _ P]) (simp add: create_permutive_bus_def create view del: str_simps)
qed

section \<open>The timed map of a state\<close>

definition tric_abs :: "tric \<Rightarrow> timed_map" where
  "tric_abs T k = map_option (\<lambda>v. (v, bt_get (ttl (tr_store T)) k)) (bt_get (data (tr_store T)) k)"

text \<open>A persistent key has no deadline, whatever the lifetime of its copy in the cache.\<close>

definition permutive_abs :: "'d sqlite \<Rightarrow> 'd permutive \<Rightarrow> timed_map" where
  "permutive_abs eng P k =
     (case sqlite_view eng (pm_persistent P) 0 k of
        Some v \<Rightarrow> Some (v, None)
      | None \<Rightarrow> tric_abs (pm_transient P) k)"

lemma tric_represents: "tric_view T t k = value_at (tric_abs T) t k"
  by (cases "bt_get (data (tr_store T)) k"; cases "bt_get (ttl (tr_store T)) k")
    (auto simp: tric_view_def store_view_def tric_abs_def value_at_def)

lemma permutive_represents:
  assumes "permutive_inv eng P"
  shows "represents permutive_now (permutive_view eng) P (permutive_abs eng P)"
  unfolding represents_def
proof (intro allI impI ext)
  fix t k
  assume "permutive_now P \<le> t"
  note agree = tiers_agree_later[OF assms this]
  show "permutive_view eng P t k = value_at (permutive_abs eng P) t k"
  proof (cases "sqlite_view eng (pm_persistent P) t k")
    case None
    then have "sqlite_view eng (pm_persistent P) 0 k = None" by (metis sqlite_view_time)
    then show ?thesis
      using None by (simp add: permutive_view_def map_add_def permutive_abs_def tric_represents value_at_def
          split: option.split)
  next
    case (Some v)
    then have "sqlite_view eng (pm_persistent P) 0 k = Some v" by (metis sqlite_view_time)
    then have "value_at (permutive_abs eng P) t k = Some v" by (simp add: permutive_abs_def value_at_def)
    then show ?thesis
      using Some agree by (auto simp: permutive_view_def map_add_def tiers_agree_def split: option.split)
  qed
qed

section \<open>A fresh bus\<close>

text \<open>The program just started on an empty directory, with a clock that ticks in seconds.\<close>

definition fresh_permutive :: "mem_disk permutive" where
  "fresh_permutive = \<lparr>pm_transient = create_tric (\<lambda>n. min n 1000 * 1000000000),
     pm_persistent = \<lparr>sb_directory = str ''/d'', sb_databases = [], sb_poisoned = False, sb_disk = []\<rparr>,
     pm_base_dir = str ''/'', pm_instance = str ''d'', pm_slot = 0\<rparr>"

lemma fresh_permutive_inv: "permutive_inv mem_sqlite fresh_permutive"
proof -
  have "clock_ok (\<lambda>n. min n 1000 * 1000000000)"
    by (auto simp: clock_ok_def min_def)
  moreover have "sq_select mem_sqlite p k [] = None" for p k
    by (simp add: mem_sqlite_def mem_table_def)
  ultimately show ?thesis
    by (simp add: permutive_inv_def fresh_permutive_def create_tric_inv sqlite_inv_def mem_sqlite_laws
        tiers_agree_def)
qed

text \<open>A persistent tier with one value.\<close>

definition sample_sqlite :: "mem_disk sqlite_bus" where
  "sample_sqlite = (let dir = instance_dir (str ''/'') (str ''d'') 0; path = db_path dir (str ''a'') in
     \<lparr>sb_directory = dir, sb_databases = [(str ''a'', path)], sb_poisoned = False,
      sb_disk = [(path, [(str ''a:k'', [7])])]\<rparr>)"

lemma sample_namespace: "parse_namespace (str ''a:k'') = str ''a''" "plain_namespace (str ''a'')"
proof -
  have "utf8_valid (str ''a:k'')" "utf8_valid (str ''a'')" by (rule utf8_valid_ascii; auto)+
  then show "parse_namespace (str ''a:k'') = str ''a''" "plain_namespace (str ''a'')"
    by (simp_all add: parse_namespace_def from_utf8_def plain_namespace_def)
qed

lemma sample_sqlite_select:
  "plain_namespace ns \<Longrightarrow> sq_select mem_sqlite (db_path (sb_directory sample_sqlite) ns) k (sb_disk sample_sqlite) =
    (if ns = str ''a'' \<and> k = str ''a:k'' then Some [7] else None)"
  using db_path_inject[OF sample_namespace(2), of ns "instance_dir (str ''/'') (str ''d'') 0"]
  by (auto simp: sample_sqlite_def Let_def mem_sqlite_def mem_table_def bt_get_bt_of simp del: str_simps)

lemma sample_sqlite_listing:
  "db_listing mem_sqlite (sb_directory sample_sqlite) (sb_disk sample_sqlite) = {str ''a.db''}"
proof -
  let ?dir = "sb_directory sample_sqlite"
  have path: "db_path ?dir (str ''a'') = path_base ?dir @ str ''a.db''"
    using plain_path[OF plain_file[OF sample_namespace(2)], of ?dir] by (simp add: db_path_def)
  have "fst ` set (sb_disk sample_sqlite) = {db_path ?dir (str ''a'')}"
    by (simp add: sample_sqlite_def Let_def)
  then show ?thesis
    unfolding path by (auto simp: mem_listing suffix_def)
qed

lemma sample_sqlite_inv: "sqlite_inv mem_sqlite sample_sqlite"
proof -
  have "map_of (sb_databases sample_sqlite) ns = Some p \<longleftrightarrow> ns = str ''a'' \<and> p = db_path (sb_directory sample_sqlite) ns" for ns p
    by (auto simp: sample_sqlite_def Let_def simp del: str_simps)
  then show ?thesis
    using sample_namespace sample_sqlite_listing
    by (auto simp: sqlite_inv_def mem_sqlite_laws sample_sqlite_select simp del: str_simps split: if_splits)
      (simp_all add: sample_sqlite_def Let_def str_def)
qed

lemma sample_sqlite_view: "sqlite_view mem_sqlite sample_sqlite t k = (if k = str ''a:k'' then Some [7] else None)"
proof (cases "storable_key k")
  case True
  then have "plain_namespace (parse_namespace k)" by (simp add: storable_key_def)
  then show ?thesis
    using sample_namespace(1)
    by (auto simp: sqlite_view_storable[OF sample_sqlite_inv True] sample_sqlite_select simp del: str_simps)
next
  case False
  then have "k \<noteq> str ''a:k''" using sample_namespace by (auto simp: storable_key_def simp del: str_simps)
  then show ?thesis using sqlite_view_unstorable[OF sample_sqlite_inv False] by simp
qed

lemma sample_sqlite_restart: "sqlite_restart_laws mem_sqlite (sb_directory sample_sqlite) (sb_disk sample_sqlite)"
proof -
  have create: "fs_create_dir_all mem_sqlite p d = (True, d)" "fs_read_dir mem_sqlite p d \<noteq> None" for p d
    by (simp_all add: mem_sqlite_def)
  have "str ''a.db'' = str ''a'' @ str ''.db''" by simp
  then show ?thesis
    using sample_namespace(2) by (auto simp: sqlite_restart_laws_def create sample_sqlite_listing simp del: str_simps)
qed

text \<open>The two-tier bus over it.\<close>

definition sample_permutive :: "mem_disk permutive" where
  "sample_permutive = fresh_permutive\<lparr>pm_persistent := sample_sqlite\<rparr>"

lemma sample_permutive_inv: "permutive_inv mem_sqlite sample_permutive"
  using fresh_permutive_inv sample_sqlite_inv
  by (simp add: sample_permutive_def permutive_inv_def permutive_now_def tiers_agree_def fresh_permutive_def)

lemma sample_permutive_view:
  "permutive_view mem_sqlite sample_permutive t k = (if k = str ''a:k'' then Some [7] else None)"
  by (simp add: permutive_view_def map_add_def sample_permutive_def fresh_permutive_def sample_sqlite_view del: str_simps)

section \<open>The reported lifetime of a cached key\<close>

definition clock_used :: "tric \<Rightarrow> tric \<Rightarrow> bool" where
  "clock_used T T' \<longleftrightarrow> tr_clock T' = (\<lambda>n. tr_clock T (Suc n))"

lemma clock_used_after: "clock_used T (tric_after T s)"
  by (simp add: clock_used_def tric_after_def)

lemma returns_clock:
  assumes "tric_inv T" and "returns (tric_locked (\<lambda>now. on_store (m now))) T Q"
  shows "returns (tric_locked (\<lambda>now. on_store (m now))) T (\<lambda>r T'. Q r T' \<and> clock_used T T')"
  using assms(2)
  by (auto simp: returns_def tric_locked_eq[OF assms(1)] on_store_after clock_used_after
      split: prod.splits outcome.splits)

lemmas tric_delete_clock = returns_clock[where m = "\<lambda>_. store_delete_value k" for k, folded tric_delete_value_def]
lemmas tric_read_clock = returns_clock[where m = "\<lambda>_. store_read_value k" for k, folded tric_read_value_def]
lemmas tric_write_clock = returns_clock[where m = "\<lambda>_. store_write_value k v" for k v, folded tric_write_value_def]

lemma tric_write_ttl_deadline:
  assumes "tric_inv T" and "wire_duration d" and "tric_view T (tric_now T) k \<noteq> None"
  shows "returns (tric_write_ttl k d) T (\<lambda>_ T'. tric_inv T' \<and> clock_used T T' \<and>
    bt_get (ttl (tr_store T')) k = Some (tric_now T + d))"
  unfolding tric_write_ttl_def
  using assms(1,3) by (intro returns_tric_locked_until[OF assms(1,2)]
      returns_mono[OF store_write_ttl_spec[OF tric_purged_inv[OF assms(1)]]])
    (auto simp: tric_inv_def tric_after_def clock_used_def clock_ok_shift tric_purged_get)

lemma tric_remaining_live:
  assumes "tric_inv T" and "bt_get (ttl (tr_store T)) k = Some e" and "tric_now T < e"
  shows "returns (tric_read_ttl_remaining k) T (\<lambda>r T'. r = Some (e - tric_now T))"
proof -
  have "bt_get (ttl (tric_purged T)) k = Some e"
    using assms by (simp add: get_ttl_purge tric_inv_def)
  then show ?thesis
    using assms(3)
    by (simp add: returns_def tric_read_ttl_remaining_def tric_locked_eq[OF assms(1)] on_store_after
        store_read_ttl_remaining_def checked_duration_since_def op_simps)
qed

lemma clock_used_now: "clock_used T T' \<Longrightarrow> tr_clock T' n = tr_clock T (Suc n)"
  by (simp add: clock_used_def)

text \<open>C23: A key that was written without a lifetime and then read reports a remaining lifetime of up to
  sixty seconds: that of its copy in the cache. \<open>INSPECT\<close>, \<open>DUMP\<close> and the exporters show this
  number as the lifetime of the key, and a restore from a dump gives it to the key.\<close>

theorem persistent_key_reports_lifetime:
  assumes inv: "permutive_inv eng P" and key: "storable_key k"
    and soon: "tr_clock (pm_transient P) 4 < tr_clock (pm_transient P) 3 + from_secs cache_promotion_seconds"
  shows "returns (op_bind (permutive_write_value eng k v) (\<lambda>_. op_bind (permutive_read_value eng k) (\<lambda>_.
      permutive_read_ttl_remaining k))) P
    (\<lambda>r P'. r = Some (tr_clock (pm_transient P) 3 + from_secs cache_promotion_seconds - tr_clock (pm_transient P) 4))"
    (is "returns _ _ ?Q")
proof -
  let ?T = "pm_transient P"
  obtain S1 where S1: "sqlite_write_value eng k v (pm_persistent P) = (Ret (), S1)"
    and p1: "sqlite_stepped eng (pm_persistent P) S1 (\<lambda>t m. m(k \<mapsto> v))"
    using sq_write[OF permutive_invD(2)[OF inv] key, of v] by (auto elim!: returnsE)
  obtain T1 where T1: "tric_delete_value k ?T = (Ret (), T1)"
    and t1: "tric_stepped ?T T1 (\<lambda>t m. m(k := None))" and c1: "clock_used ?T T1"
    using tric_delete_clock[OF permutive_invD(1)[OF inv] tb_delete[OF permutive_invD(1)[OF inv], of k]]
    by (auto elim!: returnsE)
  obtain r2 T2 where T2: "tric_read_value k T1 = (Ret r2, T2)" and r2: "r2 = tric_view T1 (tric_now T1) k"
    and t2: "tric_stepped T1 T2 (\<lambda>t m. m)" and c2: "clock_used T1 T2"
    using tric_read_clock[OF stepped_inv(1)[OF t1] tb_read[OF stepped_inv(1)[OF t1], of k]] by (auto elim!: returnsE)
  have "r2 = None" using t1 r2 by (simp add: bus_step_def)
  obtain S2 where S2: "sqlite_read_value eng k S1 = (Ret (Some v), S2)"
    using sq_read[OF stepped_inv(2)[OF p1], of k] p1 by (auto elim!: returnsE simp: bus_step_def)
  obtain T3 where T3: "tric_write_value k v T2 = (Ret (), T3)"
    and t3: "tric_stepped T2 T3 (\<lambda>t m. m(k \<mapsto> v))" and c3: "clock_used T2 T3"
    using tric_write_clock[OF stepped_inv(1)[OF t2] tb_write[OF stepped_inv(1)[OF t2], of k v]] by (auto elim!: returnsE)
  have "tric_view T3 (tric_now T3) k \<noteq> None" using t3 by (simp add: bus_step_def)
  from tric_write_ttl_deadline[OF stepped_inv(1)[OF t3] wire_cache_promotion this] obtain T4
    where T4: "tric_write_ttl k (from_secs cache_promotion_seconds) T3 = (Ret (), T4)" and i4: "tric_inv T4"
      and c4: "clock_used T3 T4" and e: "bt_get (ttl (tr_store T4)) k = Some (tric_now T3 + from_secs cache_promotion_seconds)"
    by (auto elim!: returnsE)
  have now: "tric_now T3 = tr_clock ?T 3" "tric_now T4 = tr_clock ?T 4"
    using c1 c2 c3 c4 by (simp_all add: tric_now_def clock_used_def numeral_eq_Suc)
  have "returns (tric_read_ttl_remaining k) T4 (\<lambda>r _. r = Some (tr_clock ?T 3 + from_secs cache_promotion_seconds - tr_clock ?T 4))"
    using tric_remaining_live[OF i4 e] soon by (simp add: now)
  then show ?thesis
    using S1 T1 T2 \<open>r2 = None\<close> S2 T3 T4
    by (simp add: returns_def permutive_write_value_def permutive_read_value_def permutive_read_ttl_remaining_def
        on_persistent_def on_transient_def op_on_def op_bind_def op_ret_def split: prod.splits outcome.splits)
qed

lemma persistent_key_reports_lifetime_witness:
  "returns (op_bind (permutive_write_value mem_sqlite (str ''a:k'') [7]) (\<lambda>_.
      op_bind (permutive_read_value mem_sqlite (str ''a:k'')) (\<lambda>_. permutive_read_ttl_remaining (str ''a:k'')))) fresh_permutive
    (\<lambda>r P'. r = Some (tr_clock (pm_transient fresh_permutive) 3 + from_secs cache_promotion_seconds
      - tr_clock (pm_transient fresh_permutive) 4))"
  by (rule persistent_key_reports_lifetime[OF fresh_permutive_inv])
    (auto intro!: ascii_storable simp: fresh_permutive_def create_tric_def from_secs_def cache_promotion_seconds_def)

end
