(* ===== verification/Query.thy ===== *)
theory Query
  imports Codec Permutive_Bus
begin

text \<open>
  \<open>src/modules/query.rs\<close>: the SQL subset, and the chunked answers to scans, which the SQL layer
  and the router build in the same way. The SQL parser (crate \<open>sqlparser\<close>) is not code of the
  repository: it is the parameter \<open>sql_library\<close>, with \<open>parse_sql\<close> and the display of
  expressions. Its syntax tree is modelled by the constructors that the code matches on, one
  constructor standing for all others in each type; names are the text that \<open>to_string\<close> gives.
\<close>

section \<open>Responses\<close>

definition create_ok :: "u32 \<Rightarrow> response" where
  "create_ok request_id = \<lparr>rs_request_id = request_id, rs_opcode = 0x80, rs_payload = []\<rparr>"

definition value_response :: "u32 \<Rightarrow> bytes option \<Rightarrow> response" where
  "value_response request_id r =
     (case r of
        Some value \<Rightarrow> \<lparr>rs_request_id = request_id, rs_opcode = 0x81, rs_payload = u32_to_be_bytes (len_u32 value) @ value\<rparr>
      | None \<Rightarrow> \<lparr>rs_request_id = request_id, rs_opcode = 0x80, rs_payload = []\<rparr>)"

definition scan_chunk :: "u32 \<Rightarrow> u16 \<Rightarrow> nat \<times> (bytes \<times> bytes) \<Rightarrow> response" where
  "scan_chunk request_id pair_total entry =
     (case entry of (chunk_id, (key, value)) \<Rightarrow>
        \<lparr>rs_request_id = request_id, rs_opcode = 0x90,
         rs_payload = u16_to_be_bytes pair_total @ u16_to_be_bytes (of_nat chunk_id)
           @ u32_to_be_bytes (len_u32 key) @ key @ u32_to_be_bytes (len_u32 value) @ value\<rparr>)"

definition scan_end :: "u32 \<Rightarrow> response" where
  "scan_end request_id = \<lparr>rs_request_id = request_id, rs_opcode = 0x91, rs_payload = []\<rparr>"

definition scan_responses :: "u32 \<Rightarrow> (bytes \<times> bytes) list \<Rightarrow> response list" where
  "scan_responses request_id pairs =
     (let pair_total = of_nat (min (length pairs) 65535)
      in map (scan_chunk request_id pair_total) (enumerate 0 (take 65535 pairs)) @ [scan_end request_id])"

definition query_error :: "u32 \<Rightarrow> bytes \<Rightarrow> response" where
  "query_error request_id message = \<lparr>rs_request_id = request_id, rs_opcode = 0xA1, rs_payload = message\<rparr>"

section \<open>The syntax tree\<close>

datatype sql_value = Number bytes | Single_Quoted_String bytes | Double_Quoted_String bytes
  | Null | Boolean bool | Other_Value bytes

datatype sql_expr = Identifier bytes | Value sql_value | Eq_Op sql_expr sql_expr
  | Like (negated: bool) (subject: sql_expr) (pattern: sql_expr) | Other_Expr bytes

datatype table_factor = Table bytes | Other_Factor

datatype set_expr = Select "table_factor list" "sql_expr option" | Values "sql_expr list list" | Other_Set_Expr

datatype column_option = Unique_Option (is_primary: bool) | Other_Option

text \<open>A column with its name, the text of its type and its options.\<close>

datatype column_def = Column_Def bytes bytes "column_option list"

datatype table_constraint = Primary_Key "bytes list" | Foreign_Key "bytes list" bytes "bytes list" | Other_Constraint

datatype statement =
    Query set_expr
  | Insert bytes "set_expr option"
  | Update table_factor "sql_expr list" "sql_expr option"
  | Delete "table_factor list" "sql_expr option"
  | Create_Table bytes "column_def list" "table_constraint list"
  | Other_Statement

record sql_library =
  parse_sql :: "bytes \<Rightarrow> statement list option"
  show_expr :: "sql_expr \<Rightarrow> bytes"

section \<open>Conditions and values\<close>

datatype where_condition = Key_Equals bytes | Key_Like_Prefix bytes | No_Condition | Unsupported

text \<open>
  \<open>ident.value.to_lowercase() == "key"\<close>: besides the ASCII letters the Kelvin sign lowercases to
  a \<open>k\<close>.
\<close>

definition check_key_column :: "sql_expr \<Rightarrow> bool" where
  "check_key_column expr =
     (case expr of
        Identifier ident \<Rightarrow>
          (let rest = (if take 3 ident = [0xE2, 0x84, 0xAA] then drop 3 ident
                       else if take 1 ident = [107] \<or> take 1 ident = [75] then drop 1 ident else [])
           in rest \<in> {[101, 121], [101, 89], [69, 121], [69, 89]})
      | _ \<Rightarrow> False)"

definition parse_string_value :: "sql_expr \<Rightarrow> bytes option" where
  "parse_string_value expr =
     (case expr of
        Value (Single_Quoted_String text) \<Rightarrow> Some text
      | Value (Number number) \<Rightarrow> Some number
      | _ \<Rightarrow> None)"

definition parse_where_condition :: "sql_expr option \<Rightarrow> where_condition" where
  "parse_where_condition selection =
     (case selection of
        None \<Rightarrow> No_Condition
      | Some (Eq_Op left right) \<Rightarrow>
          if check_key_column left then
            (case parse_string_value right of Some v \<Rightarrow> Key_Equals v | None \<Rightarrow> Unsupported)
          else Unsupported
      | Some (Like _ left pat) \<Rightarrow>
          if check_key_column left then
            (case parse_string_value pat of
               Some p \<Rightarrow> if p \<noteq> [] \<and> last p = 37 then Key_Like_Prefix (butlast p) else Unsupported
             | None \<Rightarrow> Unsupported)
          else Unsupported
      | _ \<Rightarrow> Unsupported)"

definition parse_expr_value :: "sql_library \<Rightarrow> sql_expr \<Rightarrow> bytes" where
  "parse_expr_value lib expr =
     (case expr of
        Value (Number number) \<Rightarrow> number
      | Value (Single_Quoted_String text) \<Rightarrow> text
      | Value (Double_Quoted_String text) \<Rightarrow> text
      | Value Null \<Rightarrow> []
      | Value (Boolean b) \<Rightarrow> (if b then str ''true'' else str ''false'')
      | _ \<Rightarrow> show_expr lib expr)"

definition strip_quotes :: "bytes \<Rightarrow> bytes" where
  "strip_quotes name = filter (\<lambda>b. b \<noteq> 96 \<and> b \<noteq> 34) name"

definition parse_single_table_name :: "table_factor \<Rightarrow> bytes option" where
  "parse_single_table_name table =
     (case table of Table name \<Rightarrow> Some (strip_quotes name) | Other_Factor \<Rightarrow> None)"

definition parse_table_name :: "table_factor list \<Rightarrow> bytes option" where
  "parse_table_name from = (case from of [] \<Rightarrow> None | t # _ \<Rightarrow> parse_single_table_name t)"

fun join_lines :: "bytes list \<Rightarrow> bytes" where
  "join_lines [] = []"
| "join_lines [x] = x"
| "join_lines (x # y # xs) = x @ [10] @ join_lines (y # xs)"

section \<open>Statements\<close>

definition parse_select :: "'st data_bus \<Rightarrow> u32 \<Rightarrow> set_expr \<Rightarrow> ('st, response list) op" where
  "parse_select bus request_id body =
     (case body of
        Select from selection \<Rightarrow>
          (case parse_table_name from of
             None \<Rightarrow> op_ret [query_error request_id (str ''missing FROM table'')]
           | Some table_name \<Rightarrow>
               (case parse_where_condition selection of
                  Key_Equals key_value \<Rightarrow>
                    op_bind (bus_read_value bus (table_name @ str '':'' @ key_value)) (\<lambda>r.
                    op_ret [value_response request_id r])
                | Key_Like_Prefix pre \<Rightarrow>
                    op_bind (bus_find_by_prefix bus (table_name @ str '':'' @ pre)) (\<lambda>pairs.
                    op_ret (scan_responses request_id pairs))
                | No_Condition \<Rightarrow>
                    op_bind (bus_find_by_prefix bus (table_name @ str '':'')) (\<lambda>pairs.
                    op_ret (scan_responses request_id pairs))
                | Unsupported \<Rightarrow> op_ret [query_error request_id (str ''unsupported WHERE condition'')]))
      | _ \<Rightarrow> op_ret [query_error request_id (str ''unsupported query form'')])"

definition insert_row :: "sql_library \<Rightarrow> 'st data_bus \<Rightarrow> bytes \<Rightarrow> sql_expr list \<Rightarrow> ('st, unit) op" where
  "insert_row lib bus table_name row =
     (case row of
        [] \<Rightarrow> op_ret ()
      | pk # rest \<Rightarrow>
          bus_write_value bus (table_name @ str '':'' @ parse_expr_value lib pk)
            (join_lines (map (parse_expr_value lib) rest)))"

definition default_schema :: "nat \<Rightarrow> bytes" where
  "default_schema col_count =
     str ''col0:INT:pk'' @ [10] @ concat (map (\<lambda>i. str ''col'' @ dec_nat i @ str '':TEXT'' @ [10]) [1..<col_count])"

definition parse_insert :: "sql_library \<Rightarrow> 'st data_bus \<Rightarrow> u32 \<Rightarrow> bytes \<Rightarrow> set_expr option \<Rightarrow> ('st, response list) op" where
  "parse_insert lib bus request_id name source =
     (let table_name = strip_quotes name; schema_key = str ''_schema:'' @ table_name
      in op_bind (bus_read_value bus schema_key) (\<lambda>schema_data.
         case source of
           Some (Values rows) \<Rightarrow>
             op_bind (op_each (insert_row lib bus table_name) rows) (\<lambda>_.
             op_bind (if schema_data = None \<and> rows \<noteq> []
                      then bus_write_value bus schema_key (default_schema (length (hd rows)))
                      else op_ret ()) (\<lambda>_.
             op_ret [create_ok request_id]))
         | _ \<Rightarrow> op_ret [query_error request_id (str ''INSERT without VALUES'')]))"

definition parse_update :: "sql_library \<Rightarrow> 'st data_bus \<Rightarrow> u32 \<Rightarrow> table_factor \<Rightarrow> sql_expr list \<Rightarrow> sql_expr option \<Rightarrow>
    ('st, response list) op" where
  "parse_update lib bus request_id table assignments selection =
     (case parse_single_table_name table of
        None \<Rightarrow> op_ret [query_error request_id (str ''unsupported UPDATE table'')]
      | Some table_name \<Rightarrow>
          (case parse_where_condition selection of
             Key_Equals key_value \<Rightarrow>
               (let full_key = table_name @ str '':'' @ key_value
                in op_bind (bus_read_value bus full_key) (\<lambda>current.
                   op_bind (if current \<noteq> None \<and> assignments \<noteq> []
                            then bus_write_value bus full_key (join_lines (map (parse_expr_value lib) assignments))
                            else op_ret ()) (\<lambda>_.
                   op_ret [create_ok request_id])))
           | _ \<Rightarrow> op_ret [query_error request_id (str ''UPDATE requires WHERE key = ...'')]))"

definition parse_delete :: "'st data_bus \<Rightarrow> u32 \<Rightarrow> table_factor list \<Rightarrow> sql_expr option \<Rightarrow> ('st, response list) op" where
  "parse_delete bus request_id tables selection =
     (case tables of
        [] \<Rightarrow> op_ret [query_error request_id (str ''DELETE without FROM'')]
      | Other_Factor # _ \<Rightarrow> op_ret [query_error request_id (str ''unsupported DELETE table'')]
      | Table name # _ \<Rightarrow>
          (case parse_where_condition selection of
             Key_Equals key_value \<Rightarrow>
               op_bind (bus_delete_value bus (strip_quotes name @ str '':'' @ key_value)) (\<lambda>_.
               op_ret [create_ok request_id])
           | _ \<Rightarrow> op_ret [query_error request_id (str ''DELETE requires WHERE key = ...'')]))"

definition parse_query :: "sql_library \<Rightarrow> 'st data_bus \<Rightarrow> bytes \<Rightarrow> u32 \<Rightarrow> ('st, response list) op" where
  "parse_query lib bus sql request_id =
     (case parse_sql lib sql of
        None \<Rightarrow> op_ret [query_error request_id (str ''invalid SQL'')]
      | Some [] \<Rightarrow> op_ret [query_error request_id (str ''empty SQL'')]
      | Some (statement # _) \<Rightarrow>
          (case statement of
             Query body \<Rightarrow> parse_select bus request_id body
           | Insert name source \<Rightarrow> parse_insert lib bus request_id name source
           | Update table assignments selection \<Rightarrow> parse_update lib bus request_id table assignments selection
           | Delete tables selection \<Rightarrow> parse_delete bus request_id tables selection
           | _ \<Rightarrow> op_ret [query_error request_id (str ''unsupported SQL statement'')]))"

section \<open>What a client reads from a scan\<close>

text \<open>The reference reader of a chunk: total, number, key and value.\<close>

definition parse_chunk :: "bytes \<Rightarrow> nat \<times> nat \<times> bytes \<times> bytes" where
  "parse_chunk p =
     (let key_length = be_value (take 4 (drop 4 p));
          value_length = be_value (take 4 (drop (8 + key_length) p))
      in (be_value (take 2 p), be_value (take 2 (drop 2 p)),
          take key_length (drop 8 p), take value_length (drop (12 + key_length) p)))"

lemma be_value_u16: "be_value (u16_to_be_bytes w) = unat w"
  using unsigned_less[of w, where ?'a = nat] by (simp add: u16_to_be_bytes_def be_value_be_bytes)

lemma be_value_len: "length f < 2 ^ 32 \<Longrightarrow> be_value (u32_to_be_bytes (len_u32 f)) = length f"
  using unsigned_less[of "len_u32 f", where ?'a = nat]
  by (simp add: u32_to_be_bytes_def be_value_be_bytes unat_len_u32)

lemma parse_chunk_scan_chunk:
  assumes "length k < 2 ^ 32" and "length v < 2 ^ 32" and "i < 65536"
  shows "parse_chunk (rs_payload (scan_chunk request_id n (i, k, v))) = (unat n, i, k, v)"
  using assms by (simp add: parse_chunk_def scan_chunk_def be_value_u16 be_value_len unat_of_nat del: of_nat_add)

text \<open>C21: A scan answer can be read back: its chunks are the pairs in order, numbered from zero, each
  with the number of chunks, up to 65535 of them, and then an end mark; every response carries
  the number of the request.\<close>

theorem scan_responses_decode:
  assumes "\<forall>(k, v) \<in> set pairs. length k < 2 ^ 32 \<and> length v < 2 ^ 32"
  shows "map (parse_chunk \<circ> rs_payload) (butlast (scan_responses request_id pairs)) =
      map (\<lambda>(i, k, v). (min (length pairs) 65535, i, k, v)) (enumerate 0 (take 65535 pairs))
    \<and> map rs_opcode (scan_responses request_id pairs) = replicate (min (length pairs) 65535) 0x90 @ [0x91]
    \<and> map rs_request_id (scan_responses request_id pairs) = replicate (Suc (min (length pairs) 65535)) request_id"
proof -
  let ?n = "min (length pairs) 65535"
  have n: "unat (of_nat ?n :: u16) = ?n" by (simp add: unat_of_nat)
  have "parse_chunk (rs_payload (scan_chunk request_id (of_nat ?n) (i, k, v))) = (?n, i, k, v)"
    if "(i, k, v) \<in> set (enumerate 0 (take 65535 pairs))" for i k v
  proof -
    have i: "i < 65535" and "i < length pairs" and "pairs ! i = (k, v)"
      using that by (auto simp: in_set_enumerate_eq)
    then have "(k, v) \<in> set pairs" by (metis nth_mem)
    with i show ?thesis using assms n by (subst parse_chunk_scan_chunk) auto
  qed
  then have "map (parse_chunk \<circ> rs_payload) (map (scan_chunk request_id (of_nat ?n)) (enumerate 0 (take 65535 pairs))) =
      map (\<lambda>(i, k, v). (?n, i, k, v)) (enumerate 0 (take 65535 pairs))"
    unfolding map_map by (intro map_cong) auto
  moreover have "map rs_opcode (map (scan_chunk request_id (of_nat ?n)) (enumerate 0 (take 65535 pairs))) = replicate ?n 0x90"
    by (intro nth_equalityI) (auto simp: scan_chunk_def split: prod.split)
  moreover have "map rs_request_id (map (scan_chunk request_id (of_nat ?n)) (enumerate 0 (take 65535 pairs))) = replicate ?n request_id"
    by (intro nth_equalityI) (auto simp: scan_chunk_def split: prod.split)
  ultimately show ?thesis
    by (simp add: scan_responses_def Let_def butlast_append scan_end_def replicate_append_same)
qed

definition sample_pairs :: "(bytes \<times> bytes) list" where
  "sample_pairs = [([1], [2]), ([4], [])]"

lemma scan_responses_decode_witness:
  "map (parse_chunk \<circ> rs_payload) (butlast (scan_responses 3 sample_pairs)) =
      map (\<lambda>(i, k, v). (min (length sample_pairs) 65535, i, k, v)) (enumerate 0 (take 65535 sample_pairs))
    \<and> map rs_opcode (scan_responses 3 sample_pairs) = replicate (min (length sample_pairs) 65535) 0x90 @ [0x91]
    \<and> map rs_request_id (scan_responses 3 sample_pairs) = replicate (Suc (min (length sample_pairs) 65535)) 3"
  by (rule scan_responses_decode) (simp add: sample_pairs_def)

section \<open>The effect of a statement\<close>

definition row_key :: "sql_library \<Rightarrow> bytes \<Rightarrow> sql_expr list \<Rightarrow> bytes" where
  "row_key lib table_name row = table_name @ str '':'' @ parse_expr_value lib (hd row)"

fun insert_rows :: "sql_library \<Rightarrow> bytes \<Rightarrow> sql_expr list list \<Rightarrow> (bytes \<Rightarrow> bytes option) \<Rightarrow> bytes \<Rightarrow> bytes option" where
  "insert_rows lib table_name [] m = m"
| "insert_rows lib table_name (row # rows) m =
     insert_rows lib table_name rows
       (if row = [] then m
        else m(row_key lib table_name row \<mapsto> join_lines (map (parse_expr_value lib) (tl row))))"

lemma insert_rows_fun [simp]:
  "insert_rows lib table_name [] = (\<lambda>m. m)" "insert_rows lib table_name [[]] = (\<lambda>m. m)"
  "insert_rows lib table_name [pk # rest] =
     (\<lambda>m. m(row_key lib table_name (pk # rest) \<mapsto> join_lines (map (parse_expr_value lib) rest)))"
  by auto

context kv_bus begin

lemma bus_step_refl: "good s \<Longrightarrow> bus_step good now view s s (\<lambda>t m. m)"
  by (simp add: bus_step_def)

lemma insert_row_spec:
  assumes "good s" and "row \<noteq> [] \<Longrightarrow> storable (row_key lib table_name row)"
  shows "returns (insert_row lib bus table_name row) s (\<lambda>_ s'.
    bus_step good now view s s' (\<lambda>t. insert_rows lib table_name [row]))"
proof (cases row)
  case Nil
  then show ?thesis using bus_step_refl[OF assms(1)] by (simp add: insert_row_def wp)
next
  case (Cons pk rest)
  then have "storable (table_name @ str '':'' @ parse_expr_value lib pk)"
    using assms(2) by (simp add: row_key_def)
  from write_law[OF assms(1) this] show ?thesis
    by (simp add: Cons insert_row_def row_key_def)
qed

lemma insert_rows_spec:
  assumes "good s" and "\<forall>row \<in> set rows. row \<noteq> [] \<longrightarrow> storable (row_key lib table_name row)"
  shows "returns (op_each (insert_row lib bus table_name) rows) s (\<lambda>_ s'.
    bus_step good now view s s' (\<lambda>t. insert_rows lib table_name rows))"
  using assms
proof (induction rows arbitrary: s)
  case Nil
  then show ?case using bus_step_refl by (simp add: wp)
next
  case (Cons row rows)
  show ?case
    unfolding op_each.simps returns_bind
  proof (rule returns_mono[OF insert_row_spec[OF Cons.prems(1)]], goal_cases)
    case 1 then show ?case using Cons.prems(2) by simp
  next
    case (2 u s')
    then have "good s'" by (simp add: bus_step_def)
    show ?case
    proof (rule returns_mono[OF Cons.IH[OF \<open>good s'\<close>]], goal_cases)
      case 1 then show ?case using Cons.prems(2) by simp
    next
      case (2 v s'')
      from bus_step_trans[OF \<open>bus_step good now view s s' (\<lambda>t. insert_rows lib table_name [row])\<close> 2]
      show ?case by (simp add: bus_step_def)
    qed
  qed
qed

lemma parse_insert_spec:
  assumes "good s" and "\<forall>row \<in> set rows. row \<noteq> [] \<longrightarrow> storable (row_key lib (strip_quotes name) row)"
    and "storable (str ''_schema:'' @ strip_quotes name)"
  shows "returns (parse_insert lib bus request_id name (Some (Values rows))) s (\<lambda>rs s'. rs = [create_ok request_id] \<and>
    bus_step good now view s s' (\<lambda>t m.
      let m' = insert_rows lib (strip_quotes name) rows m
      in if view s (now s) (str ''_schema:'' @ strip_quotes name) = None \<and> rows \<noteq> []
         then m'(str ''_schema:'' @ strip_quotes name \<mapsto> default_schema (length (hd rows))) else m'))"
  unfolding parse_insert_def Let_def returns_bind
proof (rule returns_mono[OF read_law[OF assms(1)]], elim conjE)
  let ?t = "strip_quotes name"
  fix r s1
  assume r: "r = view s (now s) (str ''_schema:'' @ ?t)" and s1: "bus_step good now view s s1 (\<lambda>t m. m)"
  then have "good s1" by (simp add: bus_step_def)
  let ?upd = "\<lambda>t m. if view s (now s) (str ''_schema:'' @ ?t) = None \<and> rows \<noteq> []
         then (insert_rows lib ?t rows m)(str ''_schema:'' @ ?t \<mapsto> default_schema (length (hd rows)))
         else insert_rows lib ?t rows m"
  have "returns (op_bind (op_each (insert_row lib bus ?t) rows) (\<lambda>_.
      op_bind (if r = None \<and> rows \<noteq> [] then bus_write_value bus (str ''_schema:'' @ ?t) (default_schema (length (hd rows)))
               else op_ret ()) (\<lambda>_. op_ret [create_ok request_id]))) s1
      (\<lambda>rs s'. rs = [create_ok request_id] \<and> bus_step good now view s s' ?upd)"
    unfolding returns_bind
  proof (rule returns_mono[OF insert_rows_spec[OF \<open>good s1\<close> assms(2)]])
    fix u s2
    assume s2: "bus_step good now view s1 s2 (\<lambda>t. insert_rows lib ?t rows)"
    then have "good s2" by (simp add: bus_step_def)
    have s02: "bus_step good now view s s2 (\<lambda>t. insert_rows lib ?t rows)"
      using bus_step_trans[OF s1 s2] by simp
    show "returns (if r = None \<and> rows \<noteq> [] then bus_write_value bus (str ''_schema:'' @ ?t) (default_schema (length (hd rows)))
               else op_ret ()) s2 (\<lambda>_ s'. returns (op_ret [create_ok request_id]) s'
      (\<lambda>rs s'. rs = [create_ok request_id] \<and> bus_step good now view s s' ?upd))"
    proof (cases "r = None \<and> rows \<noteq> []")
      case True
      have "returns (bus_write_value bus (str ''_schema:'' @ ?t) (default_schema (length (hd rows)))) s2
          (\<lambda>_ s'. bus_step good now view s s' ?upd)"
        using bus_step_trans[OF s02] True r
        by (auto intro!: returns_mono[OF write_law[OF \<open>good s2\<close> assms(3)]] simp del: str_simps)
      with True show ?thesis by (simp add: wp del: str_simps)
    next
      case False
      with s02 r show ?thesis by (auto simp: wp simp del: str_simps)
    qed
  qed
  then show "returns (case Some (Values rows) of Some (Values rows) \<Rightarrow>
             op_bind (op_each (insert_row lib bus ?t) rows) (\<lambda>_.
             op_bind (if r = None \<and> rows \<noteq> []
                      then bus_write_value bus (str ''_schema:'' @ ?t) (default_schema (length (hd rows)))
                      else op_ret ()) (\<lambda>_.
             op_ret [create_ok request_id]))
         | _ \<Rightarrow> op_ret [query_error request_id (str ''INSERT without VALUES'')]) s1
      (\<lambda>rs s'. rs = [create_ok request_id] \<and> bus_step good now view s s' ?upd)"
    by simp
qed

lemma parse_select_key_spec:
  assumes "good s" and "parse_table_name from = Some table_name"
    and "parse_where_condition selection = Key_Equals key_value"
  shows "returns (parse_select bus request_id (Select from selection)) s (\<lambda>rs s'.
    rs = [value_response request_id (view s (now s) (table_name @ str '':'' @ key_value))] \<and>
    bus_step good now view s s' (\<lambda>t m. m))"
  using returns_mono[OF read_law[OF assms(1)]] assms(2,3) by (simp add: parse_select_def wp del: str_simps)

lemma parse_update_spec:
  assumes "good s" and "parse_where_condition selection = Key_Equals key_value"
    and "storable (strip_quotes name @ str '':'' @ key_value)"
  shows "returns (parse_update lib bus request_id (Table name) assignments selection) s (\<lambda>rs s'. rs = [create_ok request_id] \<and>
    bus_step good now view s s' (\<lambda>t m.
      if view s (now s) (strip_quotes name @ str '':'' @ key_value) \<noteq> None \<and> assignments \<noteq> []
      then m(strip_quotes name @ str '':'' @ key_value \<mapsto> join_lines (map (parse_expr_value lib) assignments)) else m))"
proof -
  let ?k = "strip_quotes name @ str '':'' @ key_value" and ?v = "join_lines (map (parse_expr_value lib) assignments)"
  let ?upd = "\<lambda>t m. if view s (now s) ?k \<noteq> None \<and> assignments \<noteq> [] then m(?k \<mapsto> ?v) else m"
  have "returns (op_bind (bus_read_value bus ?k) (\<lambda>current.
      op_bind (if current \<noteq> None \<and> assignments \<noteq> [] then bus_write_value bus ?k ?v else op_ret ()) (\<lambda>_.
      op_ret [create_ok request_id]))) s (\<lambda>rs s'. rs = [create_ok request_id] \<and> bus_step good now view s s' ?upd)"
    unfolding returns_bind
  proof (rule returns_mono[OF read_law[OF assms(1)]], elim conjE)
    fix r s1
    assume r: "r = view s (now s) ?k" and s1: "bus_step good now view s s1 (\<lambda>t m. m)"
    then have "good s1" by (simp add: bus_step_def)
    show "returns (if r \<noteq> None \<and> assignments \<noteq> [] then bus_write_value bus ?k ?v else op_ret ()) s1
        (\<lambda>_ s'. returns (op_ret [create_ok request_id]) s' (\<lambda>rs s'. rs = [create_ok request_id] \<and> bus_step good now view s s' ?upd))"
    proof (cases "r \<noteq> None \<and> assignments \<noteq> []")
      case True
      have "returns (bus_write_value bus ?k ?v) s1 (\<lambda>_ s'. bus_step good now view s s' ?upd)"
        using bus_step_trans[OF s1] True r
        by (auto intro!: returns_mono[OF write_law[OF \<open>good s1\<close> assms(3)]] simp del: str_simps)
      with True show ?thesis by (simp add: wp del: str_simps)
    next
      case False
      with s1 r show ?thesis by (auto simp: wp simp del: str_simps)
    qed
  qed
  then show ?thesis
    using assms(2) by (simp add: parse_update_def parse_single_table_name_def Let_def del: str_simps)
qed

end

section \<open>Properties of the SQL layer\<close>

definition key_condition :: "bytes \<Rightarrow> sql_expr option" where
  "key_condition v = Some (Eq_Op (Identifier (str ''key'')) (Value (Single_Quoted_String v)))"

lemma key_condition_parsed: "parse_where_condition (key_condition v) = Key_Equals v"
  by (simp add: key_condition_def parse_where_condition_def check_key_column_def parse_string_value_def)

text \<open>C22: A row inserted through SQL is what a select by its key returns: the values after the key, one
  on each line.\<close>

theorem sql_insert_then_select:
  assumes inv: "permutive_inv eng P" and row: "storable_key (row_key lib (strip_quotes name) (pk # rest))"
    and schema: "storable_key (str ''_schema:'' @ strip_quotes name)"
    and other: "row_key lib (strip_quotes name) (pk # rest) \<noteq> str ''_schema:'' @ strip_quotes name"
  shows "returns (op_bind (parse_insert lib (permutive_bus eng) i name (Some (Values [pk # rest]))) (\<lambda>_.
      parse_select (permutive_bus eng) i (Select [Table name] (key_condition (parse_expr_value lib pk))))) P
    (\<lambda>responses P'. responses = [value_response i (Some (join_lines (map (parse_expr_value lib) rest)))])"
  unfolding returns_bind
proof (rule returns_mono[OF pb.parse_insert_spec[OF inv _ schema]], goal_cases)
  case 1
  show ?case using row by simp
next
  case (2 rs P1)
  let ?k = "strip_quotes name @ str '':'' @ parse_expr_value lib pk"
  let ?v = "join_lines (map (parse_expr_value lib) rest)"
  have P1: "permutive_inv eng P1" and view: "permutive_view eng P1 (permutive_now P1) ?k = Some ?v"
    using 2 other by (auto simp: bus_step_def Let_def row_key_def simp del: str_simps split: if_splits)
  have table: "parse_table_name [Table name] = Some (strip_quotes name)"
    by (simp add: parse_table_name_def parse_single_table_name_def)
  show ?case
    by (rule returns_mono[OF pb.parse_select_key_spec[OF P1 table key_condition_parsed]]) (simp add: view del: str_simps)
qed

text \<open>A parser that accepts nothing, for the witnesses.\<close>

definition plain_sql :: sql_library where
  "plain_sql = \<lparr>parse_sql = (\<lambda>_. None), show_expr = (\<lambda>_. [])\<rparr>"

lemma sql_insert_then_select_witness:
  "returns (op_bind (parse_insert plain_sql (permutive_bus mem_sqlite) 1 (str ''users'')
      (Some (Values [Value (Number (str ''1'')) # [Value (Single_Quoted_String (str ''ann''))]]))) (\<lambda>_.
      parse_select (permutive_bus mem_sqlite) 1 (Select [Table (str ''users'')]
        (key_condition (parse_expr_value plain_sql (Value (Number (str ''1'')))))))) fresh_permutive
    (\<lambda>responses P'. responses =
      [value_response 1 (Some (join_lines (map (parse_expr_value plain_sql) [Value (Single_Quoted_String (str ''ann''))])))])"
  by (rule sql_insert_then_select[OF fresh_permutive_inv])
    (auto simp: row_key_def strip_quotes_def parse_expr_value_def intro!: ascii_storable)

text \<open>An update by key replaces the whole value of an existing row by the assigned values, also when
  only some of the columns are assigned, and creates no row.\<close>

theorem sql_update_replaces_row:
  assumes inv: "permutive_inv eng P" and key: "storable_key (strip_quotes name @ str '':'' @ v)"
  shows "returns (parse_update lib (permutive_bus eng) i (Table name) assignments (key_condition v)) P (\<lambda>responses P'.
    responses = [create_ok i] \<and> permutive_inv eng P' \<and>
    permutive_view eng P' (permutive_now P') (strip_quotes name @ str '':'' @ v) =
      (if permutive_view eng P (permutive_now P) (strip_quotes name @ str '':'' @ v) \<noteq> None \<and> assignments \<noteq> []
       then Some (join_lines (map (parse_expr_value lib) assignments))
       else permutive_view eng P (permutive_now P') (strip_quotes name @ str '':'' @ v)))"
  by (rule returns_mono[OF pb.parse_update_spec[OF inv key_condition_parsed key]])
    (auto simp: bus_step_def simp del: str_simps)

lemma sql_update_replaces_row_witness:
  "returns (parse_update plain_sql (permutive_bus mem_sqlite) 1 (Table (str ''t'')) [Value Null] (key_condition (str ''1'')))
    fresh_permutive (\<lambda>responses P'. responses = [create_ok 1] \<and> permutive_inv mem_sqlite P' \<and>
    permutive_view mem_sqlite P' (permutive_now P') (strip_quotes (str ''t'') @ str '':'' @ str ''1'') =
      (if permutive_view mem_sqlite fresh_permutive (permutive_now fresh_permutive)
          (strip_quotes (str ''t'') @ str '':'' @ str ''1'') \<noteq> None \<and> [Value Null] \<noteq> []
       then Some (join_lines (map (parse_expr_value plain_sql) [Value Null]))
       else permutive_view mem_sqlite fresh_permutive (permutive_now P') (strip_quotes (str ''t'') @ str '':'' @ str ''1'')))"
  by (rule sql_update_replaces_row[OF fresh_permutive_inv]) (auto simp: strip_quotes_def intro!: ascii_storable)

text \<open>\<open>NOT LIKE\<close> selects the same rows as \<open>LIKE\<close>: the negation in the syntax tree is not looked at.\<close>

theorem sql_not_like_is_like:
  "parse_select bus i (Select from (Some (Like True left pat))) = parse_select bus i (Select from (Some (Like False left pat)))"
proof -
  have "parse_where_condition (Some (Like True left pat)) = parse_where_condition (Some (Like False left pat))"
    by (simp add: parse_where_condition_def)
  then show ?thesis by (simp only: parse_select_def set_expr.case)
qed

end
