(* ===== verification/Metrics.thy ===== *)
theory Metrics
  imports Data_Bus
begin

text \<open>
  \<open>src/modules/metrics.rs\<close>: the atomic 64-bit counters, wrapping as \<open>fetch_add\<close> and \<open>fetch_sub\<close>
  do. Each counter is atomic by itself; a call on two counters is two atomic steps. What a run of calls
  leaves in the counters is stated for the list of calls in the order in which they took effect, and
  holds when no call is half done; a reader may come between the two steps of \<open>record_latency\<close>.
\<close>

record metrics =
  requests_total :: u64
  requests_local :: u64
  requests_network :: u64
  errors_total :: u64
  active_sessions :: u64
  latency_sum_microseconds :: u64
  latency_max_microseconds :: u64

definition create_metrics :: metrics where
  "create_metrics = \<lparr>requests_total = 0, requests_local = 0, requests_network = 0, errors_total = 0,
     active_sessions = 0, latency_sum_microseconds = 0, latency_max_microseconds = 0\<rparr>"

definition record_local_request :: "metrics \<Rightarrow> metrics" where
  "record_local_request m =
     m\<lparr>requests_total := requests_total m + 1, requests_local := requests_local m + 1\<rparr>"

definition record_network_request :: "metrics \<Rightarrow> metrics" where
  "record_network_request m =
     m\<lparr>requests_total := requests_total m + 1, requests_network := requests_network m + 1\<rparr>"

definition record_error :: "metrics \<Rightarrow> metrics" where
  "record_error m = m\<lparr>errors_total := errors_total m + 1\<rparr>"

text \<open>\<open>start.elapsed().as_micros() as u64\<close>, where the clock reads \<open>now\<close>.\<close>

definition elapsed_microseconds :: "instant \<Rightarrow> instant \<Rightarrow> u64" where
  "elapsed_microseconds start now = of_nat ((now - start) div 1000)"

definition add_latency :: "u64 \<Rightarrow> metrics \<Rightarrow> metrics" where
  "add_latency microseconds m = m\<lparr>latency_sum_microseconds := latency_sum_microseconds m + microseconds\<rparr>"

definition max_latency :: "u64 \<Rightarrow> metrics \<Rightarrow> metrics" where
  "max_latency microseconds m = m\<lparr>latency_max_microseconds := max (latency_max_microseconds m) microseconds\<rparr>"

definition record_latency :: "instant \<Rightarrow> instant \<Rightarrow> metrics \<Rightarrow> metrics" where
  "record_latency start now m =
     (let microseconds = elapsed_microseconds start now
      in max_latency microseconds (add_latency microseconds m))"

definition read_latency_average_microseconds :: "metrics \<Rightarrow> u64" where
  "read_latency_average_microseconds m =
     (let total = requests_total m
      in if total = 0 then 0 else latency_sum_microseconds m div total)"

definition increment_sessions :: "metrics \<Rightarrow> metrics" where
  "increment_sessions m = m\<lparr>active_sessions := active_sessions m + 1\<rparr>"

definition decrement_sessions :: "metrics \<Rightarrow> metrics" where
  "decrement_sessions m = m\<lparr>active_sessions := active_sessions m - 1\<rparr>"

section \<open>Runs of calls\<close>

datatype metrics_call = Local_Request | Network_Request | Error_Recorded
  | Latency instant instant | Session_Opened | Session_Closed

fun metrics_step :: "metrics_call \<Rightarrow> metrics \<Rightarrow> metrics" where
  "metrics_step Local_Request = record_local_request"
| "metrics_step Network_Request = record_network_request"
| "metrics_step Error_Recorded = record_error"
| "metrics_step (Latency start now) = record_latency start now"
| "metrics_step Session_Opened = increment_sessions"
| "metrics_step Session_Closed = decrement_sessions"

definition metrics_run :: "metrics_call list \<Rightarrow> metrics" where
  "metrics_run calls = fold metrics_step calls create_metrics"

fun is_request :: "metrics_call \<Rightarrow> bool" where
  "is_request Local_Request = True"
| "is_request Network_Request = True"
| "is_request _ = False"

fun latency_of :: "metrics_call \<Rightarrow> nat" where
  "latency_of (Latency start now) = unat (elapsed_microseconds start now)"
| "latency_of _ = 0"

fun is_latency :: "metrics_call \<Rightarrow> bool" where
  "is_latency (Latency _ _) = True"
| "is_latency _ = False"

abbreviation number_of :: "('a \<Rightarrow> bool) \<Rightarrow> 'a list \<Rightarrow> nat" where
  "number_of P xs \<equiv> length (filter P xs)"

lemmas metrics_defs = record_local_request_def record_network_request_def record_error_def
  record_latency_def add_latency_def max_latency_def increment_sessions_def decrement_sessions_def

lemma metrics_run_snoc: "metrics_run (calls @ [c]) = metrics_step c (metrics_run calls)"
  by (simp add: metrics_run_def)

lemma metrics_run_Nil: "metrics_run [] = create_metrics"
  by (simp add: metrics_run_def)

text \<open>The counters count, modulo their width.\<close>

lemma metrics_counts:
  "requests_total (metrics_run calls) = of_nat (number_of is_request calls)"
  "requests_local (metrics_run calls) = of_nat (number_of (\<lambda>c. c = Local_Request) calls)"
  "requests_network (metrics_run calls) = of_nat (number_of (\<lambda>c. c = Network_Request) calls)"
  "errors_total (metrics_run calls) = of_nat (number_of (\<lambda>c. c = Error_Recorded) calls)"
  "latency_sum_microseconds (metrics_run calls) = of_nat (sum_list (map latency_of calls))"
proof (induction calls rule: rev_induct)
  case Nil
  show "requests_total (metrics_run []) = of_nat (number_of is_request [])"
    "requests_local (metrics_run []) = of_nat (number_of (\<lambda>c. c = Local_Request) [])"
    "requests_network (metrics_run []) = of_nat (number_of (\<lambda>c. c = Network_Request) [])"
    "errors_total (metrics_run []) = of_nat (number_of (\<lambda>c. c = Error_Recorded) [])"
    "latency_sum_microseconds (metrics_run []) = of_nat (sum_list (map latency_of []))"
    by (simp_all add: metrics_run_Nil create_metrics_def)
next
  case (snoc c calls)
  show "requests_total (metrics_run (calls @ [c])) = of_nat (number_of is_request (calls @ [c]))"
    "requests_local (metrics_run (calls @ [c])) = of_nat (number_of (\<lambda>c. c = Local_Request) (calls @ [c]))"
    "requests_network (metrics_run (calls @ [c])) = of_nat (number_of (\<lambda>c. c = Network_Request) (calls @ [c]))"
    "errors_total (metrics_run (calls @ [c])) = of_nat (number_of (\<lambda>c. c = Error_Recorded) (calls @ [c]))"
    "latency_sum_microseconds (metrics_run (calls @ [c])) = of_nat (sum_list (map latency_of (calls @ [c])))"
    using snoc by (cases c; simp add: metrics_run_snoc metrics_defs Let_def)+
qed

lemma metrics_max:
  "unat (latency_max_microseconds (metrics_run calls)) = fold (\<lambda>c. max (latency_of c)) calls 0"
proof (induction calls rule: rev_induct)
  case (snoc c calls)
  then show ?case
    by (cases c) (auto simp: metrics_run_snoc metrics_defs Let_def max_def word_le_nat_alt)
qed (simp add: metrics_run_Nil create_metrics_def)

lemma sum_list_bound:
  "sum_list (map latency_of calls) \<le> number_of is_latency calls * fold (\<lambda>c. max (latency_of c)) calls 0"
proof (induction calls rule: rev_induct)
  case (snoc c calls)
  let ?m = "fold (\<lambda>c. max (latency_of c)) calls 0" and ?n = "number_of is_latency calls"
  have "?n * ?m \<le> ?n * max (latency_of c) ?m" by simp
  with snoc have sum: "sum_list (map latency_of calls) \<le> ?n * max (latency_of c) ?m" by linarith
  then show ?case by (cases c) (auto intro: add_le_mono)
qed simp

section \<open>Properties\<close>

text \<open>Over any run of calls the total number of requests is the sum of the local and the network
  requests, also when the counters have wrapped.\<close>

theorem metrics_total_is_sum:
  "requests_total (metrics_run calls) = requests_local (metrics_run calls) + requests_network (metrics_run calls)"
proof -
  have "number_of is_request calls =
      number_of (\<lambda>c. c = Local_Request) calls + number_of (\<lambda>c. c = Network_Request) calls"
  proof (induction calls)
    case (Cons c calls) then show ?case by (cases c) auto
  qed simp
  then show ?thesis by (simp add: metrics_counts)
qed

text \<open>C28: After any list of calls that have run to their end, the reported average latency does not
  exceed the reported maximum, as long as every latency belongs to a counted request and neither the
  counter nor the sum has wrapped.\<close>

theorem metrics_average_below_max:
  assumes "number_of is_latency calls \<le> number_of is_request calls"
    and "number_of is_request calls < 2 ^ 64" and "sum_list (map latency_of calls) < 2 ^ 64"
  shows "read_latency_average_microseconds (metrics_run calls) \<le> latency_max_microseconds (metrics_run calls)"
proof (cases "number_of is_request calls = 0")
  case True
  then show ?thesis by (simp add: read_latency_average_microseconds_def metrics_counts)
next
  case False
  let ?n = "number_of is_request calls" and ?max = "fold (\<lambda>c. max (latency_of c)) calls 0"
  have total: "unat (requests_total (metrics_run calls)) = ?n"
    using assms(2) unfolding metrics_counts by (simp add: unat_of_nat)
  have sum: "unat (latency_sum_microseconds (metrics_run calls)) = sum_list (map latency_of calls)"
    using assms(3) unfolding metrics_counts by (simp add: unat_of_nat)
  have "requests_total (metrics_run calls) \<noteq> 0"
    using total False by (metis unat_0)
  then have avg: "unat (read_latency_average_microseconds (metrics_run calls)) = sum_list (map latency_of calls) div ?n"
    by (simp add: read_latency_average_microseconds_def Let_def unat_div total sum)
  have "sum_list (map latency_of calls) \<le> ?n * ?max"
    using sum_list_bound[of calls] assms(1) by (meson dual_order.trans mult_le_mono1)
  then have "sum_list (map latency_of calls) div ?n \<le> ?n * ?max div ?n" by (rule div_le_mono)
  then show ?thesis using False by (simp add: word_le_nat_alt avg metrics_max)
qed

lemma metrics_average_below_max_witness:
  "read_latency_average_microseconds (metrics_run [Local_Request, Latency 1000 8000, Network_Request, Latency 2000 4000])
    \<le> latency_max_microseconds (metrics_run [Local_Request, Latency 1000 8000, Network_Request, Latency 2000 4000])"
  by (rule metrics_average_below_max) (simp_all add: elapsed_microseconds_def)

text \<open>Between the two steps of \<open>record_latency\<close> it can: the sum is there already, the maximum not yet.\<close>

lemma average_above_max_between:
  "let m = add_latency 7 (record_local_request create_metrics)
   in latency_max_microseconds m < read_latency_average_microseconds m"
  by (simp add: read_latency_average_microseconds_def create_metrics_def metrics_defs Let_def)

end
