(* ===== verification/Router.thy ===== *)
theory Router
  imports Query Metrics
begin

text \<open>
  \<open>src/modules/router.rs\<close>: one handler for each opcode. The state is the storage state with the
  counters; the handlers reach storage through the bus alone. \<open>process::exit\<close> is the outcome
  \<open>Exited\<close>. Log lines are not modelled.
\<close>

section \<open>Fields\<close>

definition read_field_with_offset :: "bytes \<Rightarrow> nat \<Rightarrow> (bytes \<times> nat) option" where
  "read_field_with_offset payload offset =
     (if length payload < offset + 4 then None
      else let n = unat (u32_from_be_bytes (take 4 (drop offset payload)));
               field_start = offset + 4; field_end = field_start + n
           in if length payload < field_end then None
              else Some (take n (drop field_start payload), field_end))"

definition read_field :: "bytes \<Rightarrow> nat \<Rightarrow> bytes option" where
  "read_field payload offset = map_option fst (read_field_with_offset payload offset)"

definition read_u64 :: "bytes \<Rightarrow> nat \<Rightarrow> u64" where
  "read_u64 payload offset = u64_from_be_bytes (take 8 (drop offset payload))"

section \<open>Handlers\<close>

definition create_error :: "u32 \<Rightarrow> byte \<Rightarrow> response" where
  "create_error request_id error_opcode = \<lparr>rs_request_id = request_id, rs_opcode = error_opcode, rs_payload = []\<rparr>"

definition route_read_value :: "'st data_bus \<Rightarrow> request \<Rightarrow> ('st, response) op" where
  "route_read_value bus request =
     (case read_field (rq_payload request) 0 of
        None \<Rightarrow> op_ret (create_error (rq_request_id request) 0xA1)
      | Some key \<Rightarrow> op_bind (bus_read_value bus key) (\<lambda>r. op_ret (value_response (rq_request_id request) r)))"

definition route_write_value :: "'st data_bus \<Rightarrow> request \<Rightarrow> ('st, response) op" where
  "route_write_value bus request =
     (case read_field_with_offset (rq_payload request) 0 of
        None \<Rightarrow> op_ret (create_error (rq_request_id request) 0xA1)
      | Some (key, offset) \<Rightarrow>
          (case read_field_with_offset (rq_payload request) offset of
             None \<Rightarrow> op_ret (create_error (rq_request_id request) 0xA1)
           | Some (v, offset) \<Rightarrow>
               if length (rq_payload request) < offset + 8 then op_ret (create_error (rq_request_id request) 0xA1)
               else let duration_ms = read_u64 (rq_payload request) offset
                    in op_bind (if duration_ms = 0 then bus_write_value bus key v
                                else bus_write_value_with_ttl bus key v (from_millis duration_ms)) (\<lambda>_.
                       op_ret (create_ok (rq_request_id request)))))"

definition route_delete_value :: "'st data_bus \<Rightarrow> request \<Rightarrow> ('st, response) op" where
  "route_delete_value bus request =
     (case read_field (rq_payload request) 0 of
        None \<Rightarrow> op_ret (create_error (rq_request_id request) 0xA1)
      | Some key \<Rightarrow> op_bind (bus_delete_value bus key) (\<lambda>_. op_ret (create_ok (rq_request_id request))))"

definition route_delete_value_if_match :: "'st data_bus \<Rightarrow> request \<Rightarrow> ('st, response) op" where
  "route_delete_value_if_match bus request =
     (case read_field_with_offset (rq_payload request) 0 of
        None \<Rightarrow> op_ret (create_error (rq_request_id request) 0xA1)
      | Some (key, offset) \<Rightarrow>
          (case read_field (rq_payload request) offset of
             None \<Rightarrow> op_ret (create_error (rq_request_id request) 0xA1)
           | Some expected \<Rightarrow>
               op_bind (bus_delete_value_if_match bus key expected) (\<lambda>matched.
               op_ret \<lparr>rs_request_id = rq_request_id request, rs_opcode = 0x81,
                 rs_payload = [if matched then 0x01 else 0x00]\<rparr>)))"

definition route_write_ttl :: "'st data_bus \<Rightarrow> request \<Rightarrow> ('st, response) op" where
  "route_write_ttl bus request =
     (case read_field_with_offset (rq_payload request) 0 of
        None \<Rightarrow> op_ret (create_error (rq_request_id request) 0xA1)
      | Some (key, offset) \<Rightarrow>
          if length (rq_payload request) < offset + 8 then op_ret (create_error (rq_request_id request) 0xA1)
          else op_bind (bus_write_ttl bus key (from_millis (read_u64 (rq_payload request) offset))) (\<lambda>_.
               op_ret (create_ok (rq_request_id request))))"

definition route_find_by_prefix :: "'st data_bus \<Rightarrow> request \<Rightarrow> ('st, response list) op" where
  "route_find_by_prefix bus request =
     (case read_field (rq_payload request) 0 of
        None \<Rightarrow> op_ret [create_error (rq_request_id request) 0xA1]
      | Some pre \<Rightarrow>
          op_bind (bus_find_by_prefix bus pre) (\<lambda>pairs.
          op_ret (scan_responses (rq_request_id request) pairs)))"

definition parse_query_request :: "sql_library \<Rightarrow> 'st data_bus \<Rightarrow> request \<Rightarrow> ('st, response list) op" where
  "parse_query_request lib bus request =
     (case read_field (rq_payload request) 0 of
        None \<Rightarrow> op_ret [create_error (rq_request_id request) 0xA1]
      | Some sql_bytes \<Rightarrow> parse_query lib bus (from_utf8_lossy sql_bytes) (rq_request_id request))"

definition read_status :: "metrics \<Rightarrow> request \<Rightarrow> response" where
  "read_status m request =
     (if \<not> rq_is_local request then create_error (rq_request_id request) 0xA2
      else \<lparr>rs_request_id = rq_request_id request, rs_opcode = 0x81,
            rs_payload = u64_to_be_bytes (requests_total m) @ u64_to_be_bytes (requests_local m)
              @ u64_to_be_bytes (requests_network m) @ u64_to_be_bytes (errors_total m)
              @ u64_to_be_bytes (active_sessions m) @ u64_to_be_bytes (read_latency_average_microseconds m)
              @ u64_to_be_bytes (latency_max_microseconds m)\<rparr>)"

definition parse_shutdown :: "request \<Rightarrow> ('st, response) op" where
  "parse_shutdown request =
     (if \<not> rq_is_local request then op_ret (create_error (rq_request_id request) 0xA2) else op_exit 0)"

definition parse_reload :: "request \<Rightarrow> response" where
  "parse_reload request =
     (if \<not> rq_is_local request then create_error (rq_request_id request) 0xA2
      else create_ok (rq_request_id request))"

definition read_keys :: "'st data_bus \<Rightarrow> request \<Rightarrow> ('st, response list) op" where
  "read_keys bus request =
     (let pre = (case read_field (rq_payload request) 0 of Some p \<Rightarrow> p | None \<Rightarrow> [])
      in op_bind (bus_find_by_prefix bus pre) (\<lambda>pairs.
         op_ret (scan_responses (rq_request_id request) pairs)))"

text \<open>\<open>as_millis() as u64\<close> of a remaining lifetime, zero for none.\<close>

definition ttl_millis :: "duration option \<Rightarrow> u64" where
  "ttl_millis r = (case r of Some d \<Rightarrow> of_nat (as_millis d) | None \<Rightarrow> 0)"

definition read_inspect :: "'st data_bus \<Rightarrow> request \<Rightarrow> ('st, response) op" where
  "read_inspect bus request =
     (case read_field (rq_payload request) 0 of
        None \<Rightarrow> op_ret (create_error (rq_request_id request) 0xA1)
      | Some key \<Rightarrow>
          op_bind (bus_read_value bus key) (\<lambda>r.
          case r of
            Some v \<Rightarrow>
              op_bind (bus_read_ttl_remaining bus key) (\<lambda>remaining.
              op_ret \<lparr>rs_request_id = rq_request_id request, rs_opcode = 0x81,
                rs_payload = u32_to_be_bytes (len_u32 v) @ v @ u64_to_be_bytes (ttl_millis remaining)\<rparr>)
          | None \<Rightarrow> op_ret (create_ok (rq_request_id request))))"

definition dump_chunk :: "'st data_bus \<Rightarrow> u32 \<Rightarrow> u16 \<Rightarrow> nat \<times> (bytes \<times> bytes) \<Rightarrow> ('st, response) op" where
  "dump_chunk bus request_id pair_total entry =
     (case entry of (chunk_id, (key, v)) \<Rightarrow>
        op_bind (bus_read_ttl_remaining bus key) (\<lambda>remaining.
        op_ret \<lparr>rs_request_id = request_id, rs_opcode = 0x90,
          rs_payload = u16_to_be_bytes pair_total @ u16_to_be_bytes (of_nat chunk_id)
            @ u32_to_be_bytes (len_u32 key) @ key @ u32_to_be_bytes (len_u32 v) @ v
            @ u64_to_be_bytes (ttl_millis remaining)\<rparr>))"

definition read_dump :: "'st data_bus \<Rightarrow> request \<Rightarrow> ('st, response list) op" where
  "read_dump bus request =
     op_bind (bus_find_by_prefix bus []) (\<lambda>pairs.
     let pair_total = of_nat (min (length pairs) 65535)
     in op_bind (op_map (dump_chunk bus (rq_request_id request) pair_total) (enumerate 0 (take 65535 pairs))) (\<lambda>chunks.
        op_ret (chunks @ [scan_end (rq_request_id request)])))"

definition write_restore :: "'st data_bus \<Rightarrow> request \<Rightarrow> ('st, response) op" where
  "write_restore bus request =
     (case read_field_with_offset (rq_payload request) 0 of
        None \<Rightarrow> op_ret (create_error (rq_request_id request) 0xA1)
      | Some (key, offset) \<Rightarrow>
          (case read_field_with_offset (rq_payload request) offset of
             None \<Rightarrow> op_ret (create_error (rq_request_id request) 0xA1)
           | Some (v, offset) \<Rightarrow>
               op_bind (bus_write_value bus key v) (\<lambda>_.
               op_bind (if offset + 8 \<le> length (rq_payload request)
                        then let ttl_ms = read_u64 (rq_payload request) offset
                             in if 0 < ttl_ms then bus_write_ttl bus key (from_millis ttl_ms) else op_ret ()
                        else op_ret ()) (\<lambda>_.
               op_ret (create_ok (rq_request_id request))))))"

definition one_response :: "('st, response) op \<Rightarrow> ('st, response list) op" where
  "one_response m = op_bind m (\<lambda>r. op_ret [r])"

definition dispatch_request :: "sql_library \<Rightarrow> 'st data_bus \<Rightarrow> metrics \<Rightarrow> request \<Rightarrow> ('st, response list) op" where
  "dispatch_request lib bus m request =
     (let opcode = rq_opcode request
      in if opcode = 0x01 then one_response (route_read_value bus request)
         else if opcode = 0x02 then one_response (route_write_value bus request)
         else if opcode = 0x03 then one_response (route_delete_value bus request)
         else if opcode = 0x04 then one_response (route_delete_value_if_match bus request)
         else if opcode = 0x05 then one_response (route_write_ttl bus request)
         else if opcode = 0x06 then route_find_by_prefix bus request
         else if opcode = 0x07 then parse_query_request lib bus request
         else if opcode = 0x13 then op_ret [create_ok (rq_request_id request)]
         else if opcode = 0x14 then op_ret [read_status m request]
         else if opcode = 0x15 then one_response (parse_shutdown request)
         else if opcode = 0x16 then op_ret [parse_reload request]
         else if opcode = 0x17 then read_keys bus request
         else if opcode = 0x18 then one_response (read_inspect bus request)
         else if opcode = 0x19 then read_dump bus request
         else if opcode = 0x1A then one_response (write_restore bus request)
         else op_ret [create_error (rq_request_id request) 0xA2])"

section \<open>Reading the fields of a payload\<close>

lemma read_field_at:
  assumes "length f < 2 ^ 32" and "length pre = n"
  shows "read_field_with_offset (pre @ field f @ rest) n = Some (f, n + 4 + length f)"
  using assms by (simp add: read_field_with_offset_def unat_len_u32)

lemma read_field_front:
  "length f < 2 ^ 32 \<Longrightarrow> read_field_with_offset (field f @ rest) 0 = Some (f, 4 + length f)"
  using read_field_at[of f "[]" 0 rest] by simp

lemma read_u64_at: "length pre = n \<Longrightarrow> read_u64 (pre @ u64_to_be_bytes w @ rest) n = w"
  by (simp add: read_u64_def)

text \<open>A payload cut short has no complete field at its end.\<close>

lemma read_field_cut:
  assumes "length f < 2 ^ 32" and "length pre = n" and "strict_prefix q (field f)"
  shows "read_field_with_offset (pre @ q) n = None"
proof (cases "length q < 4")
  case True
  then show ?thesis using assms(2) by (simp add: read_field_with_offset_def)
next
  case False
  from assms(3) obtain r where r: "field f = q @ r" "r \<noteq> []" by (auto simp: strict_prefix_def prefix_def)
  then have "take 4 q = u32_to_be_bytes (len_u32 f)"
    using False take_field(1)[of f] by (metis append_Nil2 diff_is_0_eq' not_less take0 take_append)
  moreover have "length q < 4 + length f"
    using arg_cong[OF r(1), of length] r(2) by (cases r) auto
  ultimately show ?thesis
    using assms(1,2) False by (simp add: read_field_with_offset_def unat_len_u32)
qed

section \<open>The router as a client of the bus\<close>

fun bus_call_of :: "wire_call \<Rightarrow> bus_call option" where
  "bus_call_of (Wire_Read k) = Some (Read_Value k)"
| "bus_call_of (Wire_Write k v ms) = Some (if ms = 0 then Write_Value k v else Write_With_Ttl k v (from_millis ms))"
| "bus_call_of (Wire_Delete k) = Some (Delete_Value k)"
| "bus_call_of (Wire_Cas k e) = Some (Delete_If_Match k e)"
| "bus_call_of (Wire_Ttl k ms) = Some (Write_Ttl k (from_millis ms))"
| "bus_call_of (Wire_Find p) = Some (Find_By_Prefix p)"
| "bus_call_of Wire_Ping = None"

fun wire_answer :: "u32 \<Rightarrow> bus_result \<Rightarrow> response list" where
  "wire_answer i Done = [create_ok i]"
| "wire_answer i (Found r) = [value_response i r]"
| "wire_answer i (Matched b) = [\<lparr>rs_request_id = i, rs_opcode = 0x81, rs_payload = [if b then 0x01 else 0x00]\<rparr>]"
| "wire_answer i (Pairs ps) = scan_responses i ps"

definition wire_request :: "u32 \<Rightarrow> wire_call \<Rightarrow> bool \<Rightarrow> request" where
  "wire_request request_id call is_local =
     \<lparr>rq_request_id = request_id, rq_opcode = wire_opcode call, rq_payload = wire_payload call, rq_is_local = is_local\<rparr>"

lemmas route_defs = route_read_value_def route_write_value_def route_delete_value_def
  route_delete_value_if_match_def route_write_ttl_def route_find_by_prefix_def one_response_def

lemma op_bind_if: "op_bind (if b then m else n) f = (if b then op_bind m f else op_bind n f)"
  by simp

lemma dispatch_wire:
  assumes "wire_call_ok call"
  shows "dispatch_request lib bus m (wire_request request_id call is_local) =
    (case bus_call_of call of
       None \<Rightarrow> op_ret [create_ok request_id]
     | Some c \<Rightarrow> op_bind (exec_call bus c) (\<lambda>r. op_ret (wire_answer request_id r)))"
proof (cases call)
  case (Wire_Write k v ms)
  have f: "read_field_with_offset (field k @ field v @ u64_to_be_bytes ms) 0 = Some (k, 4 + length k)"
    "read_field_with_offset (field k @ field v @ u64_to_be_bytes ms) (4 + length k) = Some (v, 8 + length k + length v)"
    "read_u64 (field k @ field v @ u64_to_be_bytes ms) (8 + length k + length v) = ms"
    using assms read_field_front[of k] read_field_at[of v "field k"] read_u64_at[of "field k @ field v" "8 + length k + length v" ms "[]"]
    by (simp_all add: Wire_Write wire_call_ok_def)
  show ?thesis
    by (simp add: Wire_Write wire_request_def dispatch_request_def route_defs f exec_call_def op_bind_assoc Let_def)
next
  case (Wire_Cas k e)
  have f: "read_field_with_offset (field k @ field e) 0 = Some (k, 4 + length k)"
    "read_field_with_offset (field k @ field e) (4 + length k) = Some (e, 8 + length k + length e)"
    using assms read_field_front[of k] read_field_at[of e "field k" _ "[]"]
    by (simp_all add: Wire_Cas wire_call_ok_def)
  show ?thesis
    by (simp add: Wire_Cas wire_request_def dispatch_request_def route_defs f read_field_def exec_call_def op_bind_assoc)
next
  case (Wire_Ttl k ms)
  have f: "read_field_with_offset (field k @ u64_to_be_bytes ms) 0 = Some (k, 4 + length k)"
    "read_u64 (field k @ u64_to_be_bytes ms) (4 + length k) = ms"
    using assms read_field_front[of k] read_u64_at[of "field k" _ ms "[]"]
    by (simp_all add: Wire_Ttl wire_call_ok_def)
  show ?thesis
    by (simp add: Wire_Ttl wire_request_def dispatch_request_def route_defs f exec_call_def op_bind_assoc)
qed (use assms read_field_front[where rest = "[]"] in \<open>simp_all add: wire_request_def dispatch_request_def route_defs
    read_field_def exec_call_def op_bind_assoc wire_call_ok_def\<close>)

section \<open>Malformed payloads\<close>

lemma strict_prefix_append_cases:
  assumes "strict_prefix p (xs @ ys)"
  obtains "strict_prefix p xs" | q where "p = xs @ q" and "strict_prefix q ys"
proof (cases "length p < length xs")
  case True
  from assms have "prefix p (xs @ ys)" by (simp add: strict_prefix_def)
  then have "prefix p xs" using True by (auto simp: prefix_append)
  with True have "strict_prefix p xs" by (auto simp: strict_prefix_def)
  then show thesis by (rule that(1))
next
  case False
  from assms have "prefix p (xs @ ys)" "p \<noteq> xs @ ys" by (simp_all add: strict_prefix_def)
  moreover have "p = xs" if "prefix p xs"
    using that False by (auto simp: prefix_def)
  ultimately obtain q where q: "p = xs @ q" "prefix q ys"
    by (auto simp: prefix_append)
  with \<open>p \<noteq> xs @ ys\<close> have "strict_prefix q ys" by (auto simp: strict_prefix_def)
  with q(1) show thesis by (rule that(2))
qed

lemma strict_prefix_length: "strict_prefix p xs \<Longrightarrow> length p < length xs"
  by (rule prefix_length_less)

text \<open>No handler of a data call acts on a part of a payload.\<close>

lemma dispatch_truncated:
  assumes call: "wire_call_ok call" and cut: "strict_prefix payload (wire_payload call)"
  shows "dispatch_request lib bus m
      \<lparr>rq_request_id = i, rq_opcode = wire_opcode call, rq_payload = payload, rq_is_local = is_local\<rparr> =
    op_ret [create_error i 0xA1]"
proof -
  have one: "read_field_with_offset p 0 = None" if "length f < 2 ^ 32" "strict_prefix p (field f)" for p f
    using read_field_cut[OF that(1) _ that(2), of "[]" 0] by simp
  show ?thesis
  proof (cases call)
    case (Wire_Write k v ms)
    then have len: "length k < 2 ^ 32" "length v < 2 ^ 32" using call by (simp_all add: wire_call_ok_def)
    from cut have "strict_prefix payload (field k @ field v @ u64_to_be_bytes ms)" by (simp add: Wire_Write)
    then show ?thesis
    proof (cases rule: strict_prefix_append_cases)
      case 1
      then show ?thesis using one[OF len(1)] by (simp add: Wire_Write dispatch_request_def route_defs)
    next
      case (2 q)
      note k = read_field_front[OF len(1), of q]
      from 2(2) show ?thesis
      proof (cases rule: strict_prefix_append_cases)
        case 1
        then show ?thesis
          using k read_field_cut[OF len(2), of "field k" "4 + length k" q]
          by (simp add: Wire_Write dispatch_request_def route_defs 2(1))
      next
        case (2 q')
        then show ?thesis
          using k read_field_at[OF len(2), of "field k" "4 + length k" q'] \<open>payload = field k @ q\<close>
            strict_prefix_length[OF 2(2)]
          by (simp add: Wire_Write dispatch_request_def route_defs)
      qed
    qed
  next
    case (Wire_Cas k e)
    then have len: "length k < 2 ^ 32" "length e < 2 ^ 32" using call by (simp_all add: wire_call_ok_def)
    from cut have "strict_prefix payload (field k @ field e)" by (simp add: Wire_Cas)
    then show ?thesis
    proof (cases rule: strict_prefix_append_cases)
      case 1
      then show ?thesis using one[OF len(1)] by (simp add: Wire_Cas dispatch_request_def route_defs)
    next
      case (2 q)
      then show ?thesis
        using read_field_front[OF len(1), of q] read_field_cut[OF len(2), of "field k" "4 + length k" q]
        by (simp add: Wire_Cas dispatch_request_def route_defs read_field_def)
    qed
  next
    case (Wire_Ttl k ms)
    then have len: "length k < 2 ^ 32" using call by (simp add: wire_call_ok_def)
    from cut have "strict_prefix payload (field k @ u64_to_be_bytes ms)" by (simp add: Wire_Ttl)
    then show ?thesis
    proof (cases rule: strict_prefix_append_cases)
      case 1
      then show ?thesis using one[OF len] by (simp add: Wire_Ttl dispatch_request_def route_defs)
    next
      case (2 q)
      then show ?thesis
        using read_field_front[OF len, of q] strict_prefix_length[OF 2(2)]
        by (simp add: Wire_Ttl dispatch_request_def route_defs)
    qed
  qed (use call cut one in \<open>simp_all add: wire_call_ok_def dispatch_request_def route_defs read_field_def\<close>)
qed

section \<open>Every request is answered\<close>

fun statement_storable :: "sql_library \<Rightarrow> (bytes \<Rightarrow> bool) \<Rightarrow> statement \<Rightarrow> bool" where
  "statement_storable lib storable (Insert name (Some (Values rows))) \<longleftrightarrow>
     storable (str ''_schema:'' @ strip_quotes name) \<and>
     (\<forall>row \<in> set rows. row \<noteq> [] \<longrightarrow> storable (row_key lib (strip_quotes name) row))"
| "statement_storable lib storable (Update (Table name) _ selection) \<longleftrightarrow>
     (\<forall>v. parse_where_condition selection = Key_Equals v \<longrightarrow> storable (strip_quotes name @ str '':'' @ v))"
| "statement_storable lib storable _ \<longleftrightarrow> True"

text \<open>The keys that a request writes can be stored.\<close>

definition request_storable :: "sql_library \<Rightarrow> (bytes \<Rightarrow> bool) \<Rightarrow> request \<Rightarrow> bool" where
  "request_storable lib storable request \<longleftrightarrow>
     (rq_opcode request \<in> {0x02, 0x1A} \<longrightarrow>
        (\<forall>key. read_field (rq_payload request) 0 = Some key \<longrightarrow> storable key))
   \<and> (rq_opcode request = 0x07 \<longrightarrow>
        (\<forall>sql statement statements. read_field (rq_payload request) 0 = Some sql \<longrightarrow>
           parse_sql lib (from_utf8_lossy sql) = Some (statement # statements) \<longrightarrow>
           statement_storable lib storable statement))"

definition answers :: "('st \<Rightarrow> bool) \<Rightarrow> u32 \<Rightarrow> response list \<Rightarrow> 'st \<Rightarrow> bool" where
  "answers good i rs s \<longleftrightarrow> good s \<and> rs \<noteq> [] \<and> (\<forall>r \<in> set rs. rs_request_id r = i)"

lemma answers_simps [simp]:
  "answers good i [create_error i e] s = good s"
  "answers good i [create_ok i] s = good s"
  "answers good i [query_error i msg] s = good s"
  "answers good i [value_response i r] s = good s"
  "answers good i [\<lparr>rs_request_id = i, rs_opcode = opc, rs_payload = p\<rparr>] s = good s"
  "answers good i (scan_responses i pairs) s = good s"
  "answers good i [read_status m request] s = (good s \<and> rq_request_id request = i)"
  "answers good i [parse_reload request] s = (good s \<and> rq_request_id request = i)"
  by (auto simp: answers_def create_error_def create_ok_def query_error_def value_response_def scan_responses_def
      scan_chunk_def scan_end_def read_status_def parse_reload_def Let_def split: option.split prod.splits)

context ttl_bus begin

text \<open>The laws, for proofs that only need that the calls return and keep the invariant.\<close>

lemma bus_goods:
  assumes "good s"
  shows "(\<And>r s'. good s' \<Longrightarrow> Q r s') \<Longrightarrow> returns (bus_read_value bus k) s Q"
    and "(\<And>r s'. good s' \<Longrightarrow> Q' r s') \<Longrightarrow> returns (bus_delete_value bus k) s Q'"
    and "(\<And>r s'. good s' \<Longrightarrow> Q'' r s') \<Longrightarrow> returns (bus_delete_value_if_match bus k e) s Q''"
    and "(\<And>r s'. good s' \<Longrightarrow> Q3 r s') \<Longrightarrow> returns (bus_read_ttl_remaining bus k) s Q3"
    and "(\<And>r s'. good s' \<Longrightarrow> Q4 r s') \<Longrightarrow> returns (bus_find_by_prefix bus pre) s Q4"
    and "storable k \<Longrightarrow> (\<And>r s'. good s' \<Longrightarrow> Q5 r s') \<Longrightarrow> returns (bus_write_value bus k v) s Q5"
    and "(\<And>r s'. good s' \<Longrightarrow> Q6 r s') \<Longrightarrow> returns (bus_write_ttl bus k (from_millis ms)) s Q6"
    and "(\<And>r s'. good s' \<Longrightarrow> Q7 r s') \<Longrightarrow> returns (bus_write_value_with_ttl bus k v (from_millis ms)) s Q7"
proof -
  note laws = returns_mono[OF read_law[OF assms]] returns_mono[OF delete_law[OF assms]]
    returns_mono[OF cas_law[OF assms]] returns_mono[OF remaining_law[OF assms]]
    returns_mono[OF find_law[OF assms]] returns_mono[OF write_law[OF assms]]
    returns_mono[OF write_ttl_law[OF assms]] returns_mono[OF write_with_ttl_law[OF assms]]
  show "(\<And>r s'. good s' \<Longrightarrow> Q r s') \<Longrightarrow> returns (bus_read_value bus k) s Q"
    by (rule laws(1)) (simp add: bus_step_def)
  show "(\<And>r s'. good s' \<Longrightarrow> Q' r s') \<Longrightarrow> returns (bus_delete_value bus k) s Q'"
    by (rule laws(2)) (simp add: bus_step_def)
  show "(\<And>r s'. good s' \<Longrightarrow> Q'' r s') \<Longrightarrow> returns (bus_delete_value_if_match bus k e) s Q''"
    by (rule laws(3)) (simp add: bus_step_def)
  show "(\<And>r s'. good s' \<Longrightarrow> Q3 r s') \<Longrightarrow> returns (bus_read_ttl_remaining bus k) s Q3"
    by (rule laws(4)) (simp add: bus_step_def)
  show "(\<And>r s'. good s' \<Longrightarrow> Q4 r s') \<Longrightarrow> returns (bus_find_by_prefix bus pre) s Q4"
    by (rule laws(5)) (simp add: bus_step_def)
  show "storable k \<Longrightarrow> (\<And>r s'. good s' \<Longrightarrow> Q5 r s') \<Longrightarrow> returns (bus_write_value bus k v) s Q5"
    by (rule laws(6)) (simp_all add: bus_step_def)
  show "(\<And>r s'. good s' \<Longrightarrow> Q6 r s') \<Longrightarrow> returns (bus_write_ttl bus k (from_millis ms)) s Q6"
    by (rule laws(7)) (auto simp: bus_step_def)
  show "(\<And>r s'. good s' \<Longrightarrow> Q7 r s') \<Longrightarrow> returns (bus_write_value_with_ttl bus k v (from_millis ms)) s Q7"
    by (rule laws(8)) (auto simp: bus_step_def)
qed

lemma statement_answered:
  assumes good: "good s" and ok: "\<And>st rest. parse_sql lib sql = Some (st # rest) \<Longrightarrow> statement_storable lib storable st"
  shows "returns (parse_query lib bus sql i) s (answers good i)"
proof (cases "parse_sql lib sql")
  case None
  with good show ?thesis by (simp add: parse_query_def wp)
next
  case (Some statements)
  show ?thesis
  proof (cases statements)
    case Nil
    with Some good show ?thesis by (simp add: parse_query_def wp)
  next
    case (Cons st rest)
    note storable = ok[OF Some[unfolded Cons]]
    show ?thesis
    proof (cases st)
      case (Query body)
      with Some Cons good show ?thesis
        by (auto simp: parse_query_def parse_select_def wp split: set_expr.split option.split where_condition.split
            intro!: bus_goods)
    next
      case (Insert name source)
      show ?thesis
      proof (cases "\<exists>rows. source = Some (Values rows)")
        case True
        then obtain rows where rows: "source = Some (Values rows)" ..
        have "returns (parse_insert lib bus i name (Some (Values rows))) s (answers good i)"
          using storable by (intro returns_mono[OF parse_insert_spec[OF good]])
            (auto simp: Insert rows bus_step_def)
        then show ?thesis by (simp add: parse_query_def Some Cons Insert rows)
      next
        case False
        then show ?thesis
          using Some Cons good Insert
          by (auto simp: parse_query_def parse_insert_def Let_def wp split: option.split set_expr.split
              intro!: bus_goods)
      qed
    next
      case (Update table assignments selection)
      then show ?thesis
        using storable Some Cons good
        by (cases table) (auto simp: parse_query_def parse_update_def parse_single_table_name_def Let_def wp
            split: where_condition.split intro!: bus_goods)
    next
      case (Delete tables selection)
      with Some Cons good show ?thesis
        by (auto simp: parse_query_def parse_delete_def wp split: list.split table_factor.split where_condition.split
            intro!: bus_goods)
    next
      case (Create_Table name columns constraints)
      with Some Cons good show ?thesis by (simp add: parse_query_def wp)
    next
      case Other_Statement
      with Some Cons good show ?thesis by (simp add: parse_query_def wp)
    qed
  qed
qed

lemma dump_chunks_answered:
  "good s \<Longrightarrow> returns (op_map (dump_chunk bus i n) entries) s (\<lambda>rs s'. good s' \<and> (\<forall>r \<in> set rs. rs_request_id r = i))"
proof (induction entries arbitrary: s)
  case Nil
  then show ?case by (simp add: wp)
next
  case (Cons e entries)
  show ?case
    unfolding op_map.simps returns_bind dump_chunk_def[of _ _ _ e] prod.case_distrib
    using Cons.prems
    by (auto simp: wp split: prod.split intro!: bus_goods returns_mono[OF Cons.IH])
qed

lemma dump_answered:
  assumes "good s"
  shows "returns (read_dump bus request) s (answers good (rq_request_id request))"
  unfolding read_dump_def returns_bind Let_def
  by (rule bus_goods(5)[OF assms]) (auto simp: wp answers_def scan_end_def intro!: returns_mono[OF dump_chunks_answered])

lemma dispatch_answered:
  assumes good: "good s" and ok: "request_storable lib storable request"
    and run: "\<not> (rq_opcode request = 0x15 \<and> rq_is_local request)"
  shows "returns (dispatch_request lib bus m request) s (answers good (rq_request_id request))"
proof -
  let ?A = "answers good (rq_request_id request)"
  have stored: "storable key" if "rq_opcode request = 0x02 \<or> rq_opcode request = 0x1A"
      "read_field_with_offset (rq_payload request) 0 = Some (key, offset)" for key offset
    using ok that by (auto simp: request_storable_def read_field_def)
  have "returns (one_response (route_read_value bus request)) s ?A"
    using good by (auto simp: route_defs wp split: option.split intro!: bus_goods)
  moreover have "returns (one_response (route_write_value bus request)) s ?A" if "rq_opcode request = 0x02"
    using good stored that by (auto simp: route_defs wp Let_def split: option.split prod.split intro!: bus_goods)
  moreover have "returns (one_response (route_delete_value bus request)) s ?A"
    using good by (auto simp: route_defs wp split: option.split intro!: bus_goods)
  moreover have "returns (one_response (route_delete_value_if_match bus request)) s ?A"
    using good by (auto simp: route_defs wp split: option.split prod.split intro!: bus_goods)
  moreover have "returns (one_response (route_write_ttl bus request)) s ?A"
    using good by (auto simp: route_defs wp split: option.split prod.split intro!: bus_goods)
  moreover have "returns (route_find_by_prefix bus request) s ?A"
    using good by (auto simp: route_defs wp split: option.split intro!: bus_goods)
  moreover have "returns (parse_query_request lib bus request) s ?A" if "rq_opcode request = 0x07"
    using good ok that
    by (auto simp: parse_query_request_def request_storable_def wp split: option.split intro!: statement_answered)
  moreover have "returns (one_response (parse_shutdown request)) s ?A" if "rq_opcode request = 0x15"
    using good run that by (simp add: one_response_def parse_shutdown_def wp)
  moreover have "returns (read_keys bus request) s ?A"
    using good by (auto simp: read_keys_def wp Let_def intro!: bus_goods)
  moreover have "returns (one_response (read_inspect bus request)) s ?A"
    using good by (auto simp: one_response_def read_inspect_def wp split: option.split intro!: bus_goods)
  moreover have "returns (read_dump bus request) s ?A"
    by (rule dump_answered[OF good])
  moreover have "returns (one_response (write_restore bus request)) s ?A" if "rq_opcode request = 0x1A"
    using good stored that
    by (auto simp: one_response_def write_restore_def wp Let_def split: option.split prod.split intro!: bus_goods)
  ultimately show ?thesis
    using good by (simp add: dispatch_request_def Let_def wp)
qed

end

section \<open>Properties\<close>

lemma u64_to_be_bytes_nonempty: "u64_to_be_bytes w \<noteq> []"
  using length_to_be_bytes(3)[of w] by force

text \<open>
  What a request gets whose payload was cut short: the malformed error, with three exceptions. \<open>RESTORE\<close>
  takes a lifetime that is not whole for none, \<open>KEYS\<close> a prefix that is not whole for the empty one, and
  the opcodes of the handshake have no handler.
\<close>

fun truncated_answer :: "'st data_bus \<Rightarrow> u32 \<Rightarrow> protocol_call \<Rightarrow> bytes \<Rightarrow> ('st, response list) op" where
  "truncated_answer bus i (Proto_Restore k v ms) payload =
     (if length payload < length (field k @ field v) then op_ret [create_error i 0xA1]
      else op_bind (bus_write_value bus k v) (\<lambda>_. op_ret [create_ok i]))"
| "truncated_answer bus i (Proto_Keys p) payload =
     op_bind (bus_find_by_prefix bus []) (\<lambda>pairs. op_ret (scan_responses i pairs))"
| "truncated_answer bus i (Proto_Auth_Init m) payload = op_ret [create_error i 0xA2]"
| "truncated_answer bus i (Proto_Auth_Proof m) payload = op_ret [create_error i 0xA2]"
| "truncated_answer bus i _ payload = op_ret [create_error i 0xA1]"

lemma restore_truncated:
  assumes len: "length k < 2 ^ 32" "length v < 2 ^ 32" and cut: "strict_prefix payload (field k @ field v @ u64_to_be_bytes ms)"
  shows "dispatch_request lib bus m \<lparr>rq_request_id = i, rq_opcode = 0x1A, rq_payload = payload, rq_is_local = l\<rparr> =
    truncated_answer bus i (Proto_Restore k v ms) payload"
  using cut
proof (cases rule: strict_prefix_append_cases)
  case 1
  then show ?thesis
    using read_field_cut[OF len(1), of "[]" 0 payload] strict_prefix_length[OF 1]
    by (simp add: dispatch_request_def write_restore_def one_response_def)
next
  case (2 q)
  note k = read_field_front[OF len(1), of q]
  from 2(2) show ?thesis
  proof (cases rule: strict_prefix_append_cases)
    case 1
    then show ?thesis
      using k read_field_cut[OF len(2), of "field k" "4 + length k" q] strict_prefix_length[OF 1]
      by (simp add: dispatch_request_def write_restore_def one_response_def 2(1))
  next
    case (2 q')
    then show ?thesis
      using k read_field_at[OF len(2), of "field k" "4 + length k" q'] \<open>payload = field k @ q\<close> strict_prefix_length[OF 2(2)]
      by (simp add: dispatch_request_def write_restore_def one_response_def op_bind_assoc)
  qed
qed

text \<open>C18: What the router does with a request of the protocol whose payload was cut short, at any place. A
  data call, SQL and \<open>INSPECT\<close> are answered with the malformed error and nothing else happens: no
  handler of theirs acts on a part of a payload. A \<open>RESTORE\<close> is rejected if it was cut in its key or
  value; cut in its lifetime it writes the value without one and answers OK. A \<open>KEYS\<close> that was
  cut lists every key. A message of the handshake gets the invalid-opcode error as it does when whole.\<close>

theorem truncated_request_rejected:
  assumes call: "protocol_ok call" and cut: "strict_prefix payload (protocol_payload call)"
  shows "dispatch_request lib bus m
      \<lparr>rq_request_id = i, rq_opcode = protocol_opcode call, rq_payload = payload, rq_is_local = is_local\<rparr> =
    truncated_answer bus i call payload"
proof -
  have one: "read_field payload 0 = None" if "length f < 2 ^ 32" "strict_prefix payload (field f)" for f
    using read_field_cut[OF that(1) _ that(2), of "[]" 0] by (simp add: read_field_def)
  show ?thesis
  proof (cases call)
    case (Data d)
    then show ?thesis using dispatch_truncated[of d payload] call cut by simp
  next
    case (Proto_Keys p)
    then show ?thesis using call cut one by (cases p) (simp_all add: dispatch_request_def read_keys_def)
  next
    case (Proto_Restore k v ms)
    then show ?thesis
      using restore_truncated[of k v payload ms lib bus m i is_local] call cut
      unfolding Proto_Restore protocol_opcode.simps protocol_ok.simps protocol_payload.simps by blast
  qed (use call cut one in \<open>simp_all add: dispatch_request_def parse_query_request_def read_inspect_def one_response_def\<close>)
qed

lemma truncated_request_rejected_witness:
  "dispatch_request plain_sql (permutive_bus mem_sqlite) create_metrics
    \<lparr>rq_request_id = 9, rq_opcode = protocol_opcode (Data (Wire_Write [1] [2] 500)), rq_payload = field [1] @ field [2],
      rq_is_local = True\<rparr> = truncated_answer (permutive_bus mem_sqlite) 9 (Data (Wire_Write [1] [2] 500)) (field [1] @ field [2])"
  by (rule truncated_request_rejected)
    (simp_all add: wire_call_ok_def strict_prefix_def u64_to_be_bytes_nonempty)

text \<open>The other way round, bytes behind a whole payload are ignored: the noise that the decoder of the
  network leaves in a request does no harm, except to a \<open>KEYS\<close> without prefix, which reads its prefix
  from the noise.\<close>

theorem noise_behind_request_ignored:
  assumes call: "protocol_ok call" and "call \<noteq> Proto_Keys None"
  shows "dispatch_request lib bus m
      \<lparr>rq_request_id = i, rq_opcode = protocol_opcode call, rq_payload = protocol_payload call @ (if delimited call then [] else noise),
        rq_is_local = l\<rparr> =
    dispatch_request lib bus m
      \<lparr>rq_request_id = i, rq_opcode = protocol_opcode call, rq_payload = protocol_payload call, rq_is_local = l\<rparr>"
proof -
  have one: "read_field (field f @ rest) 0 = Some f" if "length f < 2 ^ 32" for f rest
    using read_field_front[OF that] by (simp add: read_field_def)
  note one' = one[where rest = "[]", simplified]
  show ?thesis
  proof (cases call)
    case (Proto_Restore k v ms)
    then have len: "length k < 2 ^ 32" "length v < 2 ^ 32" using call by simp_all
    have f: "read_field_with_offset (field k @ field v @ u64_to_be_bytes ms @ rest) 0 = Some (k, 4 + length k)"
      "read_field_with_offset (field k @ field v @ u64_to_be_bytes ms @ rest) (4 + length k) = Some (v, 8 + length k + length v)"
      "read_u64 (field k @ field v @ u64_to_be_bytes ms @ rest) (8 + length k + length v) = ms" for rest
      using len read_field_front[of k] read_field_at[of v "field k"] read_u64_at[of "field k @ field v" "8 + length k + length v" ms]
      by simp_all
    show ?thesis
      by (simp add: Proto_Restore dispatch_request_def write_restore_def one_response_def f f[where rest = "[]", simplified])
  next
    case (Proto_Keys p)
    with assms show ?thesis by (cases p) (simp_all add: dispatch_request_def read_keys_def one one')
  qed (use call one one' in \<open>simp_all add: dispatch_request_def parse_query_request_def read_inspect_def one_response_def
      read_dump_def read_status_def parse_shutdown_def parse_reload_def\<close>)
qed

text \<open>C19: A request from the network can neither stop the server nor read its counters nor make it
  reload: it is answered with the invalid-opcode error and the storage is not touched.\<close>

theorem network_cannot_administer:
  assumes "\<not> rq_is_local request" and "rq_opcode request \<in> {0x14, 0x15, 0x16}"
  shows "dispatch_request lib bus m request s = (Ret [create_error (rq_request_id request) 0xA2], s)"
  using assms by (auto simp: dispatch_request_def one_response_def parse_shutdown_def read_status_def
      parse_reload_def op_simps)

lemma network_cannot_administer_witness:
  "dispatch_request plain_sql (permutive_bus mem_sqlite) create_metrics
    \<lparr>rq_request_id = 9, rq_opcode = 0x15, rq_payload = [], rq_is_local = False\<rparr> fresh_permutive =
    (Ret [create_error (rq_request_id \<lparr>rq_request_id = 9, rq_opcode = 0x15, rq_payload = [], rq_is_local = False\<rparr>) 0xA2],
     fresh_permutive)"
  by (rule network_cannot_administer) simp_all

end
