(* ===== verification/Server.thy ===== *)
theory Server
  imports Router
begin

text \<open>
  \<open>src/modules/server.rs\<close>: the two kinds of workers. A worker is an endless loop; its model is the
  pass for one datagram, and its run on a list of datagrams is the passes in order. What a worker
  sends is the list of (peer, bytes) pairs handed to the socket; sending never fails the worker.
  A datagram longer than the receive buffer is cut off by the socket. \<open>server_run\<close> is the start of the
  module: the sockets, the session table and the workers that are spawned.
\<close>

definition max_datagram :: nat where
  "max_datagram = 2048"

definition module_server_key :: bytes where
  "module_server_key = str ''module:server''"

record ('st, 'p) server =
  sv_core_bus :: tric
  sv_storage :: 'st
  sv_metrics :: metrics
  sv_sent :: "('p \<times> bytes) list"

definition on_core :: "(tric, 'a) op \<Rightarrow> (('st, 'p) server, 'a) op" where
  "on_core = op_on sv_core_bus (\<lambda>t s. s\<lparr>sv_core_bus := t\<rparr>)"

definition on_storage :: "('st, 'a) op \<Rightarrow> (('st, 'p) server, 'a) op" where
  "on_storage = op_on sv_storage (\<lambda>t s. s\<lparr>sv_storage := t\<rparr>)"

definition count_metric :: "(metrics \<Rightarrow> metrics) \<Rightarrow> (('st, 'p) server, unit) op" where
  "count_metric f = op_modify (\<lambda>s. s\<lparr>sv_metrics := f (sv_metrics s)\<rparr>)"

definition send_to :: "'p \<Rightarrow> bytes \<Rightarrow> (('st, 'p) server, unit) op" where
  "send_to peer bs = op_modify (\<lambda>s. s\<lparr>sv_sent := sv_sent s @ [(peer, bs)]\<rparr>)"

text \<open>The send buffer is cleared before each response, so what is sent is the encoding alone.\<close>

definition write_local_to_buffer :: "bytes \<Rightarrow> response \<Rightarrow> bytes" where
  "write_local_to_buffer buffer response =
     u32_to_be_bytes (rs_request_id response) @ [rs_opcode response] @ rs_payload response"

definition heartbeat :: "(('st, 'p) server, unit) op" where
  "heartbeat = on_core (tric_write_ttl module_server_key (from_secs 15))"

text \<open>
  One pass of \<open>run_local_worker\<close>: the result of \<open>recv_from\<close>, the instants at which the clock is read
  for the latency, and the request that the worker keeps from pass to pass.
\<close>

definition local_pass ::
  "sql_library \<Rightarrow> 'st data_bus \<Rightarrow> (bytes \<times> 'p) option \<Rightarrow> instant \<Rightarrow> instant \<Rightarrow> request \<Rightarrow> (('st, 'p) server, request) op" where
  "local_pass lib bus received start finish request =
     op_bind heartbeat (\<lambda>_.
     case received of
       None \<Rightarrow> op_ret request
     | Some (raw, peer) \<Rightarrow>
         op_bind (count_metric record_local_request) (\<lambda>_.
         case decode_local_into (take max_datagram raw) request of
           (False, request) \<Rightarrow>
             op_bind (count_metric record_error) (\<lambda>_.
             op_bind (send_to peer (write_local_to_buffer [] (create_error 0 0xA1))) (\<lambda>_.
             op_ret request))
         | (True, request) \<Rightarrow>
             op_bind (op_get sv_metrics) (\<lambda>m.
             op_bind (on_storage (dispatch_request lib bus m request)) (\<lambda>responses.
             op_bind (op_each (\<lambda>response. send_to peer (write_local_to_buffer [] response)) responses) (\<lambda>_.
             op_bind (count_metric (record_latency start finish)) (\<lambda>_.
             op_ret request))))))"

definition initial_request :: request where
  "initial_request = \<lparr>rq_request_id = 0, rq_opcode = 0, rq_payload = [], rq_is_local = True\<rparr>"

fun run_local_worker ::
  "sql_library \<Rightarrow> 'st data_bus \<Rightarrow> ((bytes \<times> 'p) option \<times> instant \<times> instant) list \<Rightarrow> request \<Rightarrow> (('st, 'p) server, request) op" where
  "run_local_worker lib bus [] request = op_ret request"
| "run_local_worker lib bus ((received, start, finish) # rest) request =
     op_bind (local_pass lib bus received start finish request) (run_local_worker lib bus rest)"

text \<open>
  One pass of \<open>run_network_worker\<close>, with the random values of each response as arguments. The session
  table is shared by the workers.
\<close>

type_synonym random_values = "u32 \<times> (nat \<Rightarrow> bytes) \<times> bytes"

fun send_network ::
  "('vk, 'sk, 'c) crypto \<Rightarrow> (nat \<Rightarrow> random_values) \<Rightarrow> 'p \<Rightarrow> bytes \<Rightarrow> response list \<Rightarrow> 'c session_table \<Rightarrow>
   (('st, 'p) server, 'c session_table) op" where
  "send_network cr rnd peer session_id [] t = op_ret t"
| "send_network cr rnd peer session_id (response # responses) t =
     (case rnd 0 of (random, noise, nonce_bytes) \<Rightarrow>
      case encode_network cr random noise nonce_bytes response session_id t of
        (Some encoded, t) \<Rightarrow>
          op_bind (send_to peer encoded) (\<lambda>_. send_network cr (\<lambda>n. rnd (Suc n)) peer session_id responses t)
      | (None, t) \<Rightarrow> send_network cr (\<lambda>n. rnd (Suc n)) peer session_id responses t)"

definition network_pass ::
  "('vk, 'sk, 'c) crypto \<Rightarrow> sql_library \<Rightarrow> 'st data_bus \<Rightarrow> (nat \<Rightarrow> random_values) \<Rightarrow> (bytes \<times> 'p) option \<Rightarrow>
   instant \<Rightarrow> instant \<Rightarrow> 'c session_table \<Rightarrow> (('st, 'p) server, 'c session_table) op" where
  "network_pass cr lib bus rnd received start finish t =
     op_bind heartbeat (\<lambda>_.
     case received of
       None \<Rightarrow> op_ret t
     | Some (raw, peer) \<Rightarrow>
         (case decode_network cr (take max_datagram raw) t of
            None \<Rightarrow> op_ret t
          | Some (request, session_id) \<Rightarrow>
              op_bind (count_metric record_network_request) (\<lambda>_.
              op_bind (op_get sv_metrics) (\<lambda>m.
              op_bind (on_storage (dispatch_request lib bus m request)) (\<lambda>responses.
              op_bind (send_network cr rnd peer session_id responses t) (\<lambda>t.
              op_bind (count_metric (record_latency start finish)) (\<lambda>_.
              op_ret t)))))))"

fun run_network_worker ::
  "('vk, 'sk, 'c) crypto \<Rightarrow> sql_library \<Rightarrow> 'st data_bus \<Rightarrow>
   ((nat \<Rightarrow> random_values) \<times> (bytes \<times> 'p) option \<times> instant \<times> instant) list \<Rightarrow> 'c session_table \<Rightarrow>
   (('st, 'p) server, 'c session_table) op" where
  "run_network_worker cr lib bus [] t = op_ret t"
| "run_network_worker cr lib bus ((rnd, received, start, finish) # rest) t =
     op_bind (network_pass cr lib bus rnd received start finish t) (run_network_worker cr lib bus rest)"

section \<open>The start of the module\<close>

text \<open>
  \<open>run\<close> of the server module, up to the point where the workers run: whether the sockets can be bound
  (the error, if not), the session table, the announcement on the core bus, and the workers that are
  spawned. \<open>available\<close> is the number of processors, where the system tells it. Messages to the
  terminal are left out.
\<close>

record server_config =
  sc_local_path :: bytes
  sc_udp_bind :: bytes
  sc_max_sessions :: nat

record server_sockets =
  ss_bind_local :: "bytes \<Rightarrow> bytes option"
  ss_bind_udp :: "bytes \<Rightarrow> bytes option"

datatype worker = Local_Worker | Network_Worker

definition spawned_workers :: "nat option \<Rightarrow> worker list" where
  "spawned_workers available =
     (let worker_count = (case available of Some n \<Rightarrow> n | None \<Rightarrow> 4);
          local_workers = worker_count div 2;
          network_workers = worker_count - local_workers
      in replicate (max local_workers 1) Local_Worker @ replicate (max network_workers 1) Network_Worker)"

definition server_run :: "server_sockets \<Rightarrow> nat option \<Rightarrow> server_config \<Rightarrow> (tric, 'c session_table \<times> worker list) op" where
  "server_run sockets available config =
     (if ss_bind_local sockets (sc_local_path config) \<noteq> None then op_exit 1
      else if ss_bind_udp sockets (sc_udp_bind config) \<noteq> None then op_exit 1
      else
        op_bind (tric_write_value module_server_key (str ''running'')) (\<lambda>_.
        op_bind (tric_write_ttl module_server_key (from_secs 15)) (\<lambda>_.
        op_ret (create_session_table (sc_max_sessions config), spawned_workers available))))"

section \<open>Lemmas\<close>

lemma wire_heartbeat: "wire_duration (from_secs 15)"
  by (simp add: wire_duration_def from_secs_def)

text \<open>There are workers of both kinds, and not more than processors where there are two or more.\<close>

lemma spawned_workers_kinds:
  "Local_Worker \<in> set (spawned_workers available) \<and> Network_Worker \<in> set (spawned_workers available) \<and>
    length (spawned_workers available) = max (case available of Some n \<Rightarrow> n | None \<Rightarrow> 4) 2"
  by (auto simp: spawned_workers_def Let_def split: option.split)

lemma server_run_starts:
  assumes "tric_inv T" and "ss_bind_local sockets (sc_local_path config) = None" and "ss_bind_udp sockets (sc_udp_bind config) = None"
  shows "returns (server_run sockets available config) T (\<lambda>(table, workers) T'. tric_inv T' \<and>
    table = create_session_table (sc_max_sessions config) \<and> workers = spawned_workers available)"
  unfolding server_run_def using assms(2,3)
  by (simp add: returns_bind returns_ret)
    (rule returns_mono[OF tb_write[OF assms(1)]], rule returns_mono[OF tb_write_ttl[OF _ wire_heartbeat]], auto simp: bus_step_def)

lemma returns_heartbeat:
  assumes "tric_inv (sv_core_bus s)"
  shows "returns heartbeat s (\<lambda>_ s'. tric_inv (sv_core_bus s') \<and> s' = s\<lparr>sv_core_bus := sv_core_bus s'\<rparr>)"
  unfolding heartbeat_def on_core_def returns_on
  by (rule returns_mono[OF tb_write_ttl[OF assms wire_heartbeat]]) (auto simp: bus_step_def)

lemma returns_send_each:
  "returns (op_each (\<lambda>r. send_to peer (f r)) rs) s (\<lambda>_ s'. s' = s\<lparr>sv_sent := sv_sent s @ map (\<lambda>r. (peer, f r)) rs\<rparr>)"
proof (induction rs arbitrary: s)
  case Nil
  then show ?case by (simp add: wp)
next
  case (Cons r rs)
  show ?case
    unfolding op_each.simps returns_bind send_to_def[of peer "f r"] returns_modify
    by (rule returns_mono[OF Cons.IH]) simp
qed

lemma encode_buffer: "write_local_to_buffer buffer response = encode_local response"
  by (simp add: write_local_to_buffer_def encode_local_def)

text \<open>What a worker owes the sender of a datagram: an answer to the same peer with its number.\<close>

fun serves :: "(bytes \<times> 'p) option \<Rightarrow> ('p \<times> bytes) list \<Rightarrow> bool" where
  "serves None chunk \<longleftrightarrow> chunk = []"
| "serves (Some (raw, peer)) chunk \<longleftrightarrow>
     (case decode_local (take max_datagram raw) of
        None \<Rightarrow> chunk = [(peer, [0, 0, 0, 0, 0xA1])]
      | Some r \<Rightarrow> chunk \<noteq> [] \<and> (\<forall>(p, b) \<in> set chunk. p = peer \<and> take 4 b = u32_to_be_bytes (rq_request_id r)))"

text \<open>Datagrams that write only keys that can be stored and do not shut the server down.\<close>

fun received_ok :: "sql_library \<Rightarrow> (bytes \<Rightarrow> bool) \<Rightarrow> (bytes \<times> 'p) option \<Rightarrow> bool" where
  "received_ok lib storable None \<longleftrightarrow> True"
| "received_ok lib storable (Some (raw, peer)) \<longleftrightarrow>
     (case decode_local (take max_datagram raw) of
        None \<Rightarrow> True
      | Some r \<Rightarrow> request_storable lib storable r \<and> rq_opcode r \<noteq> 0x15)"

lemma decode_into:
  "decode_local_into raw request = (case decode_local raw of None \<Rightarrow> (False, request) | Some r \<Rightarrow> (True, r))"
  by (simp add: decode_local_into_def decode_local_def Let_def)

lemma malformed_answer: "encode_local (create_error 0 0xA1) = [0, 0, 0, 0, 0xA1]"
proof -
  have "be_bytes n 0 = replicate n 0" for n by (induction n) simp_all
  then have "u32_to_be_bytes 0 = replicate 4 0" by (simp add: u32_to_be_bytes_def)
  then have "u32_to_be_bytes 0 = [0, 0, 0, 0]" by (simp add: numeral_eq_Suc)
  then show ?thesis by (simp add: encode_local_def create_error_def)
qed

lemma encode_local_number: "take 4 (encode_local r) = u32_to_be_bytes (rs_request_id r)"
  by (simp add: encode_local_def)

lemma requests_local_record:
  "requests_local (record_local_request m) = requests_local m + 1"
  "requests_local (record_error m) = requests_local m"
  "requests_local (record_latency a b m) = requests_local m"
  by (simp_all add: record_local_request_def record_error_def record_latency_def add_latency_def max_latency_def Let_def)

definition server_good :: "('st \<Rightarrow> bool) \<Rightarrow> ('st, 'p) server \<Rightarrow> bool" where
  "server_good good s \<longleftrightarrow> tric_inv (sv_core_bus s) \<and> good (sv_storage s)"

context ttl_bus begin

lemma local_pass_serves:
  assumes ok: "server_good good s" and received: "received_ok lib storable received"
  shows "returns (local_pass lib bus received start finish request) s (\<lambda>_ s'. server_good good s' \<and>
    (\<exists>chunk. sv_sent s' = sv_sent s @ chunk \<and> serves received chunk) \<and>
    requests_local (sv_metrics s') = requests_local (sv_metrics s) + (if received = None then 0 else 1))"
  unfolding local_pass_def returns_bind
proof (rule returns_mono[OF returns_heartbeat], goal_cases)
  case 1
  show ?case using ok by (simp add: server_good_def)
next
  case (2 _ s')
  then have s': "server_good good s'" "sv_sent s' = sv_sent s" "sv_metrics s' = sv_metrics s"
    using ok by (auto simp: server_good_def dest: arg_cong[of _ _ sv_sent] arg_cong[of _ _ sv_metrics] arg_cong[of _ _ sv_storage])
  show ?case
  proof (cases received)
    case None
    with s' show ?thesis by (simp add: wp)
  next
    case (Some d)
    obtain raw peer where d: "d = (raw, peer)" by (cases d)
    show ?thesis
    proof (cases "decode_local (take max_datagram raw)")
      case None
      with s' show ?thesis
        by (simp add: Some d decode_into count_metric_def send_to_def wp encode_buffer malformed_answer
            requests_local_record server_good_def)
    next
      case (Some r)
      have r: "request_storable lib storable r" "\<not> (rq_opcode r = 0x15 \<and> rq_is_local r)"
        using received \<open>received = Some d\<close> d Some by simp_all
      have "good (sv_storage s')" using s' by (simp add: server_good_def)
      note run = returns_mono[OF dispatch_answered[OF this r]]
      show ?thesis
        unfolding \<open>received = Some d\<close> d
        using s' by (auto simp: Some decode_into count_metric_def on_storage_def wp server_good_def answers_def
            encode_buffer requests_local_record encode_local_number
            intro!: run returns_mono[OF returns_send_each])
    qed
  qed
qed

text \<open>The passes in order.\<close>

lemma run_local_worker_serves:
  "server_good good s \<Longrightarrow> \<forall>pass \<in> set passes. received_ok lib storable (fst pass) \<Longrightarrow>
    returns (run_local_worker lib bus passes request) s (\<lambda>_ s'. server_good good s' \<and>
      (\<exists>chunks. sv_sent s' = sv_sent s @ concat chunks \<and> list_all2 (\<lambda>pass. serves (fst pass)) passes chunks) \<and>
      requests_local (sv_metrics s') = requests_local (sv_metrics s)
        + of_nat (length (filter (\<lambda>pass. fst pass \<noteq> None) passes)))"
proof (induction passes arbitrary: s request)
  case Nil
  then show ?case by (simp add: wp)
next
  case (Cons pass passes)
  obtain received start finish where pass: "pass = (received, start, finish)" by (cases pass)
  then have ok: "received_ok lib storable received" using Cons.prems(2) by simp
  show ?case
    unfolding pass run_local_worker.simps returns_bind
  proof (rule returns_mono[OF local_pass_serves[OF Cons.prems(1) ok]], elim conjE exE)
    fix req s' chunk
    assume s': "server_good good s'" and chunk: "sv_sent s' = sv_sent s @ chunk" "serves received chunk"
      and count: "requests_local (sv_metrics s') = requests_local (sv_metrics s) + (if received = None then 0 else 1)"
    show "returns (run_local_worker lib bus passes req) s' (\<lambda>_ s'. server_good good s' \<and>
      (\<exists>chunks. sv_sent s' = sv_sent s @ concat chunks \<and>
        list_all2 (\<lambda>pass. serves (fst pass)) ((received, start, finish) # passes) chunks) \<and>
      requests_local (sv_metrics s') = requests_local (sv_metrics s)
        + of_nat (length (filter (\<lambda>pass. fst pass \<noteq> None) ((received, start, finish) # passes))))"
    proof (rule returns_mono[OF Cons.IH[OF s']], goal_cases)
      case 1 show ?case using Cons.prems(2) by simp
    next
      case (2 _ s'')
      then obtain chunks where "sv_sent s'' = sv_sent s' @ concat chunks"
        "list_all2 (\<lambda>pass. serves (fst pass)) passes chunks" by blast
      with 2 chunk count show ?case
        by (auto intro!: exI[of _ "chunk # chunks"])
    qed
  qed
qed

end

text \<open>Without sessions nothing can be decrypted.\<close>

lemma decode_network_no_session: "decode_network cr raw (create_session_table n) = None"
  by (simp add: decode_network_def decrypt_request_def create_session_table_def Let_def)

lemma network_worker_no_session:
  "tric_inv (sv_core_bus s) \<Longrightarrow>
    returns (run_network_worker cr lib bus passes (create_session_table n)) s
      (\<lambda>t s'. t = create_session_table n \<and> tric_inv (sv_core_bus s') \<and> s' = s\<lparr>sv_core_bus := sv_core_bus s'\<rparr>)"
proof (induction passes arbitrary: s)
  case Nil
  then show ?case by (simp add: wp)
next
  case (Cons pass passes)
  obtain rnd received start finish where pass: "pass = (rnd, received, start, finish)" by (cases pass)
  have quiet: "network_pass cr lib bus rnd received start finish (create_session_table n) =
      op_bind heartbeat (\<lambda>_. op_ret (create_session_table n))"
    by (simp add: network_pass_def decode_network_no_session split: option.split prod.split)
  show ?case
    unfolding pass run_network_worker.simps quiet returns_bind returns_ret
    by (rule returns_mono[OF returns_heartbeat[OF Cons.prems]], rule returns_mono[OF Cons.IH]) (auto, metis server.surjective server.update_convs(1))
qed

lemma decode_oversized:
  assumes "max_datagram < length (wire_datagram i call)"
  obtains payload where "strict_prefix payload (wire_payload call)"
    and "decode_local (take max_datagram (wire_datagram i call)) =
      Some \<lparr>rq_request_id = i, rq_opcode = wire_opcode call, rq_payload = payload, rq_is_local = True\<rparr>"
proof -
  let ?p = "take (max_datagram - 5) (wire_payload call)"
  have "take max_datagram (wire_datagram i call) = u32_to_be_bytes i @ [wire_opcode call] @ ?p"
    by (simp add: wire_datagram_def max_datagram_def take_Cons')
  moreover have "strict_prefix ?p (wire_payload call)"
    using assms by (auto simp: strict_prefix_def wire_datagram_def max_datagram_def take_is_prefix dest: arg_cong[of _ _ length])
  ultimately show thesis
    using that wire_opcode_range[of call] datagram_parts[of i "wire_opcode call" ?p]
    by (simp add: decode_local_def)
qed

text \<open>A client's call as a worker receives it, and the datagrams of its answer.\<close>

type_synonym 'p client_call = "u32 \<times> wire_call \<times> 'p \<times> instant \<times> instant"

fun client_pass :: "'p client_call \<Rightarrow> (bytes \<times> 'p) option \<times> instant \<times> instant" where
  "client_pass (i, call, peer, start, finish) = (Some (wire_datagram i call, peer), start, finish)"

fun client_bus_call :: "'p client_call \<Rightarrow> bus_call" where
  "client_bus_call (i, call, peer, start, finish) = the (bus_call_of call)"

fun client_reply :: "'p client_call \<Rightarrow> bus_result \<Rightarrow> ('p \<times> bytes) list" where
  "client_reply (i, call, peer, start, finish) r = map (\<lambda>response. (peer, encode_local response)) (wire_answer i r)"

fun client_call_ok :: "(bytes \<Rightarrow> bool) \<Rightarrow> 'p client_call \<Rightarrow> bool" where
  "client_call_ok storable (i, call, peer, start, finish) \<longleftrightarrow>
     length (wire_datagram i call) \<le> max_datagram \<and> call \<noteq> Wire_Ping \<and> call_ok storable (the (bus_call_of call))"

lemma wire_field_length: "f \<in> set (wire_fields call) \<Longrightarrow> length f \<le> length (wire_datagram i call)"
  by (cases call) (auto simp: wire_datagram_def)

lemma small_datagram_ok: "length (wire_datagram i call) \<le> max_datagram \<Longrightarrow> wire_call_ok call"
  using wire_field_length[of _ call i] by (fastforce simp: wire_call_ok_def max_datagram_def)

lemma decode_small_datagram:
  assumes "length (wire_datagram i call) \<le> max_datagram"
  shows "decode_local (take max_datagram (wire_datagram i call)) = Some (wire_request i call True)"
  using assms wire_opcode_range[of call] datagram_parts[of i "wire_opcode call" "wire_payload call"]
  by (simp add: decode_local_def wire_datagram_def wire_request_def)

context ttl_bus begin

lemma local_pass_refines:
  assumes ok: "server_good good s" and rep: "represents now view (sv_storage s) m" and cc: "client_call_ok storable cc"
  shows "returns (case client_pass cc of (received, start, finish) \<Rightarrow> local_pass lib bus received start finish request) s
    (\<lambda>_ s'. server_good good s' \<and> (\<exists>b r. now (sv_storage s) \<le> b \<and> b \<le> now (sv_storage s') \<and>
      timed_result (client_bus_call cc) (now (sv_storage s)) m r \<and>
      represents now view (sv_storage s') (timed_step (client_bus_call cc) (now (sv_storage s)) b m) \<and>
      sv_sent s' = sv_sent s @ client_reply cc r))"
proof -
  obtain i call peer start finish where cc_eq: "cc = (i, call, peer, start, finish)" by (cases cc)
  have small: "length (wire_datagram i call) \<le> max_datagram" and c: "bus_call_of call = Some (client_bus_call cc)"
    and call: "call_ok storable (client_bus_call cc)"
    using cc by (cases call; simp add: cc_eq)+
  show ?thesis
    unfolding cc_eq client_pass.simps prod.case local_pass_def returns_bind
  proof (rule returns_mono[OF returns_heartbeat], goal_cases)
    case 1
    show ?case using ok by (simp add: server_good_def)
  next
    case (2 _ s')
    then have s': "tric_inv (sv_core_bus s')" "good (sv_storage s')" "sv_sent s' = sv_sent s" "sv_storage s' = sv_storage s"
      using ok by (auto simp: server_good_def dest: arg_cong[of _ _ sv_sent] arg_cong[of _ _ sv_storage])
    note run = exec_call_refines[OF s'(2)[unfolded s'(4)] rep call]
    have reply: "client_reply cc r = map (\<lambda>response. (peer, encode_local response)) (wire_answer i r)" for r
      by (simp add: cc_eq)
    show ?case
      unfolding option.case prod.case decode_into decode_small_datagram[OF small] bool.case
        dispatch_wire[OF small_datagram_ok[OF small]] c count_metric_def on_storage_def returns_bind returns_modify
        returns_get returns_on returns_ret encode_buffer cc_eq[symmetric] reply
    proof (simp add: s'(4), rule returns_mono[OF run], elim exE conjE)
      fix r st b
      assume r: "good st" "now (sv_storage s) \<le> b" "b \<le> now st" "timed_result (client_bus_call cc) (now (sv_storage s)) m r"
        "represents now view st (timed_step (client_bus_call cc) (now (sv_storage s)) b m)"
      show "returns (op_each (\<lambda>response. send_to peer (encode_local response)) (wire_answer i r))
          (s'\<lparr>sv_metrics := record_local_request (sv_metrics s'), sv_storage := st\<rparr>)
          (\<lambda>_ s''. server_good good (s''\<lparr>sv_metrics := record_latency start finish (sv_metrics s'')\<rparr>) \<and>
            (\<exists>b\<ge>now (sv_storage s). b \<le> now (sv_storage s'') \<and> (\<exists>r. timed_result (client_bus_call cc) (now (sv_storage s)) m r \<and>
              represents now view (sv_storage s'') (timed_step (client_bus_call cc) (now (sv_storage s)) b m) \<and>
              sv_sent s'' = sv_sent s @ map (\<lambda>response. (peer, encode_local response)) (wire_answer i r))))"
        by (rule returns_mono[OF returns_send_each]) (use r s' in \<open>auto simp: server_good_def\<close>)
    qed
  qed
qed

lemma run_local_worker_refines:
  "server_good good s \<Longrightarrow> represents now view (sv_storage s) m \<Longrightarrow> \<forall>cc \<in> set ccs. client_call_ok storable cc \<Longrightarrow>
    returns (run_local_worker lib bus (map client_pass ccs) request) s (\<lambda>_ s'. server_good good s' \<and>
      (\<exists>results m'. explained (map client_bus_call ccs) (now (sv_storage s)) m results (now (sv_storage s')) m' \<and>
        represents now view (sv_storage s') m' \<and> sv_sent s' = sv_sent s @ concat (map2 client_reply ccs results)))"
proof (induction ccs arbitrary: s m request)
  case Nil
  then show ?case by (simp add: wp)
next
  case (Cons cc ccs)
  have cc: "client_call_ok storable cc" using Cons.prems(3) by simp
  obtain received start finish where pass: "client_pass cc = (received, start, finish)" by (cases "client_pass cc")
  show ?case
    unfolding list.map pass run_local_worker.simps returns_bind
  proof (rule returns_mono[OF local_pass_refines[OF Cons.prems(1,2) cc, unfolded pass prod.case]], elim conjE exE)
    fix req s' b r
    assume s': "server_good good s'" and b: "now (sv_storage s) \<le> b" "b \<le> now (sv_storage s')"
      and r: "timed_result (client_bus_call cc) (now (sv_storage s)) m r"
      and rep: "represents now view (sv_storage s') (timed_step (client_bus_call cc) (now (sv_storage s)) b m)"
      and sent: "sv_sent s' = sv_sent s @ client_reply cc r"
    show "returns (run_local_worker lib bus (map client_pass ccs) req) s' (\<lambda>_ s'. server_good good s' \<and>
      (\<exists>results m'. explained (client_bus_call cc # map client_bus_call ccs) (now (sv_storage s)) m results (now (sv_storage s')) m' \<and>
        represents now view (sv_storage s') m' \<and> sv_sent s' = sv_sent s @ concat (map2 client_reply (cc # ccs) results)))"
    proof (rule returns_mono[OF Cons.IH[OF s' rep]], goal_cases)
      case 1 show ?case using Cons.prems(3) by simp
    next
      case (2 _ s'')
      then obtain rs m' where ex: "explained (map client_bus_call ccs) (now (sv_storage s'))
            (timed_step (client_bus_call cc) (now (sv_storage s)) b m) rs (now (sv_storage s'')) m'"
        and rest: "represents now view (sv_storage s'') m'" "sv_sent s'' = sv_sent s' @ concat (map2 client_reply ccs rs)"
        by blast
      have "explained (client_bus_call cc # map client_bus_call ccs) (now (sv_storage s)) m (r # rs) (now (sv_storage s'')) m'"
        unfolding explained.simps using b(1) r explained_earlier[OF ex b(2)] by blast
      with 2 rest sent show ?case by (intro conjI exI[of _ "r # rs"] exI[of _ m']) simp_all
    qed
  qed
qed

end

section \<open>Properties\<close>

definition sample_server :: "(mem_disk permutive, nat) server" where
  "sample_server = \<lparr>sv_core_bus = create_tric (\<lambda>n. 7), sv_storage = fresh_permutive, sv_metrics = create_metrics, sv_sent = []\<rparr>"

lemma sample_server_good: "server_good (permutive_inv mem_sqlite) sample_server"
  by (simp add: server_good_def sample_server_def fresh_permutive_inv create_tric_inv clock_ok_def)

text \<open>C1: The local worker serves one map with deadlines: whatever read, write, delete, compare-and-delete,
  lifetime and scan datagrams its socket delivers, in whatever order and from whichever peers, it
  sends each peer the encoded answers of such a map, one call after the other. This is one worker
  that has the storage to itself.\<close>

theorem local_worker_serves_timed_map:
  assumes "server_good (permutive_inv eng) s" and "\<forall>cc \<in> set ccs. client_call_ok storable_key cc"
  shows "returns (run_local_worker lib (permutive_bus eng) (map client_pass ccs) request) s (\<lambda>_ s'.
    server_good (permutive_inv eng) s' \<and>
    (\<exists>results m'. explained (map client_bus_call ccs) (permutive_now (sv_storage s)) (permutive_abs eng (sv_storage s))
        results (permutive_now (sv_storage s')) m' \<and>
      represents permutive_now (permutive_view eng) (sv_storage s') m' \<and>
      sv_sent s' = sv_sent s @ concat (map2 client_reply ccs results)))"
proof -
  have "permutive_inv eng (sv_storage s)" using assms(1) by (simp add: server_good_def)
  from pb.run_local_worker_refines[OF assms(1) permutive_represents[OF this] assms(2)] show ?thesis .
qed

lemma local_worker_serves_timed_map_witness:
  "let ccs = [(1, Wire_Write (str ''a:k'') [7] 0, 5, 0, 1), (2, Wire_Read (str ''a:k''), 6, 1, 2)]
   in returns (run_local_worker plain_sql (permutive_bus mem_sqlite) (map client_pass ccs) initial_request) sample_server (\<lambda>_ s'.
    server_good (permutive_inv mem_sqlite) s' \<and>
    (\<exists>results m'. explained (map client_bus_call ccs) (permutive_now (sv_storage sample_server))
        (permutive_abs mem_sqlite (sv_storage sample_server)) results (permutive_now (sv_storage s')) m' \<and>
      represents permutive_now (permutive_view mem_sqlite) (sv_storage s') m' \<and>
      sv_sent s' = sv_sent sample_server @ concat (map2 client_reply ccs results)))"
  unfolding Let_def
  by (rule local_worker_serves_timed_map[OF sample_server_good])
    (auto simp: wire_datagram_def max_datagram_def intro!: ascii_storable)

text \<open>C6: The local worker answers every datagram that it receives, well-formed or not, in order and to
  the peer that sent it: a datagram that does not decode gets the malformed error with number zero,
  any other at least one response with the number of the request. It counts every datagram and
  leaves the storage consistent. The datagrams are not to ask for a shutdown, which ends the process,
  nor to write a key whose namespace is no plain file name, on which the open of its database may panic.\<close>

theorem local_worker_answers_all:
  assumes "server_good (permutive_inv eng) s" and "\<forall>pass \<in> set passes. received_ok lib storable_key (fst pass)"
  shows "returns (run_local_worker lib (permutive_bus eng) passes request) s (\<lambda>_ s'.
    server_good (permutive_inv eng) s' \<and>
    (\<exists>chunks. sv_sent s' = sv_sent s @ concat chunks \<and> list_all2 (\<lambda>pass. serves (fst pass)) passes chunks) \<and>
    requests_local (sv_metrics s') = requests_local (sv_metrics s)
      + of_nat (length (filter (\<lambda>pass. fst pass \<noteq> None) passes)))"
  by (rule pb.run_local_worker_serves[OF assms])

lemma local_worker_answers_all_witness:
  "let passes = [(Some ([1, 2], 3), 0, 1), (None, 1, 1), (Some ([0, 0, 0, 7, 0x13], 4), 1, 2)]
   in returns (run_local_worker plain_sql (permutive_bus mem_sqlite) passes initial_request) sample_server (\<lambda>_ s'.
    server_good (permutive_inv mem_sqlite) s' \<and>
    (\<exists>chunks. sv_sent s' = sv_sent sample_server @ concat chunks \<and> list_all2 (\<lambda>pass. serves (fst pass)) passes chunks) \<and>
    requests_local (sv_metrics s') = requests_local (sv_metrics sample_server)
      + of_nat (length (filter (\<lambda>pass. fst pass \<noteq> None) passes)))"
  unfolding Let_def
  by (rule local_worker_answers_all[OF sample_server_good])
    (simp add: decode_local_def max_datagram_def request_storable_def)

text \<open>A call whose datagram is longer than the receive buffer is not served: the socket cuts it off,
  the peer gets the malformed error with the number of the request, and the storage is not touched.\<close>

theorem oversized_datagram_rejected:
  assumes "tric_inv (sv_core_bus s)" and "wire_call_ok call" and "max_datagram < length (wire_datagram i call)"
  shows "returns (local_pass lib bus (Some (wire_datagram i call, peer)) start finish request) s (\<lambda>_ s'.
    sv_sent s' = sv_sent s @ [(peer, encode_local (create_error i 0xA1))] \<and> sv_storage s' = sv_storage s)"
proof -
  obtain payload where cut: "strict_prefix payload (wire_payload call)"
    and dec: "decode_local (take max_datagram (wire_datagram i call)) =
      Some \<lparr>rq_request_id = i, rq_opcode = wire_opcode call, rq_payload = payload, rq_is_local = True\<rparr>"
    by (rule decode_oversized[OF assms(3)])
  show ?thesis
    unfolding local_pass_def returns_bind option.case prod.case decode_into dec bool.case dispatch_truncated[OF assms(2) cut]
      count_metric_def on_storage_def returns_modify returns_get returns_on returns_ret encode_buffer
    by (rule returns_mono[OF returns_heartbeat[OF assms(1)]])
      (auto simp: wp send_to_def dest: arg_cong[of _ _ sv_sent] arg_cong[of _ _ sv_storage])
qed

lemma oversized_datagram_rejected_witness:
  "returns (local_pass plain_sql (permutive_bus mem_sqlite)
      (Some (wire_datagram 3 (Wire_Write [1] (replicate 2048 0) 0), 5)) 0 1 initial_request) sample_server (\<lambda>_ s'.
    sv_sent s' = sv_sent sample_server @ [(5, encode_local (create_error 3 0xA1))] \<and>
    sv_storage s' = sv_storage sample_server)"
  by (rule oversized_datagram_rejected)
    (use sample_server_good in \<open>simp_all add: server_good_def wire_call_ok_def wire_datagram_def max_datagram_def\<close>)

text \<open>C24: The network workers serve nobody: the session table that the server creates is empty, no
  request opens a session, and without one every datagram is dropped. Storage, counters and the
  sent datagrams stay as they are.\<close>

theorem network_worker_drops_all:
  assumes "tric_inv (sv_core_bus s)"
  shows "returns (run_network_worker cr lib bus passes (create_session_table n)) s
    (\<lambda>t s'. t = create_session_table n \<and> sv_storage s' = sv_storage s \<and> sv_metrics s' = sv_metrics s \<and>
      sv_sent s' = sv_sent s)"
  by (rule returns_mono[OF network_worker_no_session[OF assms]])
    (auto dest: arg_cong[of _ _ sv_sent] arg_cong[of _ _ sv_storage] arg_cong[of _ _ sv_metrics])

lemma network_worker_drops_all_witness:
  "returns (run_network_worker plain_crypto plain_sql (permutive_bus mem_sqlite)
      [(\<lambda>n. (0, \<lambda>n. [], []), Some (replicate 64 1, 5), 0, 1)] (create_session_table 10000)) sample_server
    (\<lambda>t s'. t = create_session_table 10000 \<and> sv_storage s' = sv_storage sample_server \<and>
      sv_metrics s' = sv_metrics sample_server \<and> sv_sent s' = sv_sent sample_server)"
  by (rule network_worker_drops_all) (use sample_server_good in \<open>simp add: server_good_def\<close>)

end
