(* ===== verification/Text.thy ===== *)
theory Text
  imports Query
begin

text \<open>
  The functions of Rust's strings that the analyser, the importer, the exporter and the admin
  commands use, on the UTF-8 bytes of a string, and what splitting and joining undo of each other.
  The case mappings and classes of characters beyond ASCII come from the Unicode tables of the
  standard library, which are a parameter.
\<close>

section \<open>Splitting and joining\<close>

text \<open>\<open>str::split\<close> at a character of one byte, and \<open>join\<close>.\<close>

fun split_on :: "byte \<Rightarrow> bytes \<Rightarrow> bytes list" where
  "split_on c [] = [[]]"
| "split_on c (b # bs) =
     (if b = c then [] # split_on c bs else (b # hd (split_on c bs)) # tl (split_on c bs))"

fun join :: "bytes \<Rightarrow> bytes list \<Rightarrow> bytes" where
  "join sep [] = []"
| "join sep [x] = x"
| "join sep (x # y # xs) = x @ sep @ join sep (y # xs)"

text \<open>\<open>replace\<close> of every occurrence of a byte, and \<open>replacen\<close> of the first one.\<close>

definition replace_byte :: "byte \<Rightarrow> bytes \<Rightarrow> bytes \<Rightarrow> bytes" where
  "replace_byte c new bs = concat (map (\<lambda>b. if b = c then new else [b]) bs)"

fun replace_first :: "byte \<Rightarrow> byte \<Rightarrow> bytes \<Rightarrow> bytes" where
  "replace_first c new [] = []"
| "replace_first c new (b # bs) = (if b = c then new # bs else b # replace_first c new bs)"

section \<open>Characters\<close>

function utf8_chars :: "bytes \<Rightarrow> bytes list" where
  "utf8_chars [] = []"
| "utf8_chars (a # bs) = take (max 1 (snd (utf8_next a bs))) (a # bs) # utf8_chars (drop (max 1 (snd (utf8_next a bs))) (a # bs))"
  by pat_completeness auto
termination
  by (relation "measure length") auto

record unicode =
  uc_alphanumeric :: "bytes \<Rightarrow> bool"
  uc_upper :: "bytes \<Rightarrow> bytes"

definition ascii_lower :: "byte \<Rightarrow> byte" where
  "ascii_lower b = (if 65 \<le> b \<and> b \<le> 90 then b + 32 else b)"

definition ascii_upper :: "byte \<Rightarrow> byte" where
  "ascii_upper b = (if 97 \<le> b \<and> b \<le> 122 then b - 32 else b)"

definition to_uppercase :: "unicode \<Rightarrow> bytes \<Rightarrow> bytes" where
  "to_uppercase uc s = concat (map (\<lambda>c. if length c = 1 then map ascii_upper c else uc_upper uc c) (utf8_chars s))"

definition is_alphanumeric :: "unicode \<Rightarrow> bytes \<Rightarrow> bool" where
  "is_alphanumeric uc c \<longleftrightarrow>
     (case c of
        [b] \<Rightarrow> 48 \<le> b \<and> b \<le> 57 \<or> 65 \<le> b \<and> b \<le> 90 \<or> 97 \<le> b \<and> b \<le> 122
      | _ \<Rightarrow> uc_alphanumeric uc c)"

text \<open>\<open>{:<n}\<close>: filled with spaces on the right, counted in characters.\<close>

definition pad_right :: "nat \<Rightarrow> bytes \<Rightarrow> bytes" where
  "pad_right n s = s @ replicate (n - length (utf8_chars s)) 32"

text \<open>\<open>str::trim\<close>: without the whitespace characters at both ends.\<close>

definition is_white :: "bytes \<Rightarrow> bool" where
  "is_white c \<longleftrightarrow> whitespace_length c \<noteq> 0"

definition str_trim :: "bytes \<Rightarrow> bytes" where
  "str_trim s = concat (rev (dropWhile is_white (rev (dropWhile is_white (utf8_chars s)))))"

section \<open>Lemmas\<close>

lemma split_on_nonempty [simp]: "split_on c bs \<noteq> []"
  by (induction bs) auto

lemma split_on_none: "c \<notin> set bs \<Longrightarrow> split_on c bs = [bs]"
  by (induction bs) auto

lemma split_on_append: "c \<notin> set xs \<Longrightarrow> split_on c (xs @ c # ys) = xs # split_on c ys"
  by (induction xs) auto

lemma split_on_join:
  assumes "xs \<noteq> []" and "\<And>x. x \<in> set xs \<Longrightarrow> c \<notin> set x"
  shows "split_on c (join [c] xs) = xs"
  using assms
proof (induction "[c]" xs rule: join.induct)
  case 1
  then show ?case by simp
next
  case (2 x)
  then show ?case by (simp add: split_on_none)
next
  case (3 x y xs)
  then show ?case using split_on_append[of c x "join [c] (y # xs)"] by simp
qed

lemma join_split_on: "join [c] (split_on c bs) = bs"
proof (induction bs)
  case Nil
  show ?case by simp
next
  case (Cons b bs)
  obtain x xs where x: "split_on c bs = x # xs" by (cases "split_on c bs") simp_all
  with Cons show ?case by (cases xs) auto
qed

lemma strip_prefix_append [simp]: "strip_prefix pre (pre @ bs) = Some bs"
  by (simp add: strip_prefix_def)

lemma replace_first_none: "c \<notin> set bs \<Longrightarrow> replace_first c new bs = bs"
  by (induction bs) auto

lemma replace_first_append: "c \<notin> set xs \<Longrightarrow> replace_first c new (xs @ c # ys) = xs @ new # ys"
  by (induction xs) auto

lemma replace_byte_none: "c \<notin> set bs \<Longrightarrow> replace_byte c new bs = bs"
  by (induction bs) (auto simp: replace_byte_def)

lemma replace_byte_append: "replace_byte c new (xs @ ys) = replace_byte c new xs @ replace_byte c new ys"
  by (simp add: replace_byte_def)

lemma replace_byte_Cons: "replace_byte c new (b # ys) = (if b = c then new else [b]) @ replace_byte c new ys"
  by (simp add: replace_byte_def)

text \<open>Lines that are written with a newline behind each are read back.\<close>

lemma str_lines_line:
  assumes "10 \<notin> set line" and "line = [] \<or> last line \<noteq> 13"
  shows "str_lines (line @ 10 # rest) = line # str_lines rest"
proof -
  have "dropWhile (\<lambda>b. b \<noteq> 10) (line @ 10 # rest) = 10 # rest" "takeWhile (\<lambda>b. b \<noteq> 10) (line @ 10 # rest) = line"
    using assms(1) by (induction line) auto
  then show ?thesis using assms(2) by (subst str_lines.simps) auto
qed

lemma str_lines_concat:
  assumes "\<And>l. l \<in> set ls \<Longrightarrow> 10 \<notin> set l \<and> (l = [] \<or> last l \<noteq> 13)"
  shows "str_lines (concat (map (\<lambda>l. l @ [10]) ls)) = ls"
  using assms
proof (induction ls)
  case Nil
  show ?case by (simp add: str_lines.simps)
next
  case (Cons l ls)
  have "str_lines (l @ 10 # concat (map (\<lambda>l. l @ [10]) ls)) = l # str_lines (concat (map (\<lambda>l. l @ [10]) ls))"
    using Cons.prems by (intro str_lines_line) simp_all
  with Cons show ?case by simp
qed

section \<open>Lossy decoding\<close>

lemma utf8_next_length: "utf8_next a bs = (ok, n) \<Longrightarrow> 0 < n \<and> n \<le> Suc (length bs)"
  by (auto simp: utf8_next.simps split: if_splits list.splits)

lemma utf8_valid_char:
  assumes "utf8_next a bs = (True, n)"
  shows "utf8_valid (take n (a # bs) @ cs) = utf8_valid cs"
proof -
  have n: "0 < n" "n \<le> Suc (length bs)" using utf8_next_length[OF assms] by auto
  then have "take n (a # bs) @ cs = a # take (n - 1) bs @ cs" by (cases n) auto
  moreover have "drop (n - 1) (take (n - 1) bs @ cs) = cs" using n by (simp add: min_def)
  ultimately show ?thesis using utf8_next_prefix[OF assms, of cs] by simp
qed

lemma utf8_valid_lossy: "utf8_valid (from_utf8_lossy bs)"
proof (induction bs rule: from_utf8_lossy.induct)
  case 1
  show ?case by simp
next
  case (2 a bs)
  obtain ok n where n: "utf8_next a bs = (ok, n)" by (cases "utf8_next a bs")
  have IH: "utf8_valid (from_utf8_lossy (drop (n - 1) bs))" using 2[OF n[symmetric]] by simp
  show ?case
  proof (cases ok)
    case True
    then show ?thesis using n IH utf8_valid_char[of a bs n] by simp
  next
    case False
    have "utf8_next 0xEF [0xBF, 0xBD] = (True, 3)" by (simp add: utf8_next.simps utf8_second3_def utf8_cont_def)
    from utf8_valid_char[OF this] IH False n show ?thesis by simp
  qed
qed

lemma from_utf8_lossy_append: "utf8_valid a \<Longrightarrow> from_utf8_lossy (a @ b) = a @ from_utf8_lossy b"
proof (induction a rule: utf8_valid.induct)
  case 1
  show ?case by simp
next
  case (2 x bs)
  obtain n where n: "utf8_next x bs = (True, n)" and rest: "utf8_valid (drop (n - 1) bs)"
    using "2.prems" by (auto split: prod.splits)
  have len: "0 < n" "n \<le> Suc (length bs)" using utf8_next_length[OF n] by auto
  have "utf8_next x (take (n - 1) bs @ drop (n - 1) bs @ b) = (True, n)" by (rule utf8_next_prefix[OF n])
  then have next_x: "utf8_next x (bs @ b) = (True, n)" by (metis append.assoc append_take_drop_id)
  have "from_utf8_lossy (drop (n - 1) bs @ b) = drop (n - 1) bs @ from_utf8_lossy b"
    using 2(1)[OF n[symmetric]] rest by simp
  moreover have "drop (n - 1) (bs @ b) = drop (n - 1) bs @ b" "take n (x # bs @ b) @ drop (n - 1) bs = x # bs"
    using len by (cases n; simp)+
  ultimately show ?case using next_x by simp
qed

lemma utf8_valid_append: "utf8_valid a \<Longrightarrow> utf8_valid (a @ b) = utf8_valid b"
proof (induction a rule: utf8_valid.induct)
  case 1
  show ?case by simp
next
  case (2 x bs)
  obtain n where n: "utf8_next x bs = (True, n)" and rest: "utf8_valid (drop (n - 1) bs)"
    using "2.prems" by (auto split: prod.splits)
  have len: "0 < n" "n \<le> Suc (length bs)" using utf8_next_length[OF n] by auto
  have "x # bs @ b = take n (x # bs) @ drop (n - 1) bs @ b" using len by (cases n) simp_all
  moreover have "utf8_valid (drop (n - 1) bs @ b) = utf8_valid b" using 2(1)[OF n[symmetric]] rest by simp
  ultimately show ?case using utf8_valid_char[OF n, of "drop (n - 1) bs @ b"] by (metis append_Cons)
qed

lemma utf8_valid_first: "utf8_valid (b # bs) \<Longrightarrow> \<not> utf8_cont b"
  by (auto simp: utf8_next.simps utf8_cont_def word_le_nat_alt split: if_splits prod.splits list.splits)

section \<open>Words of a command\<close>

text \<open>Visible ASCII characters are characters of their own and no whitespace.\<close>

definition visible :: "byte \<Rightarrow> bool" where
  "visible b \<longleftrightarrow> 33 \<le> b \<and> b \<le> 126"

lemma visible_no_white: "visible b \<Longrightarrow> whitespace_length (b # bs) = 0"
proof -
  assume b: "visible b"
  then have other: "b \<noteq> 32" "b \<noteq> 0xC2" "b \<noteq> 0xE1" "b \<noteq> 0xE2" "b \<noteq> 0xE3" by (auto simp: visible_def)
  have "\<not> b \<le> 13" using b by (simp add: visible_def word_le_nat_alt)
  with other show "whitespace_length (b # bs) = 0" by (simp add: whitespace_length.simps take_Cons')
qed

lemma space_white: "whitespace_length (32 # bs) = 1"
  by (simp add: whitespace_length.simps)

lemma utf8_chars_ascii: "(\<And>b. b \<in> set bs \<Longrightarrow> b \<le> 0x7F) \<Longrightarrow> utf8_chars bs = map (\<lambda>b. [b]) bs"
  by (induction bs) (simp_all add: utf8_next.simps)

lemma split_words_visible:
  assumes "\<And>b. b \<in> set bs \<Longrightarrow> visible b"
  shows "split_words word (bs @ rest) = split_words (word @ bs) rest"
  using assms
proof (induction bs arbitrary: word)
  case (Cons b bs)
  then have "visible b" "\<And>c. c \<in> set bs \<Longrightarrow> visible c" by auto
  with Cons.IH[of "word @ [b]"] show ?case by (subst split_words.simps) (simp add: visible_no_white)
qed simp

text \<open>Words that are joined by spaces are found again.\<close>

definition plain_word :: "bytes \<Rightarrow> bool" where
  "plain_word w \<longleftrightarrow> w \<noteq> [] \<and> (\<forall>b \<in> set w. visible b)"

lemma split_join_words: "(\<And>w. w \<in> set ws \<Longrightarrow> plain_word w) \<Longrightarrow> split_whitespace (join (str '' '') ws) = ws"
  unfolding split_whitespace_def
proof (induction "str '' ''" ws rule: join.induct)
  case 1
  show ?case by (simp add: split_words.simps)
next
  case (2 w)
  then have "w \<noteq> []" "\<And>b. b \<in> set w \<Longrightarrow> visible b" by (auto simp: plain_word_def)
  then show ?case using split_words_visible[of w "[]" "[]"] by (simp add: split_words.simps)
next
  case (3 w v ws)
  then have w: "w \<noteq> []" "\<And>b. b \<in> set w \<Longrightarrow> visible b" by (auto simp: plain_word_def)
  have "split_words [] (w @ 32 # join (str '' '') (v # ws)) = split_words w (32 # join (str '' '') (v # ws))"
    using split_words_visible[of w "[]"] w(2) by simp
  also have "\<dots> = w # split_words [] (join (str '' '') (v # ws))"
    using w(1) by (subst split_words.simps) (simp add: space_white del: join.simps)
  finally show ?case using 3 by simp
qed

lemma join_words_ends:
  assumes "ws \<noteq> []" and "\<And>w. w \<in> set ws \<Longrightarrow> plain_word w"
  shows "join (str '' '') ws \<noteq> [] \<and> visible (hd (join (str '' '') ws)) \<and> visible (last (join (str '' '') ws)) \<and>
    (\<forall>b \<in> set (join (str '' '') ws). b \<le> 0x7F)"
  using assms
proof (induction "str '' ''" ws rule: join.induct)
  case 1
  then show ?case by simp
next
  case (2 w)
  then have "w \<noteq> []" "\<forall>b \<in> set w. visible b" by (auto simp: plain_word_def)
  then show ?case by (auto simp: visible_def word_le_nat_alt)
next
  case (3 w v ws)
  then have w: "w \<noteq> []" "\<forall>b \<in> set w. visible b" by (auto simp: plain_word_def)
  have "\<forall>b \<in> set w. b \<le> 0x7F" using w(2) by (auto simp: visible_def word_le_nat_alt)
  with 3 w show ?case by (auto simp del: join.simps simp: join.simps(3))
qed

lemma str_trim_ends:
  assumes "bs \<noteq> []" and "visible (hd bs)" and "visible (last bs)" and "\<And>b. b \<in> set bs \<Longrightarrow> b \<le> 0x7F"
  shows "str_trim bs = bs"
proof -
  have white: "\<not> is_white [b]" if "visible b" for b
    using visible_no_white[OF that] by (simp add: is_white_def)
  obtain x xs where x: "bs = x # xs" using assms(1) by (cases bs) auto
  have "dropWhile is_white (map (\<lambda>b. [b]) bs) = map (\<lambda>b. [b]) bs" using assms(2) white by (simp add: x)
  moreover have "dropWhile is_white (rev (map (\<lambda>b. [b]) bs)) = rev (map (\<lambda>b. [b]) bs)"
    using assms(1,3) white by (cases bs rule: rev_cases) auto
  moreover have "concat (map (\<lambda>b. [b]) bs) = bs" by (induction bs) auto
  ultimately show ?thesis using utf8_chars_ascii[OF assms(4)] by (simp add: str_trim_def)
qed

text \<open>So a command line keeps its words through joining, decoding, trimming and splitting.\<close>

lemma command_words:
  assumes "ws \<noteq> []" and "\<And>w. w \<in> set ws \<Longrightarrow> plain_word w"
  shows "str_trim (from_utf8_lossy (join (str '' '') ws)) = join (str '' '') ws"
    and "split_whitespace (join (str '' '') ws) = ws"
proof -
  note ends = join_words_ends[OF assms]
  have "utf8_valid (join (str '' '') ws)" using ends by (intro utf8_valid_ascii) auto
  then show "str_trim (from_utf8_lossy (join (str '' '') ws)) = join (str '' '') ws"
    using ends by (simp only: from_utf8_lossy_valid) (intro str_trim_ends, auto)
  show "split_whitespace (join (str '' '') ws) = ws" by (rule split_join_words[OF assms(2)])
qed

end
