(* ===== verification/Analyser.thy ===== *)
theory Analyser
  imports Text
begin

text \<open>
  \<open>src/modules/analyser.rs\<close>: the storage plan of a SQL dump. A table keeps its columns, its primary
  key, its foreign keys and the column that looks like a lifetime; \<open>render_schema_entry\<close> writes what
  the exporter reads back from the schema entry of a table.
\<close>

record column_plan =
  cp_name :: bytes
  cp_data_type :: bytes
  cp_is_primary_key :: bool

record foreign_key_plan =
  fk_column :: bytes
  fk_references_table :: bytes
  fk_references_column :: bytes

record table_plan =
  tp_name :: bytes
  tp_columns :: "column_plan list"
  tp_primary_key :: "bytes list"
  tp_foreign_keys :: "foreign_key_plan list"
  tp_ttl_column :: "bytes option"

record storage_plan =
  sp_tables :: "table_plan list"

section \<open>The plan of a table\<close>

fun constraint_key :: "table_constraint \<Rightarrow> bytes list option" where
  "constraint_key (Primary_Key pk_cols) = Some pk_cols"
| "constraint_key _ = None"

fun column_key :: "column_def \<Rightarrow> bytes list option" where
  "column_key (Column_Def name data_type options) =
     (if Unique_Option True \<in> set options then Some [name] else None)"

fun first_some :: "('a \<Rightarrow> 'b option) \<Rightarrow> 'a list \<Rightarrow> 'b option" where
  "first_some f [] = None"
| "first_some f (x # xs) = (case f x of Some y \<Rightarrow> Some y | None \<Rightarrow> first_some f xs)"

definition find_primary_key_columns :: "column_def list \<Rightarrow> table_constraint list \<Rightarrow> bytes list" where
  "find_primary_key_columns columns constraints =
     (case first_some constraint_key constraints of
        Some pk \<Rightarrow> pk
      | None \<Rightarrow> (case first_some column_key columns of Some pk \<Rightarrow> pk | None \<Rightarrow> []))"

fun foreign_key_of :: "table_constraint \<Rightarrow> foreign_key_plan option" where
  "foreign_key_of (Foreign_Key (column # _) foreign_table (ref_column # _)) =
     Some \<lparr>fk_column = column, fk_references_table = foreign_table, fk_references_column = ref_column\<rparr>"
| "foreign_key_of _ = None"

definition find_foreign_keys :: "table_constraint list \<Rightarrow> foreign_key_plan list" where
  "find_foreign_keys constraints = List.map_filter foreign_key_of constraints"

text \<open>
  The names that mark a lifetime. No character beyond ASCII lowercases to a string of their letters,
  so lowercasing ASCII decides the comparison.
\<close>

definition ttl_names :: "bytes list" where
  "ttl_names = [str ''expires_at'', str ''expire_time'', str ''valid_until'', str ''ttl'', str ''last_seen'', str ''expiry'']"

fun ttl_candidate :: "column_def \<Rightarrow> bytes option" where
  "ttl_candidate (Column_Def name data_type options) =
     (if map ascii_lower name \<in> set ttl_names then Some name else None)"

definition find_ttl_candidate :: "column_def list \<Rightarrow> bytes option" where
  "find_ttl_candidate columns = first_some ttl_candidate columns"

definition parse_table_name_raw :: "unicode \<Rightarrow> bytes \<Rightarrow> bytes" where
  "parse_table_name_raw uc name =
     concat (filter (\<lambda>c. is_alphanumeric uc c \<or> c = [95]) (utf8_chars (strip_quotes name)))"

fun analyse_column :: "bytes list \<Rightarrow> column_def \<Rightarrow> column_plan" where
  "analyse_column primary_key_columns (Column_Def name data_type options) =
     \<lparr>cp_name = name, cp_data_type = data_type, cp_is_primary_key = name \<in> set primary_key_columns\<rparr>"

definition analyse_create_table :: "unicode \<Rightarrow> bytes \<Rightarrow> column_def list \<Rightarrow> table_constraint list \<Rightarrow> table_plan option" where
  "analyse_create_table uc name columns constraints =
     (let sanitised_name = parse_table_name_raw uc name
      in if sanitised_name = [] then None
         else let primary_key_columns = find_primary_key_columns columns constraints
              in Some \<lparr>tp_name = sanitised_name, tp_columns = map (analyse_column primary_key_columns) columns,
                   tp_primary_key = primary_key_columns, tp_foreign_keys = find_foreign_keys constraints,
                   tp_ttl_column = find_ttl_candidate columns\<rparr>)"

fun analyse_statement :: "unicode \<Rightarrow> statement \<Rightarrow> table_plan option" where
  "analyse_statement uc (Create_Table name columns constraints) = analyse_create_table uc name columns constraints"
| "analyse_statement uc _ = None"

definition analyse_statements :: "unicode \<Rightarrow> statement list \<Rightarrow> storage_plan" where
  "analyse_statements uc statements = \<lparr>sp_tables = List.map_filter (analyse_statement uc) statements\<rparr>"

section \<open>Rendering\<close>

definition schema_line :: "table_plan \<Rightarrow> column_plan \<Rightarrow> bytes" where
  "schema_line table column =
     cp_name column @ str '':'' @ cp_data_type column
     @ (if cp_is_primary_key column then str '':pk'' else [])
     @ (case find (\<lambda>fk. fk_column fk = cp_name column) (tp_foreign_keys table) of
          Some fk \<Rightarrow> str '':fk='' @ fk_references_table fk @ str ''.'' @ fk_references_column fk
        | None \<Rightarrow> [])
     @ (if tp_ttl_column table = Some (cp_name column) then str '':ttl'' else [])"

definition render_schema_entry :: "table_plan \<Rightarrow> bytes" where
  "render_schema_entry table = concat (map (\<lambda>column. schema_line table column @ [10]) (tp_columns table))"

definition render_table_plan :: "table_plan \<Rightarrow> bytes" where
  "render_table_plan table =
     pad_right 20 (tp_name table) @ str '' pk='' @ pad_right 15 (join (str '','') (tp_primary_key table))
     @ str '' ttl='' @ pad_right 15 (case tp_ttl_column table of Some c \<Rightarrow> c | None \<Rightarrow> [0xE2, 0x80, 0x94])
     @ str '' fk='' @ join (str '', '') (map (\<lambda>fk. fk_column fk @ str ''->'' @ fk_references_table fk) (tp_foreign_keys table))
     @ [10]"

definition render_storage_plan :: "storage_plan \<Rightarrow> bytes" where
  "render_storage_plan plan = concat (map render_table_plan (sp_tables plan))"

section \<open>The plan is well-formed\<close>

text \<open>
  What the importer relies on: the table has a name, the flag of a column says whether it is in the
  primary key, and a column that marks the lifetime is a column of the table.
\<close>

definition table_plan_ok :: "table_plan \<Rightarrow> bool" where
  "table_plan_ok t \<longleftrightarrow> tp_name t \<noteq> []
   \<and> list_all (\<lambda>c. cp_is_primary_key c \<longleftrightarrow> cp_name c \<in> set (tp_primary_key t)) (tp_columns t)
   \<and> (case tp_ttl_column t of Some c \<Rightarrow> c \<in> cp_name ` set (tp_columns t) | None \<Rightarrow> True)"

lemma first_some_in: "first_some f xs = Some y \<Longrightarrow> \<exists>x \<in> set xs. f x = Some y"
  by (induction xs) (auto split: option.splits)

lemma cp_name_analyse: "cp_name (analyse_column pk c) = (case c of Column_Def name _ _ \<Rightarrow> name)"
  by (cases c) simp

lemma analyse_create_table_ok:
  assumes "analyse_create_table uc name columns constraints = Some t"
  shows "table_plan_ok t"
proof -
  have t: "tp_name t \<noteq> []" "tp_columns t = map (analyse_column (tp_primary_key t)) columns"
    "tp_ttl_column t = find_ttl_candidate columns"
    using assms by (auto simp: analyse_create_table_def Let_def split: if_splits)
  have "list_all (\<lambda>c. cp_is_primary_key c \<longleftrightarrow> cp_name c \<in> set (tp_primary_key t)) (tp_columns t)"
    unfolding t(2) list_all_iff set_map
  proof (rule ballI)
    fix c assume "c \<in> analyse_column (tp_primary_key t) ` set columns"
    then obtain d where "c = analyse_column (tp_primary_key t) d" by blast
    then show "cp_is_primary_key c \<longleftrightarrow> cp_name c \<in> set (tp_primary_key t)" by (cases d) simp
  qed
  moreover have "c \<in> cp_name ` set (tp_columns t)" if ttl: "tp_ttl_column t = Some c" for c
  proof -
    obtain d where d: "d \<in> set columns" "ttl_candidate d = Some c"
      using first_some_in[OF ttl[unfolded t(3) find_ttl_candidate_def]] by blast
    from d(2) have "cp_name (analyse_column (tp_primary_key t) d) = c" by (cases d) (auto split: if_splits)
    with d(1) show ?thesis unfolding t(2) by force
  qed
  ultimately show ?thesis
    using t(1) by (simp add: table_plan_ok_def split: option.split)
qed

lemma in_map_filter: "y \<in> set (List.map_filter f xs) \<longleftrightarrow> (\<exists>x \<in> set xs. f x = Some y)"
  by (force simp: List.map_filter_def)

lemma analyse_statements_ok: "t \<in> set (sp_tables (analyse_statements uc statements)) \<Longrightarrow> table_plan_ok t"
  by (auto simp: analyse_statements_def in_map_filter elim!: analyse_statement.elims dest: analyse_create_table_ok[OF sym])

text \<open>C36: The type of a storage plan: whatever statements a dump holds, each planned table has a name, the
  primary-key flag of a column agrees with the list of key columns, and the lifetime column, when
  there is one, is a column of the table. The importer and the exporter rely on all three.\<close>

theorem storage_plan_well_formed: "list_all table_plan_ok (sp_tables (analyse_statements uc statements))"
  by (simp add: list_all_iff analyse_statements_ok)

section \<open>The fields of a schema line\<close>

definition schema_fields :: "table_plan \<Rightarrow> column_plan \<Rightarrow> bytes list" where
  "schema_fields table column =
     [cp_name column, cp_data_type column]
     @ (if cp_is_primary_key column then [str ''pk''] else [])
     @ (case find (\<lambda>fk. fk_column fk = cp_name column) (tp_foreign_keys table) of
          Some fk \<Rightarrow> [str ''fk='' @ fk_references_table fk @ str ''.'' @ fk_references_column fk]
        | None \<Rightarrow> [])
     @ (if tp_ttl_column table = Some (cp_name column) then [str ''ttl''] else [])"

lemma schema_line_join: "schema_line table column = join (str '':'') (schema_fields table column)"
  by (simp add: schema_line_def schema_fields_def split: option.split)

text \<open>Names and types that can be told apart in a schema entry.\<close>

definition plain_field :: "bytes \<Rightarrow> bool" where
  "plain_field f \<longleftrightarrow> 58 \<notin> set f \<and> 10 \<notin> set f \<and> 13 \<notin> set f"

definition schema_plain :: "table_plan \<Rightarrow> bool" where
  "schema_plain table \<longleftrightarrow>
     (\<forall>c \<in> set (tp_columns table). plain_field (cp_name c) \<and> plain_field (cp_data_type c) \<and>
        cp_name c \<noteq> str ''pk'' \<and> cp_data_type c \<noteq> str ''pk'')
   \<and> (\<forall>fk \<in> set (tp_foreign_keys table). plain_field (fk_references_table fk) \<and> plain_field (fk_references_column fk))"

lemma find_in: "find P xs = Some x \<Longrightarrow> x \<in> set xs"
  by (induction xs) (auto split: if_splits)

lemma schema_fields_plain:
  assumes "schema_plain table" and "c \<in> set (tp_columns table)" and "f \<in> set (schema_fields table c)"
  shows "plain_field f"
proof (cases "find (\<lambda>fk. fk_column fk = cp_name c) (tp_foreign_keys table)")
  case None
  with assms show ?thesis by (auto simp: schema_fields_def schema_plain_def plain_field_def split: if_splits)
next
  case (Some fk)
  from find_in[OF Some] assms show ?thesis
    by (auto simp: Some schema_fields_def schema_plain_def plain_field_def split: if_splits)
qed

lemma schema_fields_pk:
  assumes "schema_plain table" and "c \<in> set (tp_columns table)"
  shows "str ''pk'' \<in> set (schema_fields table c) \<longleftrightarrow> cp_is_primary_key c"
  using assms by (auto simp: schema_fields_def schema_plain_def split: option.splits if_splits)

lemma schema_line_fields:
  assumes "schema_plain table" and "c \<in> set (tp_columns table)"
  shows "split_on 58 (schema_line table c) = schema_fields table c"
proof -
  have "split_on 58 (join [58] (schema_fields table c)) = schema_fields table c"
    by (rule split_on_join) (use schema_fields_plain[OF assms] in \<open>auto simp: plain_field_def schema_fields_def\<close>)
  then show ?thesis by (simp add: schema_line_join)
qed

lemma set_join: "set (join sep xs) \<subseteq> set sep \<union> \<Union> (set ` set xs)"
  by (induction sep xs rule: join.induct) auto

lemma schema_line_one_line:
  assumes "schema_plain table" and "c \<in> set (tp_columns table)"
  shows "10 \<notin> set (schema_line table c)" and "13 \<notin> set (schema_line table c)" and "schema_line table c \<noteq> []"
proof -
  have "f \<in> set (schema_fields table c) \<Longrightarrow> 10 \<notin> set f \<and> 13 \<notin> set f" for f
    using schema_fields_plain[OF assms] by (auto simp: plain_field_def)
  then show "10 \<notin> set (schema_line table c)" "13 \<notin> set (schema_line table c)"
    unfolding schema_line_join using set_join[of "str '':''" "schema_fields table c"] by fastforce+
  show "schema_line table c \<noteq> []" by (simp add: schema_line_def)
qed

lemma schema_entry_lines:
  assumes "schema_plain table"
  shows "str_lines (render_schema_entry table) = map (schema_line table) (tp_columns table)"
proof -
  have "10 \<notin> set l \<and> (l = [] \<or> last l \<noteq> 13)" if l: "l \<in> set (map (schema_line table) (tp_columns table))" for l
  proof -
    obtain c where c: "c \<in> set (tp_columns table)" "l = schema_line table c" using l unfolding set_map by blast
    then show ?thesis
      using schema_line_one_line[OF assms c(1)] last_in_set[of l] by (metis)
  qed
  then have "str_lines (concat (map (\<lambda>l. l @ [10]) (map (schema_line table) (tp_columns table)))) =
      map (schema_line table) (tp_columns table)" by (rule str_lines_concat)
  then show ?thesis by (simp add: render_schema_entry_def comp_def)
qed

end
