(* ===== verification/Import.thy ===== *)
theory Import
  imports Analyser
begin

text \<open>
  \<open>src/modules/import.rs\<close>: the import of a SQL dump by its storage plan, and the import of the
  difference of two archives. The parser of a dialect is the parameter of the SQL layer, once for each
  dialect. Reading an archive (crates \<open>tar\<close> and \<open>brotli\<close>, and the file system) is the parameter
  \<open>archive_reader\<close>. The entries of an archive are in a hash map whose order is not
  specified: they are a list without repeated paths, in any order.
\<close>

section \<open>SQL dumps\<close>

datatype dialect = My_Sql | Postgre_Sql | SQLite | Generic

definition dialect_of :: "bytes \<Rightarrow> dialect" where
  "dialect_of format =
     (if format = str ''mysql'' then My_Sql else if format = str ''postgres'' then Postgre_Sql
      else if format = str ''sqlite'' then SQLite else Generic)"

definition parse_sql_dump :: "(dialect \<Rightarrow> sql_library) \<Rightarrow> bytes \<Rightarrow> bytes \<Rightarrow> statement list" where
  "parse_sql_dump libs content format =
     (case parse_sql (libs (dialect_of format)) content of Some statements \<Rightarrow> statements | None \<Rightarrow> [])"

record import_result =
  ir_tables :: nat
  ir_rows :: nat
  ir_relationships :: nat
  ir_errors :: nat

definition parse_value :: "sql_library \<Rightarrow> sql_expr \<Rightarrow> bytes" where
  "parse_value lib expression =
     (case expression of
        Value (Number number) \<Rightarrow> number
      | Value (Single_Quoted_String text) \<Rightarrow> text
      | Value (Double_Quoted_String text) \<Rightarrow> text
      | Value Null \<Rightarrow> []
      | Value (Boolean b) \<Rightarrow> (if b then str ''true'' else str ''false'')
      | _ \<Rightarrow> show_expr lib expression)"

definition column_value :: "sql_library \<Rightarrow> table_plan \<Rightarrow> sql_expr list \<Rightarrow> bytes \<Rightarrow> bytes option" where
  "column_value lib table values name =
     map_option (\<lambda>index. parse_value lib (values ! index)) (position (\<lambda>column. cp_name column = name) (tp_columns table))"

definition key_parts :: "sql_library \<Rightarrow> table_plan \<Rightarrow> sql_expr list \<Rightarrow> bytes list" where
  "key_parts lib table values = List.map_filter (column_value lib table values) (tp_primary_key table)"

definition row_value :: "sql_library \<Rightarrow> table_plan \<Rightarrow> sql_expr list \<Rightarrow> bytes" where
  "row_value lib table values =
     join [10] (map (\<lambda>(column, v). parse_value lib v)
       (filter (\<lambda>(column, v). \<not> cp_is_primary_key column) (zip (tp_columns table) values)))"

definition rel_key :: "table_plan \<Rightarrow> bytes list \<Rightarrow> foreign_key_plan \<Rightarrow> bytes \<Rightarrow> bytes" where
  "rel_key table parts fk fk_value =
     str ''_rel:'' @ fk_references_table fk @ str '':'' @ fk_value @ str '':'' @ tp_name table @ str '':'' @ join (str '':'') parts"

fun write_relationships ::
  "sql_library \<Rightarrow> 'st data_bus \<Rightarrow> table_plan \<Rightarrow> sql_expr list \<Rightarrow> bytes list \<Rightarrow> foreign_key_plan list \<Rightarrow> nat \<Rightarrow> ('st, nat) op" where
  "write_relationships lib bus table values parts [] relationship_count = op_ret relationship_count"
| "write_relationships lib bus table values parts (fk # fks) relationship_count =
     (case column_value lib table values (fk_column fk) of
        Some fk_value \<Rightarrow>
          op_bind (bus_write_value bus (rel_key table parts fk fk_value) []) (\<lambda>_.
          write_relationships lib bus table values parts fks (relationship_count + 1))
      | None \<Rightarrow> write_relationships lib bus table values parts fks relationship_count)"

text \<open>\<open>Err(())\<close> is \<open>None\<close>.\<close>

definition write_row :: "sql_library \<Rightarrow> 'st data_bus \<Rightarrow> table_plan \<Rightarrow> sql_expr list \<Rightarrow> ('st, nat option) op" where
  "write_row lib bus table values =
     (if length values \<noteq> length (tp_columns table) then op_ret None
      else let parts = key_parts lib table values
           in if parts = [] then op_ret None
              else op_bind (bus_write_value bus (tp_name table @ str '':'' @ join (str '':'') parts) (row_value lib table values)) (\<lambda>_.
                   op_bind (write_relationships lib bus table values parts (tp_foreign_keys table) 0) (\<lambda>relationship_count.
                   op_ret (Some relationship_count))))"

fun write_rows :: "sql_library \<Rightarrow> 'st data_bus \<Rightarrow> table_plan \<Rightarrow> sql_expr list list \<Rightarrow> import_result \<Rightarrow> ('st, import_result) op" where
  "write_rows lib bus table [] result = op_ret result"
| "write_rows lib bus table (row # rows) result =
     op_bind (write_row lib bus table row) (\<lambda>r.
     case r of
       Some relationship_count \<Rightarrow>
         write_rows lib bus table rows
           (result\<lparr>ir_rows := ir_rows result + 1, ir_relationships := ir_relationships result + relationship_count\<rparr>)
     | None \<Rightarrow> write_rows lib bus table rows (result\<lparr>ir_errors := ir_errors result + 1\<rparr>))"

fun import_statements :: "sql_library \<Rightarrow> 'st data_bus \<Rightarrow> storage_plan \<Rightarrow> statement list \<Rightarrow> import_result \<Rightarrow> ('st, import_result) op" where
  "import_statements lib bus plan [] result = op_ret result"
| "import_statements lib bus plan (statement # statements) result =
     op_bind (case statement of
         Insert name (Some (Values rows)) \<Rightarrow>
           (case find (\<lambda>table. tp_name table = strip_quotes name) (sp_tables plan) of
              Some table \<Rightarrow> write_rows lib bus table rows result
            | None \<Rightarrow> op_ret result)
       | _ \<Rightarrow> op_ret result) (\<lambda>result.
     import_statements lib bus plan statements result)"

fun write_schemas :: "'st data_bus \<Rightarrow> table_plan list \<Rightarrow> import_result \<Rightarrow> ('st, import_result) op" where
  "write_schemas bus [] result = op_ret result"
| "write_schemas bus (table # tables) result =
     op_bind (bus_write_value bus (str ''_schema:'' @ tp_name table) (render_schema_entry table)) (\<lambda>_.
     write_schemas bus tables (result\<lparr>ir_tables := ir_tables result + 1\<rparr>))"

definition parse_import :: "sql_library \<Rightarrow> 'st data_bus \<Rightarrow> statement list \<Rightarrow> storage_plan \<Rightarrow> ('st, import_result) op" where
  "parse_import lib bus statements plan =
     op_bind (write_schemas bus (sp_tables plan) \<lparr>ir_tables = 0, ir_rows = 0, ir_relationships = 0, ir_errors = 0\<rparr>) (\<lambda>result.
     import_statements lib bus plan statements result)"

section \<open>Differences of archives\<close>

record diff_result =
  dr_additions :: nat
  dr_modifications :: nat
  dr_deletions :: nat

definition parse_tar_path_to_key :: "bytes \<Rightarrow> bytes" where
  "parse_tar_path_to_key path =
     (case strip_prefix (str ''_schema/'') path of
        Some table_name \<Rightarrow> str ''_schema:'' @ table_name
      | None \<Rightarrow>
          (case strip_prefix (str ''_rel/'') path of
             Some rel_name \<Rightarrow> str ''_rel:'' @ rel_name
           | None \<Rightarrow>
               (case strip_prefix (str ''_ttl/'') path of
                  Some ttl_path \<Rightarrow> str ''_ttl:'' @ replace_first 47 58 ttl_path
                | None \<Rightarrow> replace_first 47 58 path)))"

text \<open>\<open>trim().parse::<u64>()\<close>: a number alone, with whitespace around it.\<close>

definition parse_ttl :: "bytes \<Rightarrow> u64 option" where
  "parse_ttl v =
     Option.bind (from_utf8 v) (\<lambda>ttl_str.
     case split_whitespace ttl_str of
       [w] \<Rightarrow> map_option of_nat (parse_unsigned (2 ^ 64) w)
     | _ \<Rightarrow> None)"

definition write_diff_entry :: "'st data_bus \<Rightarrow> bytes \<Rightarrow> bytes \<Rightarrow> bytes \<Rightarrow> ('st, unit) op" where
  "write_diff_entry bus key v path =
     (case strip_prefix (str ''_ttl/'') path of
        Some ttl_path \<Rightarrow>
          (case parse_ttl v of
             Some ttl_ms \<Rightarrow>
               if 0 < ttl_ms then bus_write_ttl bus (replace_first 47 58 ttl_path) (from_millis ttl_ms) else op_ret ()
           | None \<Rightarrow> op_ret ())
      | None \<Rightarrow> bus_write_value bus key v)"

fun diff_new :: "'st data_bus \<Rightarrow> (bytes \<times> bytes) list \<Rightarrow> (bytes \<times> bytes) list \<Rightarrow> diff_result \<Rightarrow> ('st, diff_result) op" where
  "diff_new bus old_entries [] result = op_ret result"
| "diff_new bus old_entries ((path, new_value) # entries) result =
     (if path = str ''_meta/version'' then diff_new bus old_entries entries result
      else case map_of old_entries path of
        Some old_value \<Rightarrow>
          if old_value = new_value then diff_new bus old_entries entries result
          else op_bind (write_diff_entry bus (parse_tar_path_to_key path) new_value path) (\<lambda>_.
               diff_new bus old_entries entries (result\<lparr>dr_modifications := dr_modifications result + 1\<rparr>))
      | None \<Rightarrow>
          op_bind (write_diff_entry bus (parse_tar_path_to_key path) new_value path) (\<lambda>_.
          diff_new bus old_entries entries (result\<lparr>dr_additions := dr_additions result + 1\<rparr>)))"

fun diff_old :: "'st data_bus \<Rightarrow> (bytes \<times> bytes) list \<Rightarrow> bytes list \<Rightarrow> diff_result \<Rightarrow> ('st, diff_result) op" where
  "diff_old bus new_entries [] result = op_ret result"
| "diff_old bus new_entries (path # paths) result =
     (if path = str ''_meta/version'' then diff_old bus new_entries paths result
      else if map_of new_entries path = None then
        op_bind (bus_delete_value bus (parse_tar_path_to_key path)) (\<lambda>_.
        diff_old bus new_entries paths (result\<lparr>dr_deletions := dr_deletions result + 1\<rparr>))
      else diff_old bus new_entries paths result)"

definition diff_entries :: "'st data_bus \<Rightarrow> (bytes \<times> bytes) list \<Rightarrow> (bytes \<times> bytes) list \<Rightarrow> ('st, diff_result) op" where
  "diff_entries bus old_entries new_entries =
     op_bind (diff_new bus old_entries new_entries \<lparr>dr_additions = 0, dr_modifications = 0, dr_deletions = 0\<rparr>) (\<lambda>result.
     diff_old bus new_entries (map fst old_entries) result)"

text \<open>
  The archive on disk: opening it, and its entries in order, read through the decompressor or as it
  is; \<open>None\<close> where reading fails at some point. A later entry with the same path replaces an earlier one.
\<close>

record archive_reader =
  ar_open :: "bytes \<Rightarrow> bytes + bytes"
  ar_brotli_tar :: "bytes \<Rightarrow> (bytes \<times> bytes) list option"
  ar_tar :: "bytes \<Rightarrow> (bytes \<times> bytes) list option"

definition read_tar_entries :: "(bytes \<times> bytes) list option \<Rightarrow> (bytes \<times> bytes) list option" where
  "read_tar_entries entries = map_option (\<lambda>es. fold (\<lambda>(path, d). hash_insert path d) es []) entries"

definition read_tric_archive :: "archive_reader \<Rightarrow> bytes \<Rightarrow> bytes + (bytes \<times> bytes) list" where
  "read_tric_archive ar path =
     (case ar_open ar path of
        Inl error \<Rightarrow> Inl (str ''cannot open '' @ path @ str '': '' @ error)
      | Inr file \<Rightarrow>
          (case read_tar_entries (ar_brotli_tar ar file) of
             Some parsed \<Rightarrow> Inr parsed
           | None \<Rightarrow>
               (case ar_open ar path of
                  Inl error \<Rightarrow> Inl (str ''cannot open '' @ path @ str '': '' @ error)
                | Inr file \<Rightarrow>
                    (case read_tar_entries (ar_tar ar file) of
                       Some parsed \<Rightarrow> Inr parsed
                     | None \<Rightarrow> Inl (str ''cannot parse '' @ path @ str '' as .tric archive'')))))"

definition parse_diff_import :: "archive_reader \<Rightarrow> 'st data_bus \<Rightarrow> bytes \<Rightarrow> bytes \<Rightarrow> ('st, bytes + diff_result) op" where
  "parse_diff_import ar bus old_path new_path =
     (case read_tric_archive ar old_path of
        Inl error \<Rightarrow> op_ret (Inl error)
      | Inr old_entries \<Rightarrow>
          (case read_tric_archive ar new_path of
             Inl error \<Rightarrow> op_ret (Inl error)
           | Inr new_entries \<Rightarrow> op_bind (diff_entries bus old_entries new_entries) (\<lambda>result. op_ret (Inr result))))"

section \<open>What an import writes\<close>

definition put :: "'st data_bus \<Rightarrow> bytes \<times> bytes \<Rightarrow> ('st, unit) op" where
  "put bus w = bus_write_value bus (fst w) (snd w)"

definition write_all :: "(bytes \<times> bytes) list \<Rightarrow> (bytes \<Rightarrow> bytes option) \<Rightarrow> bytes \<Rightarrow> bytes option" where
  "write_all ws m = fold (\<lambda>(k, v) m. m(k \<mapsto> v)) ws m"

definition rel_list ::
  "sql_library \<Rightarrow> table_plan \<Rightarrow> sql_expr list \<Rightarrow> bytes list \<Rightarrow> foreign_key_plan list \<Rightarrow> (bytes \<times> bytes) list" where
  "rel_list lib table values parts fks =
     List.map_filter (\<lambda>fk. map_option (\<lambda>v. (rel_key table parts fk v, [])) (column_value lib table values (fk_column fk))) fks"

definition rel_writes :: "sql_library \<Rightarrow> table_plan \<Rightarrow> sql_expr list \<Rightarrow> (bytes \<times> bytes) list" where
  "rel_writes lib table values = rel_list lib table values (key_parts lib table values) (tp_foreign_keys table)"

definition row_ok :: "sql_library \<Rightarrow> table_plan \<Rightarrow> sql_expr list \<Rightarrow> bool" where
  "row_ok lib table values \<longleftrightarrow> length values = length (tp_columns table) \<and> key_parts lib table values \<noteq> []"

definition row_writes :: "sql_library \<Rightarrow> table_plan \<Rightarrow> sql_expr list \<Rightarrow> (bytes \<times> bytes) list" where
  "row_writes lib table values =
     (if row_ok lib table values
      then (tp_name table @ str '':'' @ join (str '':'') (key_parts lib table values), row_value lib table values)
           # rel_writes lib table values
      else [])"

text \<open>The rows of a dump that belong to a planned table, in order.\<close>

fun planned_rows :: "storage_plan \<Rightarrow> statement \<Rightarrow> (table_plan \<times> sql_expr list) list" where
  "planned_rows plan (Insert name (Some (Values rows))) =
     (case find (\<lambda>table. tp_name table = strip_quotes name) (sp_tables plan) of
        Some table \<Rightarrow> map (Pair table) rows
      | None \<Rightarrow> [])"
| "planned_rows plan _ = []"

definition schema_writes :: "storage_plan \<Rightarrow> (bytes \<times> bytes) list" where
  "schema_writes plan = map (\<lambda>table. (str ''_schema:'' @ tp_name table, render_schema_entry table)) (sp_tables plan)"

definition import_writes :: "sql_library \<Rightarrow> statement list \<Rightarrow> storage_plan \<Rightarrow> (bytes \<times> bytes) list" where
  "import_writes lib statements plan =
     schema_writes plan @ concat (map (\<lambda>(table, row). row_writes lib table row) (concat (map (planned_rows plan) statements)))"

definition counted :: "sql_library \<Rightarrow> (table_plan \<times> sql_expr list) list \<Rightarrow> import_result \<Rightarrow> import_result" where
  "counted lib rows result =
     result\<lparr>ir_rows := ir_rows result + length (filter (\<lambda>(table, row). row_ok lib table row) rows),
       ir_relationships := ir_relationships result
         + sum_list (map (\<lambda>(table, row). if row_ok lib table row then length (rel_writes lib table row) else 0) rows),
       ir_errors := ir_errors result + length (filter (\<lambda>(table, row). \<not> row_ok lib table row) rows)\<rparr>"

lemma op_each_append: "op_each f (xs @ ys) = op_bind (op_each f xs) (\<lambda>_. op_each f ys)"
  by (induction xs) (simp_all add: op_bind_assoc)

lemma write_relationships_eq:
  "write_relationships lib bus table values parts fks n =
     op_bind (op_each (put bus) (rel_list lib table values parts fks)) (\<lambda>_. op_ret (n + length (rel_list lib table values parts fks)))"
  by (induction fks arbitrary: n) (simp_all add: rel_list_def map_filter_simps put_def op_bind_assoc split: option.split)

lemma write_row_eq:
  "write_row lib bus table values =
     op_bind (op_each (put bus) (row_writes lib table values)) (\<lambda>_.
     op_ret (if row_ok lib table values then Some (length (rel_writes lib table values)) else None))"
  by (simp add: write_row_def row_writes_def row_ok_def rel_writes_def write_relationships_eq put_def op_bind_assoc Let_def)

lemma counted_append: "counted lib (xs @ ys) result = counted lib ys (counted lib xs result)"
  by (simp add: counted_def)

lemma counted_nil [simp]: "counted lib [] result = result"
  by (simp add: counted_def)

lemma counted_Cons:
  "counted lib ((table, row) # rows) result = counted lib rows
     (if row_ok lib table row
      then result\<lparr>ir_rows := ir_rows result + 1, ir_relationships := ir_relationships result + length (rel_writes lib table row)\<rparr>
      else result\<lparr>ir_errors := ir_errors result + 1\<rparr>)"
  by (simp add: counted_def)

lemma write_rows_eq:
  "write_rows lib bus table rows result =
     op_bind (op_each (put bus) (concat (map (row_writes lib table) rows))) (\<lambda>_.
     op_ret (counted lib (map (Pair table) rows) result))"
proof (induction rows arbitrary: result)
  case Nil
  show ?case by simp
next
  case (Cons row rows)
  then show ?case
    by (cases "row_ok lib table row") (simp_all add: write_row_eq op_each_append op_bind_assoc counted_Cons)
qed

lemma import_statements_eq:
  "import_statements lib bus plan statements result =
     op_bind (op_each (put bus) (concat (map (\<lambda>(table, row). row_writes lib table row)
       (concat (map (planned_rows plan) statements))))) (\<lambda>_.
     op_ret (counted lib (concat (map (planned_rows plan) statements)) result))"
proof (induction statements arbitrary: result)
  case Nil
  show ?case by simp
next
  case (Cons statement statements)
  have "(case statement of
         Insert name (Some (Values rows)) \<Rightarrow>
           (case find (\<lambda>table. tp_name table = strip_quotes name) (sp_tables plan) of
              Some table \<Rightarrow> write_rows lib bus table rows result
            | None \<Rightarrow> op_ret result)
       | _ \<Rightarrow> op_ret result) =
     op_bind (op_each (put bus) (concat (map (\<lambda>(table, row). row_writes lib table row) (planned_rows plan statement)))) (\<lambda>_.
     op_ret (counted lib (planned_rows plan statement) result))"
    by (cases "(plan, statement)" rule: planned_rows.cases) (simp_all add: write_rows_eq comp_def split: option.split)
  then show ?case
    by (simp add: Cons.IH op_each_append op_bind_assoc counted_append)
qed

lemma write_schemas_eq:
  "write_schemas bus tables result =
     op_bind (op_each (put bus) (map (\<lambda>table. (str ''_schema:'' @ tp_name table, render_schema_entry table)) tables)) (\<lambda>_.
     op_ret (result\<lparr>ir_tables := ir_tables result + length tables\<rparr>))"
  by (induction tables arbitrary: result) (simp_all add: put_def op_bind_assoc)

definition import_count :: "sql_library \<Rightarrow> statement list \<Rightarrow> storage_plan \<Rightarrow> import_result" where
  "import_count lib statements plan =
     (let rows = concat (map (planned_rows plan) statements)
      in counted lib rows \<lparr>ir_tables = length (sp_tables plan), ir_rows = 0, ir_relationships = 0, ir_errors = 0\<rparr>)"

lemma parse_import_eq:
  "parse_import lib bus statements plan =
     op_bind (op_each (put bus) (import_writes lib statements plan)) (\<lambda>_. op_ret (import_count lib statements plan))"
  by (simp add: parse_import_def write_schemas_eq import_statements_eq import_writes_def schema_writes_def import_count_def
      op_each_append op_bind_assoc Let_def)

lemma import_count_writes:
  "ir_tables (import_count lib statements plan) + ir_rows (import_count lib statements plan)
     + ir_relationships (import_count lib statements plan) = length (import_writes lib statements plan)"
proof -
  have "length (concat (map (\<lambda>(table, row). row_writes lib table row) rows)) =
      length (filter (\<lambda>(table, row). row_ok lib table row) rows)
      + sum_list (map (\<lambda>(table, row). if row_ok lib table row then length (rel_writes lib table row) else 0) rows)" for rows
    by (induction rows) (auto simp: row_writes_def)
  then show ?thesis by (simp add: import_count_def counted_def import_writes_def schema_writes_def Let_def)
qed

context kv_bus begin

lemma put_all:
  "good s \<Longrightarrow> \<forall>w \<in> set ws. storable (fst w) \<Longrightarrow>
    returns (op_each (put bus) ws) s (\<lambda>_ s'. bus_step good now view s s' (\<lambda>t. write_all ws))"
proof (induction ws arbitrary: s)
  case Nil
  then show ?case by (simp add: wp write_all_def bus_step_def)
next
  case (Cons w ws)
  have "storable (fst w)" using Cons.prems(2) by simp
  show ?case
    unfolding op_each.simps returns_bind put_def[of bus w]
  proof (rule returns_mono[OF write_law[OF Cons.prems(1) \<open>storable (fst w)\<close>]])
    fix u s'
    assume step: "bus_step good now view s s' (\<lambda>t m. m(fst w \<mapsto> snd w))"
    then have "good s'" by (simp add: bus_step_def)
    show "returns (op_each (put bus) ws) s' (\<lambda>_ s''. bus_step good now view s s'' (\<lambda>t. write_all (w # ws)))"
      by (rule returns_mono[OF Cons.IH[OF \<open>good s'\<close>]])
        (use Cons.prems(2) step in \<open>auto simp: write_all_def bus_step_def case_prod_beta\<close>)
  qed
qed

lemma parse_import_spec:
  assumes "good s" and "\<forall>w \<in> set (import_writes lib statements plan). storable (fst w)"
  shows "returns (parse_import lib bus statements plan) s (\<lambda>result s'. result = import_count lib statements plan \<and>
    bus_step good now view s s' (\<lambda>t. write_all (import_writes lib statements plan)))"
  unfolding parse_import_eq returns_bind returns_ret
  by (rule returns_mono[OF put_all[OF assms]]) simp

end

section \<open>What the import of a difference does\<close>

definition data_path :: "bytes \<Rightarrow> bool" where
  "data_path path \<longleftrightarrow> path \<noteq> str ''_meta/version'' \<and> \<not> prefix (str ''_ttl/'') path"

definition diff_writes :: "(bytes \<times> bytes) list \<Rightarrow> (bytes \<times> bytes) list \<Rightarrow> (bytes \<times> bytes) list" where
  "diff_writes old_entries new_entries =
     map (\<lambda>(path, v). (parse_tar_path_to_key path, v))
       (filter (\<lambda>(path, v). path \<noteq> str ''_meta/version'' \<and> map_of old_entries path \<noteq> Some v) new_entries)"

definition diff_deletes :: "(bytes \<times> bytes) list \<Rightarrow> bytes list \<Rightarrow> bytes list" where
  "diff_deletes new_entries paths =
     map parse_tar_path_to_key (filter (\<lambda>path. path \<noteq> str ''_meta/version'' \<and> map_of new_entries path = None) paths)"

definition added :: "(bytes \<times> bytes) list \<Rightarrow> (bytes \<times> bytes) list \<Rightarrow> nat" where
  "added old_entries new_entries =
     length (filter (\<lambda>(path, v). path \<noteq> str ''_meta/version'' \<and> map_of old_entries path = None) new_entries)"

definition modified :: "(bytes \<times> bytes) list \<Rightarrow> (bytes \<times> bytes) list \<Rightarrow> nat" where
  "modified old_entries new_entries =
     length (filter (\<lambda>(path, v). path \<noteq> str ''_meta/version'' \<and> map_of old_entries path \<noteq> None \<and>
       map_of old_entries path \<noteq> Some v) new_entries)"

lemma diff_new_eq:
  assumes "\<forall>(path, v) \<in> set new_entries. \<not> prefix (str ''_ttl/'') path"
  shows "diff_new bus old_entries new_entries result =
    op_bind (op_each (put bus) (diff_writes old_entries new_entries)) (\<lambda>_.
    op_ret (result\<lparr>dr_additions := dr_additions result + added old_entries new_entries,
      dr_modifications := dr_modifications result + modified old_entries new_entries\<rparr>))"
  using assms
proof (induction new_entries arbitrary: result)
  case Nil
  show ?case by (simp add: diff_writes_def added_def modified_def)
next
  case (Cons e entries)
  obtain path v where e: "e = (path, v)" by (cases e)
  have entry: "write_diff_entry bus (parse_tar_path_to_key path) v path = put bus (parse_tar_path_to_key path, v)"
    using Cons.prems by (simp add: e write_diff_entry_def strip_prefix_def put_def)
  have "\<forall>(path, v) \<in> set entries. \<not> prefix (str ''_ttl/'') path" using Cons.prems by simp
  note IH = Cons.IH[OF this]
  show ?case
    by (cases "map_of old_entries path")
      (simp_all add: e entry IH op_bind_assoc diff_writes_def added_def modified_def del: str_simps)
qed

lemma diff_old_eq:
  "diff_old bus new_entries paths result =
     op_bind (op_each (bus_delete_value bus) (diff_deletes new_entries paths)) (\<lambda>_.
     op_ret (result\<lparr>dr_deletions := dr_deletions result + length (diff_deletes new_entries paths)\<rparr>))"
  by (induction bus new_entries paths result rule: diff_old.induct) (simp_all add: diff_deletes_def op_bind_assoc)

definition diff_view :: "(bytes \<times> bytes) list \<Rightarrow> (bytes \<times> bytes) list \<Rightarrow> (bytes \<Rightarrow> bytes option) \<Rightarrow> bytes \<Rightarrow> bytes option" where
  "diff_view old_entries new_entries m k =
     (if k \<in> set (diff_deletes new_entries (map fst old_entries)) then None
      else write_all (diff_writes old_entries new_entries) m k)"

context kv_bus begin

lemma delete_all:
  "good s \<Longrightarrow> returns (op_each (bus_delete_value bus) ks) s (\<lambda>_ s'.
    bus_step good now view s s' (\<lambda>t m k. if k \<in> set ks then None else m k))"
proof (induction ks arbitrary: s)
  case Nil
  then show ?case by (simp add: wp bus_step_def)
next
  case (Cons k ks)
  show ?case
    unfolding op_each.simps returns_bind
  proof (rule returns_mono[OF delete_law[OF Cons.prems, of k]])
    fix u s'
    assume step: "bus_step good now view s s' (\<lambda>t m. m(k := None))"
    then have "good s'" by (simp add: bus_step_def)
    show "returns (op_each (bus_delete_value bus) ks) s' (\<lambda>_ s''.
        bus_step good now view s s'' (\<lambda>t m j. if j \<in> set (k # ks) then None else m j))"
      by (rule returns_mono[OF Cons.IH[OF \<open>good s'\<close>]]) (use step in \<open>auto simp: bus_step_def fun_eq_iff\<close>)
  qed
qed

lemma diff_entries_spec:
  assumes "good s" and "\<forall>(path, v) \<in> set new_entries. \<not> prefix (str ''_ttl/'') path"
    and "\<forall>w \<in> set (diff_writes old_entries new_entries). storable (fst w)"
  shows "returns (diff_entries bus old_entries new_entries) s (\<lambda>r s'.
    r = \<lparr>dr_additions = added old_entries new_entries, dr_modifications = modified old_entries new_entries,
      dr_deletions = length (diff_deletes new_entries (map fst old_entries))\<rparr> \<and>
    bus_step good now view s s' (\<lambda>t. diff_view old_entries new_entries))"
  unfolding diff_entries_def diff_new_eq[OF assms(2)] diff_old_eq op_bind_assoc op_bind_ret returns_bind
proof (rule returns_mono[OF put_all[OF assms(1,3)]], goal_cases)
  case (1 u s')
  then have "good s'" by (simp add: bus_step_def)
  show ?case
    by (rule returns_mono[OF delete_all[OF \<open>good s'\<close>]])
      (use 1 in \<open>auto simp: wp bus_step_def diff_view_def fun_eq_iff\<close>)
qed

end

text \<open>Applying the difference to what the old archive holds gives what the new archive holds.\<close>

lemma write_all_get: "write_all ws m k = (case map_of (rev ws) k of Some v \<Rightarrow> Some v | None \<Rightarrow> m k)"
proof (induction ws arbitrary: m)
  case Nil
  show ?case by (simp add: write_all_def)
next
  case (Cons w ws)
  then show ?case by (cases w) (auto simp: write_all_def map_of_append map_add_def split: option.split)
qed

lemma diff_view_syncs:
  assumes distinct: "distinct (map fst new_entries)"
    and inj: "inj_on parse_tar_path_to_key (fst ` (set old_entries \<union> set new_entries))"
    and old: "\<forall>(path, v) \<in> set old_entries. path \<noteq> str ''_meta/version'' \<longrightarrow> m (parse_tar_path_to_key path) = Some v"
  shows "(path, v) \<in> set new_entries \<Longrightarrow> path \<noteq> str ''_meta/version'' \<Longrightarrow>
      diff_view old_entries new_entries m (parse_tar_path_to_key path) = Some v"
    and "path \<in> fst ` set old_entries \<Longrightarrow> path \<notin> fst ` set new_entries \<Longrightarrow> path \<noteq> str ''_meta/version'' \<Longrightarrow>
      diff_view old_entries new_entries m (parse_tar_path_to_key path) = None"
    and "k \<notin> parse_tar_path_to_key ` fst ` (set old_entries \<union> set new_entries) \<Longrightarrow> diff_view old_entries new_entries m k = m k"
proof -
  let ?W = "diff_writes old_entries new_entries" and ?D = "diff_deletes new_entries (map fst old_entries)"
  have key: "p = q" if "parse_tar_path_to_key p = parse_tar_path_to_key q" "p \<in> fst ` (set old_entries \<union> set new_entries)"
      "q \<in> fst ` (set old_entries \<union> set new_entries)" for p q
    using inj that by (rule inj_onD)
  have D: "k \<in> set ?D \<longleftrightarrow> (\<exists>p \<in> fst ` set old_entries. k = parse_tar_path_to_key p \<and> p \<noteq> str ''_meta/version'' \<and>
      p \<notin> fst ` set new_entries)" for k
    by (auto simp: diff_deletes_def map_of_eq_None_iff)
  show "diff_view old_entries new_entries m (parse_tar_path_to_key path) = Some v"
    if new: "(path, v) \<in> set new_entries" and p: "path \<noteq> str ''_meta/version''"
  proof -
    have path: "path \<in> fst ` set new_entries" using new by force
    have "parse_tar_path_to_key path \<notin> set ?D"
    proof
      assume "parse_tar_path_to_key path \<in> set ?D"
      then obtain q where "q \<in> fst ` set old_entries" "parse_tar_path_to_key path = parse_tar_path_to_key q"
        and q: "q \<notin> fst ` set new_entries" unfolding D by blast
      with key[of path q] path have "path = q" by blast
      with q path show False by simp
    qed
    moreover have "w = v" if "map_of (rev ?W) (parse_tar_path_to_key path) = Some w" for w
    proof -
      from map_of_SomeD[OF that] obtain q where q: "(q, w) \<in> set new_entries" "parse_tar_path_to_key q = parse_tar_path_to_key path"
        by (auto simp: diff_writes_def)
      then have "q \<in> fst ` set new_entries" by force
      with key[OF q(2)] path have "q = path" by blast
      with q(1) show ?thesis using eq_key_imp_eq_value[OF distinct _ new] by blast
    qed
    moreover have "m (parse_tar_path_to_key path) = Some v" if "map_of (rev ?W) (parse_tar_path_to_key path) = None"
    proof -
      have "parse_tar_path_to_key path \<notin> fst ` set ?W" using that by (simp add: map_of_eq_None_iff)
      then have "(parse_tar_path_to_key path, v) \<notin> set ?W" by force
      then have "map_of old_entries path = Some v"
        using new p unfolding diff_writes_def by (auto simp del: str_simps intro: rev_image_eqI)
      from map_of_SomeD[OF this] show ?thesis using old p by blast
    qed
    ultimately show ?thesis by (auto simp: diff_view_def write_all_get split: option.split)
  qed
  show "diff_view old_entries new_entries m (parse_tar_path_to_key path) = None"
    if "path \<in> fst ` set old_entries" "path \<notin> fst ` set new_entries" "path \<noteq> str ''_meta/version''"
    using that by (auto simp: diff_view_def D)
  show "diff_view old_entries new_entries m k = m k"
    if k: "k \<notin> parse_tar_path_to_key ` fst ` (set old_entries \<union> set new_entries)"
  proof -
    have "k \<notin> fst ` set ?W" using k by (force simp: diff_writes_def)
    then have "map_of (rev ?W) k = None" by (simp add: map_of_eq_None_iff)
    moreover have "k \<notin> set ?D" using k by (force simp: D)
    ultimately show ?thesis by (simp add: diff_view_def write_all_get)
  qed
qed

section \<open>Import into the two-tier bus\<close>

text \<open>C30: The import of a dump writes the schema entry of each planned table, then for each well-shaped row
  of a planned table, in the order of the dump, its record and one relationship for each foreign key
  with a value, and nothing else; the numbers it reports are the numbers of these writes, and a row
  of the wrong width or without a key is counted as an error and skipped.\<close>

theorem import_writes_plan:
  assumes "permutive_inv eng P" and "\<forall>w \<in> set (import_writes lib statements plan). storable_key (fst w)"
  shows "returns (parse_import lib (permutive_bus eng) statements plan) P (\<lambda>result P'. permutive_inv eng P' \<and>
    ir_tables result + ir_rows result + ir_relationships result = length (import_writes lib statements plan) \<and>
    ir_rows result + ir_errors result = length (concat (map (planned_rows plan) statements)) \<and>
    (\<forall>t. permutive_now P' \<le> t \<longrightarrow>
      permutive_view eng P' t = write_all (import_writes lib statements plan) (permutive_view eng P t)))"
proof (rule returns_mono[OF pb.parse_import_spec[OF assms]])
  have "ir_rows (import_count lib statements plan) + ir_errors (import_count lib statements plan)
      = length (concat (map (planned_rows plan) statements))"
    using sum_length_filter_compl[of "\<lambda>(table, row). row_ok lib table row" "concat (map (planned_rows plan) statements)"]
    by (simp add: import_count_def counted_def Let_def case_prod_unfold)
  then show "result = import_count lib statements plan \<and> permutive_stepped eng P P' (\<lambda>t. write_all (import_writes lib statements plan)) \<Longrightarrow>
      permutive_inv eng P' \<and>
      ir_tables result + ir_rows result + ir_relationships result = length (import_writes lib statements plan) \<and>
      ir_rows result + ir_errors result = length (concat (map (planned_rows plan) statements)) \<and>
      (\<forall>t. permutive_now P' \<le> t \<longrightarrow>
        permutive_view eng P' t = write_all (import_writes lib statements plan) (permutive_view eng P t))" for result P'
    using import_count_writes[of lib statements plan] by (simp add: bus_step_def)
qed

definition sample_plan :: storage_plan where
  "sample_plan = \<lparr>sp_tables = [\<lparr>tp_name = str ''users'',
     tp_columns = [\<lparr>cp_name = str ''id'', cp_data_type = str ''INT'', cp_is_primary_key = True\<rparr>,
       \<lparr>cp_name = str ''name'', cp_data_type = str ''TEXT'', cp_is_primary_key = False\<rparr>],
     tp_primary_key = [str ''id''], tp_foreign_keys = [], tp_ttl_column = None\<rparr>]\<rparr>"

definition sample_dump :: "statement list" where
  "sample_dump = [Insert (str ''users'') (Some (Values
     [[Value (Number (str ''1'')), Value (Single_Quoted_String (str ''Ann''))], [Value (Number (str ''2''))]]))]"

lemma import_writes_plan_witness:
  "let ws = [(str ''_schema:users'', str ''id:INT:pk'' @ [10] @ str ''name:TEXT'' @ [10]), (str ''users:1'', str ''Ann'')]
   in import_writes plain_sql sample_dump sample_plan = ws \<and>
     returns (parse_import plain_sql (permutive_bus mem_sqlite) sample_dump sample_plan) fresh_permutive (\<lambda>result P'.
       permutive_inv mem_sqlite P' \<and> ir_tables result + ir_rows result + ir_relationships result = length ws \<and>
       ir_rows result + ir_errors result = 2 \<and>
       (\<forall>t. permutive_now P' \<le> t \<longrightarrow> permutive_view mem_sqlite P' t = write_all ws (permutive_view mem_sqlite fresh_permutive t)))"
proof -
  have ws: "import_writes plain_sql sample_dump sample_plan =
      [(str ''_schema:users'', str ''id:INT:pk'' @ [10] @ str ''name:TEXT'' @ [10]), (str ''users:1'', str ''Ann'')]"
    by (simp add: import_writes_def schema_writes_def sample_plan_def sample_dump_def render_schema_entry_def schema_line_def
        row_writes_def row_ok_def key_parts_def column_value_def row_value_def rel_writes_def rel_list_def parse_value_def
        map_filter_simps strip_quotes_def)
  have rows: "length (concat (map (planned_rows sample_plan) sample_dump)) = 2"
    by (simp add: sample_plan_def sample_dump_def strip_quotes_def)
  have "\<forall>w \<in> set (import_writes plain_sql sample_dump sample_plan). storable_key (fst w)"
    unfolding ws by (auto intro!: ascii_storable)
  from import_writes_plan[OF fresh_permutive_inv this] ws rows show ?thesis by (simp add: Let_def)
qed

text \<open>C31: The import of a difference brings a bus that holds the old archive up to the new one: every
  entry of the new archive has its value, every entry that only the old archive has is gone, and no
  other key changes, if different paths stand for different keys. Lifetimes are apart.\<close>

theorem diff_import_syncs:
  assumes "permutive_inv eng P" and "distinct (map fst new_entries)"
    and "inj_on parse_tar_path_to_key (fst ` (set old_entries \<union> set new_entries))"
    and "\<forall>(path, v) \<in> set new_entries. \<not> prefix (str ''_ttl/'') path"
    and "\<forall>w \<in> set (diff_writes old_entries new_entries). storable_key (fst w)"
    and old: "\<forall>t. permutive_now P \<le> t \<longrightarrow> (\<forall>(path, v) \<in> set old_entries. path \<noteq> str ''_meta/version'' \<longrightarrow>
      permutive_view eng P t (parse_tar_path_to_key path) = Some v)"
  shows "returns (diff_entries (permutive_bus eng) old_entries new_entries) P (\<lambda>_ P'. permutive_inv eng P' \<and>
    (\<forall>t. permutive_now P' \<le> t \<longrightarrow>
      (\<forall>path v. (path, v) \<in> set new_entries \<longrightarrow> path \<noteq> str ''_meta/version'' \<longrightarrow>
         permutive_view eng P' t (parse_tar_path_to_key path) = Some v) \<and>
      (\<forall>path \<in> fst ` set old_entries - fst ` set new_entries. path \<noteq> str ''_meta/version'' \<longrightarrow>
         permutive_view eng P' t (parse_tar_path_to_key path) = None) \<and>
      (\<forall>k. k \<notin> parse_tar_path_to_key ` fst ` (set old_entries \<union> set new_entries) \<longrightarrow>
         permutive_view eng P' t k = permutive_view eng P t k)))"
proof (rule returns_mono[OF pb.diff_entries_spec[OF assms(1,4,5)]], elim conjE, goal_cases)
  case (1 r P')
  have view: "permutive_view eng P' t = diff_view old_entries new_entries (permutive_view eng P t)"
    and held: "\<forall>(path, v) \<in> set old_entries. path \<noteq> str ''_meta/version'' \<longrightarrow>
      permutive_view eng P t (parse_tar_path_to_key path) = Some v" if "permutive_now P' \<le> t" for t
    using 1(2) old that by (auto simp: bus_step_def simp del: str_simps)
  show ?case
    using diff_view_syncs[OF assms(2,3) held] 1(2) by (auto simp: view bus_step_def simp del: str_simps)
qed

lemma diff_import_syncs_witness:
  "returns (diff_entries (permutive_bus mem_sqlite) [(str ''a/k'', [7])] [(str ''a/j'', [8])]) sample_permutive (\<lambda>_ P'.
    \<forall>t. permutive_now P' \<le> t \<longrightarrow> permutive_view mem_sqlite P' t (str ''a:j'') = Some [8] \<and>
      permutive_view mem_sqlite P' t (str ''a:k'') = None)"
proof -
  have key: "parse_tar_path_to_key (str ''a/k'') = str ''a:k''" "parse_tar_path_to_key (str ''a/j'') = str ''a:j''"
    by (simp_all add: parse_tar_path_to_key_def strip_prefix_def)
  have paths: "distinct (map fst [(str ''a/j'', [8::byte])])"
    "inj_on parse_tar_path_to_key (fst ` (set [(str ''a/k'', [7::byte])] \<union> set [(str ''a/j'', [8])]))"
    "\<forall>(path, v) \<in> set [(str ''a/j'', [8::byte])]. \<not> prefix (str ''_ttl/'') path"
    using key by (simp_all add: inj_on_def)
  have writes: "\<forall>w \<in> set (diff_writes [(str ''a/k'', [7])] [(str ''a/j'', [8])]). storable_key (fst w)"
    using key by (auto simp: diff_writes_def intro!: ascii_storable)
  have old: "\<forall>t. permutive_now sample_permutive \<le> t \<longrightarrow> (\<forall>(path, v) \<in> set [(str ''a/k'', [7])]. path \<noteq> str ''_meta/version'' \<longrightarrow>
      permutive_view mem_sqlite sample_permutive t (parse_tar_path_to_key path) = Some v)"
    using key by (simp add: sample_permutive_view)
  show ?thesis
    by (rule returns_mono[OF diff_import_syncs[OF sample_permutive_inv paths writes old]]) (use key in auto)
qed

end
