(* ===== verification/Export.thy ===== *)
theory Export
  imports Import
begin

text \<open>
  \<open>src/modules/export.rs\<close>: archives and SQL files. What is written to a file or appended to an
  archive is the value of the operation; whether the file system or the crate \<open>tar\<close> refuses a
  write, with which message, and under which path \<open>tar\<close> stores an entry, is the parameter \<open>file_writer\<close>. An
  archive is the list of its entries with their stored paths; compression does not change them.
\<close>

record export_result =
  er_entries :: nat
  er_bytes_written :: nat

text \<open>
  The error of creating a file, of closing the archive, of a write; none is success. An append of \<open>tar\<close>
  has an error or the path that it has stored, which need not be the path it was given.
\<close>

record file_writer =
  fw_create :: "bytes \<Rightarrow> bytes option"
  fw_append :: "bytes \<Rightarrow> bytes \<Rightarrow> bytes + bytes"
  fw_finish :: "bool \<Rightarrow> bytes option"
  fw_write :: "bytes \<Rightarrow> bytes option"

section \<open>Archives\<close>

type_synonym archive = "(bytes \<times> bytes) list"

definition write_tar_entry :: "file_writer \<Rightarrow> bytes \<Rightarrow> bytes \<Rightarrow> archive \<Rightarrow> bytes + archive" where
  "write_tar_entry fw path d archive =
     (case fw_append fw path d of
        Inl error \<Rightarrow> Inl (str ''tar append '' @ path @ str '' failed: '' @ error)
      | Inr stored \<Rightarrow> Inr (archive @ [(stored, d)]))"

definition write_tar_ttl :: "file_writer \<Rightarrow> bytes \<Rightarrow> duration option \<Rightarrow> archive \<Rightarrow> bytes + archive" where
  "write_tar_ttl fw key_str remaining archive =
     (case remaining of
        Some ttl_remaining \<Rightarrow>
          write_tar_entry fw (str ''_ttl/'' @ replace_byte 58 [47] key_str) (dec_nat (as_millis ttl_remaining)) archive
      | None \<Rightarrow> Inr archive)"

definition write_tar_pair :: "file_writer \<Rightarrow> 'st data_bus \<Rightarrow> bytes \<Rightarrow> bytes \<Rightarrow> archive \<Rightarrow> ('st, bytes + archive) op" where
  "write_tar_pair fw bus key v archive =
     (let key_str = from_utf8_lossy key
      in case strip_prefix (str ''_schema:'') key_str of
           Some table_name \<Rightarrow> op_ret (write_tar_entry fw (str ''_schema/'' @ table_name) v archive)
         | None \<Rightarrow>
             (case strip_prefix (str ''_rel:'') key_str of
                Some rel_name \<Rightarrow> op_ret (write_tar_entry fw (str ''_rel/'' @ rel_name) [] archive)
              | None \<Rightarrow>
                  (case write_tar_entry fw (replace_byte 58 [47] key_str) v archive of
                     Inl error \<Rightarrow> op_ret (Inl error)
                   | Inr archive \<Rightarrow>
                       op_bind (bus_read_ttl_remaining bus key) (\<lambda>remaining.
                       op_ret (write_tar_ttl fw key_str remaining archive)))))"

fun write_tar_pairs ::
  "file_writer \<Rightarrow> 'st data_bus \<Rightarrow> (bytes \<times> bytes) list \<Rightarrow> archive \<Rightarrow> export_result \<Rightarrow> ('st, bytes + archive \<times> export_result) op" where
  "write_tar_pairs fw bus [] archive result = op_ret (Inr (archive, result))"
| "write_tar_pairs fw bus ((key, v) # pairs) archive result =
     op_bind (write_tar_pair fw bus key v archive) (\<lambda>r.
     case r of
       Inl error \<Rightarrow> op_ret (Inl error)
     | Inr archive \<Rightarrow>
         write_tar_pairs fw bus pairs archive
           (result\<lparr>er_entries := er_entries result + 1, er_bytes_written := er_bytes_written result + length key + length v\<rparr>))"

definition write_tar_contents :: "file_writer \<Rightarrow> 'st data_bus \<Rightarrow> export_result \<Rightarrow> ('st, bytes + archive \<times> export_result) op" where
  "write_tar_contents fw bus result =
     (case write_tar_entry fw (str ''_meta/version'') (str ''tric+1'') [] of
        Inl error \<Rightarrow> op_ret (Inl error)
      | Inr archive \<Rightarrow>
          op_bind (bus_find_by_prefix bus []) (\<lambda>all_entries.
          write_tar_pairs fw bus all_entries archive (result\<lparr>er_entries := er_entries result + 1\<rparr>)))"

definition write_tric_archive :: "file_writer \<Rightarrow> 'st data_bus \<Rightarrow> bytes \<Rightarrow> bool \<Rightarrow> ('st, bytes + archive \<times> export_result) op" where
  "write_tric_archive fw bus path debug_uncompressed =
     (case fw_create fw path of
        Some error \<Rightarrow> op_ret (Inl (str ''cannot create '' @ path @ str '': '' @ error))
      | None \<Rightarrow>
          op_bind (write_tar_contents fw bus \<lparr>er_entries = 0, er_bytes_written = 0\<rparr>) (\<lambda>r.
          case r of
            Inl error \<Rightarrow> op_ret (Inl error)
          | Inr (archive, result) \<Rightarrow>
              (case fw_finish fw debug_uncompressed of
                 Some error \<Rightarrow> op_ret (Inl (str ''tar finish failed: '' @ error))
               | None \<Rightarrow> op_ret (Inr (archive, result)))))"

section \<open>SQL files\<close>

record schema_column =
  sc_data_type :: bytes
  sc_is_pk :: bool

definition parse_schema_column :: "bytes \<Rightarrow> schema_column" where
  "parse_schema_column line =
     (let parts = split_on 58 line
      in \<lparr>sc_data_type = (if 1 < length parts then parts ! 1 else str ''TEXT''), sc_is_pk = str ''pk'' \<in> set parts\<rparr>)"

definition parse_schema_columns :: "bytes \<Rightarrow> schema_column list" where
  "parse_schema_columns schema = map parse_schema_column (filter (\<lambda>line. line \<noteq> []) (str_lines schema))"

definition map_type_to_dialect :: "unicode \<Rightarrow> bytes \<Rightarrow> bytes \<Rightarrow> bytes" where
  "map_type_to_dialect uc tric_type dialect =
     (let upper = to_uppercase uc tric_type
      in if upper \<in> {str ''INT'', str ''INTEGER''} \<and> dialect = str ''sqlite'' then str ''INTEGER''
         else if upper = str ''BOOLEAN'' \<and> dialect = str ''mysql'' then str ''TINYINT(1)''
         else if upper = str ''BOOLEAN'' \<and> dialect = str ''sqlite'' then str ''INTEGER''
         else if upper \<in> {str ''TIMESTAMP'', str ''DATETIME''} \<and> dialect = str ''sqlite'' then str ''TEXT''
         else tric_type)"

definition quote_table_name :: "bytes \<Rightarrow> bytes \<Rightarrow> bytes" where
  "quote_table_name name dialect = (if dialect = str ''mysql'' then [96] @ name @ [96] else name)"

definition quote_column_name :: "bytes \<Rightarrow> bytes \<Rightarrow> bytes" where
  "quote_column_name name dialect =
     (if dialect = str ''mysql'' then [96] @ name @ [96]
      else if dialect = str ''postgres'' then [34] @ name @ [34]
      else name)"

definition format_sql_value :: "unicode \<Rightarrow> bytes \<Rightarrow> bytes \<Rightarrow> bytes \<Rightarrow> bytes" where
  "format_sql_value uc v data_type dialect =
     (let upper_type = to_uppercase uc data_type
      in if prefix (str ''INT'') upper_type \<or> prefix (str ''DECIMAL'') upper_type \<or> prefix (str ''NUMERIC'') upper_type
           \<or> prefix (str ''REAL'') upper_type \<or> prefix (str ''FLOAT'') upper_type \<or> prefix (str ''DOUBLE'') upper_type
         then if v = [] then str ''NULL'' else v
         else if v = [] then str ''NULL''
         else [39] @ replace_byte 39 [39, 39] v @ [39])"

definition create_column :: "unicode \<Rightarrow> bytes \<Rightarrow> bytes \<Rightarrow> bytes" where
  "create_column uc dialect line =
     (let parts = split_on 58 line
      in str ''    '' @ quote_column_name (hd parts) dialect @ str '' ''
           @ map_type_to_dialect uc (if 1 < length parts then parts ! 1 else str ''TEXT'') dialect)"

definition build_create_table :: "unicode \<Rightarrow> bytes \<Rightarrow> bytes \<Rightarrow> bytes \<Rightarrow> bytes" where
  "build_create_table uc table_name schema dialect =
     (let lines = filter (\<lambda>line. line \<noteq> []) (str_lines schema);
          columns = map (create_column uc dialect) lines;
          pk_columns = map (\<lambda>line. hd (split_on 58 line)) (filter (\<lambda>line. str ''pk'' \<in> set (split_on 58 line)) lines);
          columns = (if pk_columns = [] then columns
            else columns @ [str ''    PRIMARY KEY ('' @ join (str '', '') (map (\<lambda>c. quote_column_name c dialect) pk_columns) @ str '')''])
      in str ''CREATE TABLE '' @ quote_table_name table_name dialect @ str '' ('' @ [10] @ join ([44, 10]) columns @ [10] @ str '');'')"

text \<open>The values of a row: the key for each column of the primary key, and the lines of the value in order.\<close>

fun row_values :: "unicode \<Rightarrow> bytes \<Rightarrow> bytes \<Rightarrow> schema_column list \<Rightarrow> bytes list \<Rightarrow> bytes list" where
  "row_values uc dialect pk_value [] parts = []"
| "row_values uc dialect pk_value (column # columns) parts =
     (if sc_is_pk column then format_sql_value uc pk_value (sc_data_type column) dialect # row_values uc dialect pk_value columns parts
      else case parts of
        part # parts \<Rightarrow> format_sql_value uc part (sc_data_type column) dialect # row_values uc dialect pk_value columns parts
      | [] \<Rightarrow> row_values uc dialect pk_value columns [])"

text \<open>\<open>&s[n..]\<close>: a panic if \<open>n\<close> is beyond the string or inside a character.\<close>

definition str_from :: "nat \<Rightarrow> bytes \<Rightarrow> bytes option" where
  "str_from n s = (if n = length s \<or> n < length s \<and> \<not> utf8_cont (s ! n) then Some (drop n s) else None)"

definition insert_text :: "unicode \<Rightarrow> bytes \<Rightarrow> bytes \<Rightarrow> schema_column list \<Rightarrow> bytes \<Rightarrow> bytes \<Rightarrow> bytes" where
  "insert_text uc dialect table_name columns pk_value v =
     str ''INSERT INTO '' @ quote_table_name table_name dialect @ str '' VALUES (''
       @ join (str '', '') (row_values uc dialect pk_value columns (split_on 10 (from_utf8_lossy v))) @ str '');'' @ [10]"

definition write_text :: "file_writer \<Rightarrow> bytes \<Rightarrow> bytes \<Rightarrow> bytes + bytes" where
  "write_text fw text out =
     (case fw_write fw text of Some error \<Rightarrow> Inl (str ''write failed: '' @ error) | None \<Rightarrow> Inr (out @ text))"

fun write_inserts ::
  "file_writer \<Rightarrow> unicode \<Rightarrow> bytes \<Rightarrow> bytes \<Rightarrow> schema_column list \<Rightarrow> (bytes \<times> bytes) list \<Rightarrow> bytes \<Rightarrow> export_result \<Rightarrow>
   ('st, bytes + bytes \<times> export_result) op" where
  "write_inserts fw uc dialect table_name columns [] out result = op_ret (Inr (out, result))"
| "write_inserts fw uc dialect table_name columns ((key, v) # rows) out result =
     op_bind (op_unwrap (str_from (length table_name + 1) (from_utf8_lossy key))) (\<lambda>pk_value.
     case write_text fw (insert_text uc dialect table_name columns pk_value v) out of
       Inl error \<Rightarrow> op_ret (Inl error)
     | Inr out \<Rightarrow> write_inserts fw uc dialect table_name columns rows out (result\<lparr>er_entries := er_entries result + 1\<rparr>))"

fun write_tables ::
  "file_writer \<Rightarrow> unicode \<Rightarrow> 'st data_bus \<Rightarrow> bytes \<Rightarrow> (bytes \<times> bytes) list \<Rightarrow> bytes \<Rightarrow> export_result \<Rightarrow>
   ('st, bytes + bytes \<times> export_result) op" where
  "write_tables fw uc bus dialect [] out result = op_ret (Inr (out, result))"
| "write_tables fw uc bus dialect ((schema_key, schema_value) # schemas) out result =
     (let table_name = from_utf8_lossy (case strip_prefix (str ''_schema:'') schema_key of Some name \<Rightarrow> name | None \<Rightarrow> schema_key);
          schema_str = from_utf8_lossy schema_value
      in case write_text fw (build_create_table uc table_name schema_str dialect @ [10]) out of
           Inl error \<Rightarrow> op_ret (Inl error)
         | Inr out \<Rightarrow>
             op_bind (bus_find_by_prefix bus (table_name @ str '':'')) (\<lambda>rows.
             op_bind (write_inserts fw uc dialect table_name (parse_schema_columns schema_str) rows out result) (\<lambda>r.
             case r of
               Inl error \<Rightarrow> op_ret (Inl error)
             | Inr (out, result) \<Rightarrow>
                 write_tables fw uc bus dialect schemas out
                   (result\<lparr>er_bytes_written := er_bytes_written result + length schema_value\<rparr>))))"

definition write_sql_file ::
  "file_writer \<Rightarrow> unicode \<Rightarrow> 'st data_bus \<Rightarrow> bytes \<Rightarrow> bytes \<Rightarrow> ('st, bytes + bytes \<times> export_result) op" where
  "write_sql_file fw uc bus path dialect =
     (case fw_create fw path of
        Some error \<Rightarrow> op_ret (Inl (str ''cannot create '' @ path @ str '': '' @ error))
      | None \<Rightarrow>
          op_bind (bus_find_by_prefix bus (str ''_schema:'')) (\<lambda>schemas.
          write_tables fw uc bus dialect schemas [] \<lparr>er_entries = 0, er_bytes_written = 0\<rparr>))"

section \<open>The schema of a table\<close>

lemma parse_schema_render:
  assumes "schema_plain table"
  shows "parse_schema_columns (render_schema_entry table) =
    map (\<lambda>c. \<lparr>sc_data_type = cp_data_type c, sc_is_pk = cp_is_primary_key c\<rparr>) (tp_columns table)"
proof -
  have "filter (\<lambda>line. line \<noteq> []) (map (schema_line table) (tp_columns table)) = map (schema_line table) (tp_columns table)"
    using schema_line_one_line(3)[OF assms] by (auto intro!: filter_True)
  moreover have "parse_schema_column (schema_line table c) = \<lparr>sc_data_type = cp_data_type c, sc_is_pk = cp_is_primary_key c\<rparr>"
    if "c \<in> set (tp_columns table)" for c
    unfolding parse_schema_column_def Let_def schema_line_fields[OF assms that] schema_fields_pk[OF assms that]
    by (simp add: schema_fields_def)
  ultimately show ?thesis by (simp add: parse_schema_columns_def schema_entry_lines[OF assms])
qed

section \<open>Literals\<close>

text \<open>The reference reader of a SQL string literal, behind its opening quote: the text and the rest.\<close>

fun read_quoted :: "bytes \<Rightarrow> (bytes \<times> bytes) option" where
  "read_quoted [] = None"
| "read_quoted (b # bs) =
     (if b \<noteq> 39 then map_option (\<lambda>(v, rest). (b # v, rest)) (read_quoted bs)
      else case bs of
        c # cs \<Rightarrow> if c = 39 then map_option (\<lambda>(v, rest). (39 # v, rest)) (read_quoted cs) else Some ([], bs)
      | [] \<Rightarrow> Some ([], []))"

lemma read_quoted_replace:
  assumes "take 1 rest \<noteq> [39]"
  shows "read_quoted (replace_byte 39 [39, 39] v @ 39 # rest) = Some (v, rest)"
proof (induction v)
  case Nil
  show ?case using assms by (cases rest) (simp_all add: replace_byte_def)
next
  case (Cons b v)
  then show ?case by (simp add: replace_byte_Cons)
qed

section \<open>Totality of the SQL export\<close>

lemma str_from_after:
  assumes "utf8_valid a" and "utf8_valid b"
  shows "str_from (length a) (a @ b) = Some b"
proof (cases b)
  case Nil
  then show ?thesis by (simp add: str_from_def)
next
  case (Cons x xs)
  then have "\<not> utf8_cont x" using assms(2) utf8_valid_first by blast
  with Cons show ?thesis by (simp add: str_from_def)
qed

lemma pk_value_exists:
  assumes "utf8_valid table_name" and "prefix (table_name @ str '':'') key"
  shows "\<exists>pk. str_from (length table_name + 1) (from_utf8_lossy key) = Some pk"
proof -
  obtain rest where key: "key = (table_name @ [58]) @ rest" using assms(2) by (auto simp: prefix_def)
  have "utf8_valid [58]" by (simp add: utf8_next.simps)
  then have valid: "utf8_valid (table_name @ [58])" using assms(1) by (simp add: utf8_valid_append)
  from str_from_after[OF valid utf8_valid_lossy, of rest] show ?thesis
    unfolding key from_utf8_lossy_append[OF valid] by auto
qed

lemma write_inserts_returns:
  assumes "utf8_valid table_name"
  shows "\<forall>(key, v) \<in> set rows. prefix (table_name @ str '':'') key \<Longrightarrow>
    returns (write_inserts fw uc dialect table_name columns rows out result) s (\<lambda>r s'. s' = s)"
proof (induction rows arbitrary: out result)
  case Nil
  show ?case by (simp add: wp)
next
  case (Cons row rows)
  obtain key v where row: "row = (key, v)" by (cases row)
  obtain pk where pk: "str_from (length table_name + 1) (from_utf8_lossy key) = Some pk"
    using pk_value_exists[OF assms, of key] Cons.prems by (auto simp: row)
  show ?case
    using Cons by (auto simp: row pk[simplified] op_unwrap_def wp write_text_def split: option.split)
qed

context kv_bus begin

lemma write_tables_returns:
  "good s \<Longrightarrow> returns (write_tables fw uc bus dialect schemas out result) s (\<lambda>_ s'. good s')"
proof (induction schemas arbitrary: s out result)
  case Nil
  then show ?case by (simp add: wp)
next
  case (Cons entry schemas)
  obtain schema_key schema_value where entry: "entry = (schema_key, schema_value)" by (cases entry)
  let ?table = "from_utf8_lossy (case strip_prefix (str ''_schema:'') schema_key of Some name \<Rightarrow> name | None \<Rightarrow> schema_key)"
  let ?schema = "from_utf8_lossy schema_value"
  show ?case
  proof (cases "fw_write fw (build_create_table uc ?table ?schema dialect @ [10])")
    case (Some e)
    with Cons.prems show ?thesis by (simp add: entry Let_def write_text_def wp)
  next
    case None
    have "returns (bus_find_by_prefix bus (?table @ str '':'')) s (\<lambda>rows s'.
        returns (write_inserts fw uc dialect ?table (parse_schema_columns ?schema) rows
          (out @ build_create_table uc ?table ?schema dialect @ [10]) result) s' (\<lambda>r s''. good s''))"
    proof (rule returns_mono[OF find_law[OF Cons.prems]], elim conjE)
      fix rows s'
      assume scan: "is_scan (view s (now s)) (?table @ str '':'') rows" and step: "bus_step good now view s s' (\<lambda>t m. m)"
      have "\<forall>(key, v) \<in> set rows. prefix (?table @ str '':'') key" using scan by (auto simp: is_scan_def)
      note quiet = write_inserts_returns[OF utf8_valid_lossy this]
      have "good s'" using step by (simp add: bus_step_def)
      show "returns (write_inserts fw uc dialect ?table (parse_schema_columns ?schema) rows
          (out @ build_create_table uc ?table ?schema dialect @ [10]) result) s' (\<lambda>r s''. good s'')"
        by (rule returns_mono[OF quiet]) (simp add: \<open>good s'\<close>)
    qed
    then show ?thesis
      unfolding entry write_tables.simps Let_def write_text_def None option.case sum.case returns_bind
      by (elim returns_mono) (auto simp: wp intro: Cons.IH split: sum.split)
  qed
qed

lemma write_sql_file_returns:
  assumes "good s"
  shows "returns (write_sql_file fw uc bus path dialect) s (\<lambda>_ s'. good s')"
  using assms
  by (auto simp: write_sql_file_def wp bus_step_def split: option.split
      intro!: returns_mono[OF find_law] write_tables_returns)

end

section \<open>Paths and keys\<close>

definition tar_path :: "bytes \<Rightarrow> bytes" where
  "tar_path key =
     (case strip_prefix (str ''_schema:'') key of
        Some table_name \<Rightarrow> str ''_schema/'' @ table_name
      | None \<Rightarrow>
          (case strip_prefix (str ''_rel:'') key of
             Some rel_name \<Rightarrow> str ''_rel/'' @ rel_name
           | None \<Rightarrow> replace_byte 58 [47] key))"

text \<open>
  The keys that survive an archive: text, with a namespace without slashes and, outside the schema and
  the relationships, one colon at most; the values of relationships are empty.
\<close>

definition exportable :: "bytes \<Rightarrow> bool" where
  "exportable key \<longleftrightarrow> utf8_valid key \<and>
     (let ns = takeWhile (\<lambda>b. b \<noteq> 58) key; rest = drop (length ns + 1) key
      in 47 \<notin> set ns \<and> (ns = key \<or> ns \<in> {str ''_schema'', str ''_rel''} \<or>
           58 \<notin> set rest \<and> ns \<noteq> str ''_ttl'' \<and> key \<noteq> str ''_meta:version''))"

definition exportable_pair :: "bytes \<times> bytes \<Rightarrow> bool" where
  "exportable_pair p \<longleftrightarrow> exportable (fst p) \<and> (prefix (str ''_rel:'') (fst p) \<longrightarrow> snd p = [])"

lemma separator_prefix:
  fixes ns ps rest :: bytes
  assumes "c \<notin> set ns" and "c \<notin> set ps"
  shows "prefix (ps @ [c]) (ns @ c # rest) \<longleftrightarrow> ps = ns"
proof
  assume "prefix (ps @ [c]) (ns @ c # rest)"
  then obtain zs where "ps @ c # zs = ns @ c # rest" by (auto simp: prefix_def)
  then have "takeWhile (\<lambda>b. b \<noteq> c) (ps @ c # zs) = takeWhile (\<lambda>b. b \<noteq> c) (ns @ c # rest)" by simp
  moreover have "takeWhile (\<lambda>b. b \<noteq> c) (xs @ c # ys) = xs" if "c \<notin> set xs" for xs ys :: bytes
    using that by (induction xs) auto
  ultimately show "ps = ns" using assms by simp
qed simp

lemma namespace_prefixes:
  fixes ns rest :: bytes
  shows "58 \<notin> set ns \<Longrightarrow> prefix (str ''_schema:'') (ns @ 58 # rest) \<longleftrightarrow> ns = str ''_schema''"
    and "58 \<notin> set ns \<Longrightarrow> prefix (str ''_rel:'') (ns @ 58 # rest) \<longleftrightarrow> ns = str ''_rel''"
    and "47 \<notin> set ns \<Longrightarrow> prefix (str ''_schema/'') (ns @ 47 # rest) \<longleftrightarrow> ns = str ''_schema''"
    and "47 \<notin> set ns \<Longrightarrow> prefix (str ''_rel/'') (ns @ 47 # rest) \<longleftrightarrow> ns = str ''_rel''"
    and "47 \<notin> set ns \<Longrightarrow> prefix (str ''_ttl/'') (ns @ 47 # rest) \<longleftrightarrow> ns = str ''_ttl''"
    and "47 \<notin> set ns \<Longrightarrow> prefix (str ''_meta/'') (ns @ 47 # rest) \<longleftrightarrow> ns = str ''_meta''"
  using separator_prefix[of 58 ns "str ''_schema''" rest] separator_prefix[of 58 ns "str ''_rel''" rest]
    separator_prefix[of 47 ns "str ''_schema''" rest] separator_prefix[of 47 ns "str ''_rel''" rest]
    separator_prefix[of 47 ns "str ''_ttl''" rest] separator_prefix[of 47 ns "str ''_meta''" rest]
  by auto

text \<open>What becomes of a key with a namespace, after the colons behind its namespace are gone.\<close>

lemma tar_path_key:
  assumes "58 \<notin> set ns" and "47 \<notin> set ns" and "ns \<notin> {str ''_schema'', str ''_rel'', str ''_ttl''}"
  shows "tar_path (ns @ 58 # rest) = ns @ 47 # replace_byte 58 [47] rest"
    and "parse_tar_path_to_key (ns @ 47 # rest') = ns @ 58 # rest'"
proof -
  show "tar_path (ns @ 58 # rest) = ns @ 47 # replace_byte 58 [47] rest"
    using assms by (simp add: tar_path_def strip_prefix_def namespace_prefixes replace_byte_append replace_byte_Cons
        replace_byte_none del: str_simps)
  show "parse_tar_path_to_key (ns @ 47 # rest') = ns @ 58 # rest'"
    using assms by (simp add: parse_tar_path_to_key_def strip_prefix_def namespace_prefixes replace_first_append del: str_simps)
qed

lemma no_slash_prefix: "47 \<notin> set key \<Longrightarrow> 47 \<in> set pre \<Longrightarrow> \<not> prefix pre key"
  by (auto simp: prefix_def)

lemma no_colon_prefix: "58 \<notin> set key \<Longrightarrow> 58 \<in> set pre \<Longrightarrow> \<not> prefix pre key"
  by (auto simp: prefix_def)

lemma key_shape:
  "takeWhile (\<lambda>b. b \<noteq> 58) key = key \<or>
   key = takeWhile (\<lambda>b. b \<noteq> 58) key @ 58 # drop (length (takeWhile (\<lambda>b. b \<noteq> 58) key) + 1) key" for key :: bytes
proof (cases "dropWhile (\<lambda>b. b \<noteq> 58) key")
  case Nil
  then show ?thesis by (metis append_Nil2 takeWhile_dropWhile_id)
next
  case (Cons b bs)
  then have "b = 58" using hd_dropWhile[of "\<lambda>b. b \<noteq> 58" key] by simp
  then have key: "key = takeWhile (\<lambda>b. b \<noteq> 58) key @ 58 # bs" using Cons by (metis takeWhile_dropWhile_id)
  then have "drop (length (takeWhile (\<lambda>b. b \<noteq> 58) key) + 1) key = bs"
    by (metis append_Nil drop_Suc_Cons drop0 drop_append drop_all diff_add_inverse add.commute le_add1 plus_1_eq_Suc Suc_eq_plus1 append_eq_conv_conj drop_drop)
  with key show ?thesis by simp
qed

lemma tar_path_roundtrip:
  assumes "exportable key"
  shows "parse_tar_path_to_key (tar_path key) = key" and "tar_path key \<noteq> str ''_meta/version''"
    and "\<not> prefix (str ''_ttl/'') (tar_path key)"
proof -
  define ns where "ns = takeWhile (\<lambda>b. b \<noteq> 58) key"
  define rest where "rest = drop (length ns + 1) key"
  have ns: "58 \<notin> set ns" "47 \<notin> set ns"
    using assms by (auto simp: exportable_def ns_def Let_def dest: set_takeWhileD)
  have shape: "ns = key \<or> key = ns @ 58 # rest" unfolding ns_def rest_def by (rule key_shape)
  have "parse_tar_path_to_key (tar_path key) = key \<and> tar_path key \<noteq> str ''_meta/version'' \<and>
      \<not> prefix (str ''_ttl/'') (tar_path key)"
  proof (cases "ns = key")
    case True
    with ns have "58 \<notin> set key" "47 \<notin> set key" by simp_all
    then have p: "tar_path key = key"
      by (simp add: tar_path_def strip_prefix_def no_colon_prefix replace_byte_none)
    with \<open>47 \<notin> set key\<close> show ?thesis
      by (auto simp: p parse_tar_path_to_key_def strip_prefix_def no_slash_prefix replace_first_none)
  next
    case False
    with shape have key: "key = ns @ 58 # rest" by simp
    consider "ns = str ''_schema''" | "ns = str ''_rel''" | "58 \<notin> set rest" "ns \<notin> {str ''_schema'', str ''_rel'', str ''_ttl''}"
        "key \<noteq> str ''_meta:version''"
      using assms False unfolding exportable_def Let_def ns_def[symmetric] rest_def[symmetric] by blast
    then show ?thesis
    proof cases
      case 1
      then show ?thesis by (simp add: key tar_path_def strip_prefix_def parse_tar_path_to_key_def)
    next
      case 2
      then show ?thesis by (simp add: key tar_path_def strip_prefix_def parse_tar_path_to_key_def)
    next
      case 3
      note t = tar_path_key[OF ns 3(2)]
      have path: "tar_path key = ns @ 47 # rest" unfolding key t(1) by (simp add: replace_byte_none[OF 3(1)])
      have "ns @ 47 # rest \<noteq> str ''_meta/version''"
      proof
        assume meta: "ns @ 47 # rest = str ''_meta/version''"
        then have "prefix (str ''_meta/'') (ns @ 47 # rest)" by simp
        then have "ns = str ''_meta''" unfolding namespace_prefixes(6)[OF ns(2)] .
        with meta have "key = str ''_meta:version''" by (simp add: key)
        with 3(3) show False by simp
      qed
      moreover have "\<not> prefix (str ''_ttl/'') (ns @ 47 # rest)"
        unfolding namespace_prefixes(5)[OF ns(2)] using 3(2) by blast
      ultimately show ?thesis unfolding path t(2) by (simp add: key)
    qed
  qed
  then show "parse_tar_path_to_key (tar_path key) = key" "tar_path key \<noteq> str ''_meta/version''"
    "\<not> prefix (str ''_ttl/'') (tar_path key)" by simp_all
qed

section \<open>Properties\<close>

text \<open>The schema entry that the importer writes for a table is read back by the exporter: the types and
  the primary key of its columns, in order, if names and types have no colon and no line break and
  are not the word that marks a primary key.\<close>

theorem schema_roundtrip:
  assumes "schema_plain table"
  shows "parse_schema_columns (render_schema_entry table) =
    map (\<lambda>c. \<lparr>sc_data_type = cp_data_type c, sc_is_pk = cp_is_primary_key c\<rparr>) (tp_columns table)"
  by (rule parse_schema_render[OF assms])

lemma schema_roundtrip_witness:
  "parse_schema_columns (render_schema_entry (hd (sp_tables sample_plan))) =
    [\<lparr>sc_data_type = str ''INT'', sc_is_pk = True\<rparr>, \<lparr>sc_data_type = str ''TEXT'', sc_is_pk = False\<rparr>]"
  by (subst schema_roundtrip) (simp_all add: sample_plan_def schema_plain_def plain_field_def)

text \<open>The export of the tables to SQL returns, with the whole file or with the error of the file
  system, whatever the keys and the schema entries hold: slicing the primary key off a row's key
  never leaves a character in two.\<close>

theorem sql_export_total:
  assumes "permutive_inv eng P"
  shows "returns (write_sql_file fw uc (permutive_bus eng) path dialect) P (\<lambda>_ P'. permutive_inv eng P')"
  by (rule pb.write_sql_file_returns[OF assms])

lemma sql_export_total_witness:
  "returns (write_sql_file \<lparr>fw_create = (\<lambda>_. None), fw_append = (\<lambda>p _. Inr p), fw_finish = (\<lambda>_. None), fw_write = (\<lambda>_. None)\<rparr>
      \<lparr>uc_alphanumeric = (\<lambda>_. False), uc_upper = (\<lambda>c. c)\<rparr> (permutive_bus mem_sqlite) (str ''out.sql'') (str ''mysql''))
    sample_permutive (\<lambda>_ P'. permutive_inv mem_sqlite P')"
  by (rule sql_export_total[OF sample_permutive_inv])

text \<open>The literal that the export writes for a column of a text type reads back as the value under the
  rule of SQL that two quotes inside a literal are one, whatever quotes the value has.\<close>

theorem sql_literal_roundtrip:
  assumes "v \<noteq> []" and "take 1 rest \<noteq> [39]"
    and "\<forall>t \<in> {str ''INT'', str ''DECIMAL'', str ''NUMERIC'', str ''REAL'', str ''FLOAT'', str ''DOUBLE''}. \<not> prefix t (to_uppercase uc data_type)"
  shows "\<exists>literal. format_sql_value uc v data_type dialect @ rest = 39 # literal \<and> read_quoted literal = Some (v, rest)"
proof -
  have "format_sql_value uc v data_type dialect @ rest = 39 # replace_byte 39 [39, 39] v @ 39 # rest"
    using assms(1,3) unfolding format_sql_value_def Let_def by (simp del: str_simps)
  then show ?thesis using read_quoted_replace[OF assms(2)] by blast
qed

lemma sql_literal_roundtrip_witness:
  "\<exists>literal. format_sql_value \<lparr>uc_alphanumeric = (\<lambda>_. False), uc_upper = (\<lambda>c. c)\<rparr> (str ''it'' @ [39]) (str ''TEXT'') (str ''mysql'')
      @ str '')'' = 39 # literal \<and> read_quoted literal = Some (str ''it'' @ [39], str '')'')"
  by (rule sql_literal_roundtrip) (simp_all add: to_uppercase_def utf8_next.simps ascii_upper_def)

end
