(* ===== verification/Archive.thy ===== *)
theory Archive
  imports Export
begin

text \<open>
  The round trip through an archive: \<open>write_tric_archive\<close> of \<open>src/modules/export.rs\<close> on one bus and
  the import of the difference to an empty archive (\<open>src/modules/import.rs\<close>) on another. The first
  part says which entries an export writes, the second what an import of such entries leaves in the
  bus whatever order the hash map yields them in, lifetimes included.
\<close>

section \<open>The entries of an export\<close>

text \<open>
  \<open>tar\<close> stores a path by its components: it leaves out empty ones and those that are a dot, and refuses an
  absolute path, one with two dots as a component and one with a zero byte. A path without any of
  these is plain and is stored as it is. A writer works if the file system refuses nothing, and plain
  paths are stored; what it does with other paths is left open.
\<close>

definition plain_tar_path :: "bytes \<Rightarrow> bool" where
  "plain_tar_path path \<longleftrightarrow> 0 \<notin> set path \<and> (\<forall>c \<in> set (split_on 47 path). c \<notin> {[], str ''.'', str ''..''})"

definition works :: "file_writer \<Rightarrow> bool" where
  "works fw \<longleftrightarrow> (\<forall>path. fw_create fw path = None) \<and> (\<forall>path d. plain_tar_path path \<longrightarrow> fw_append fw path d = Inr path) \<and>
     (\<forall>b. fw_finish fw b = None)"

text \<open>A writer that treats paths like this; it serves the instances, nothing else depends on it.\<close>

definition tar_append :: "bytes \<Rightarrow> bytes + bytes" where
  "tar_append path =
     (let cs = split_on 47 path; kept = filter (\<lambda>c. c \<notin> {[], str ''.''}) cs
      in if 0 \<in> set path then Inl (str ''provided value contained a nul byte'')
         else if prefix [47] path then Inl (str ''paths in archives must be relative'')
         else if str ''..'' \<in> set cs then Inl (str ''paths in archives must not have `..`'')
         else if kept = [] then Inl (str ''paths in archives must have at least one component'')
         else Inr (join [47] kept @ (if suffix [47] path then [47] else [])))"

definition tar_writer :: file_writer where
  "tar_writer = \<lparr>fw_create = (\<lambda>_. None), fw_append = (\<lambda>path _. tar_append path), fw_finish = (\<lambda>_. None), fw_write = (\<lambda>_. None)\<rparr>"

lemma join_split: "join [c] (split_on c bs) = bs"
proof (induction bs)
  case (Cons b bs)
  obtain x xs where "split_on c bs = x # xs" using split_on_nonempty[of c bs] by (cases "split_on c bs") auto
  with Cons show ?case by (cases xs) auto
qed simp

lemma split_on_last: "[] \<in> set (tl (split_on c (xs @ [c])))"
  by (induction xs) (auto dest: list.set_sel(2)[OF split_on_nonempty])

lemma tar_append_plain:
  assumes "plain_tar_path path"
  shows "tar_append path = Inr path"
proof -
  have cs: "\<forall>c \<in> set (split_on 47 path). c \<notin> {[], str ''.''}" "str ''..'' \<notin> set (split_on 47 path)" "0 \<notin> set path"
    using assms unfolding plain_tar_path_def by blast+
  then have "[] \<notin> set (split_on 47 path)" by blast
  then have "\<not> suffix [47] path" "\<not> prefix [47] path"
    using list.set_sel(2)[OF split_on_nonempty split_on_last] by (auto simp: prefix_def suffix_def)
  moreover have "filter (\<lambda>c. c \<notin> {[], str ''.''}) (split_on 47 path) = split_on 47 path" using cs(1) by (simp only: filter_id_conv)
  ultimately show ?thesis using cs(2,3) unfolding tar_append_def Let_def by (simp add: join_split del: str_simps)
qed

lemma tar_writer_works: "works tar_writer"
  by (simp add: works_def tar_writer_def tar_append_plain)

definition archived_value :: "bytes \<Rightarrow> bytes \<Rightarrow> bytes" where
  "archived_value key v = (if \<not> prefix (str ''_schema:'') key \<and> prefix (str ''_rel:'') key then [] else v)"

definition ttl_path :: "bytes \<Rightarrow> bytes" where
  "ttl_path key = str ''_ttl/'' @ replace_byte 58 [47] key"

definition has_ttl_entry :: "bytes \<Rightarrow> bool" where
  "has_ttl_entry key \<longleftrightarrow> \<not> prefix (str ''_schema:'') key \<and> \<not> prefix (str ''_rel:'') key"

text \<open>What one pair adds to an archive.\<close>

definition pair_archived :: "bytes \<Rightarrow> bytes \<Rightarrow> archive \<Rightarrow> bool" where
  "pair_archived key v es \<longleftrightarrow> (let k = from_utf8_lossy key in
     es = [(tar_path k, archived_value k v)] \<or>
     has_ttl_entry k \<and> (\<exists>d. es = [(tar_path k, archived_value k v), (ttl_path k, d)]))"

lemma plain_ttl_path:
  assumes "has_ttl_entry k" and "plain_tar_path (tar_path k)"
  shows "plain_tar_path (ttl_path k)"
proof -
  have "tar_path k = replace_byte 58 [47] k"
    using assms(1) by (simp add: tar_path_def has_ttl_entry_def strip_prefix_def del: str_simps)
  then have path: "ttl_path k = str ''_ttl'' @ 47 # tar_path k" by (simp add: ttl_path_def)
  have "(47::byte) \<notin> set (str ''_ttl'')" by simp
  then have "split_on 47 (ttl_path k) = str ''_ttl'' # split_on 47 (tar_path k)" unfolding path by (rule split_on_append)
  then show ?thesis using assms(2) unfolding plain_tar_path_def path by simp
qed

lemma write_tar_pair_eq:
  assumes fw: "works fw" and plain: "plain_tar_path (tar_path (from_utf8_lossy key))"
  shows "write_tar_pair fw bus key v archive =
    (let k = from_utf8_lossy key in
     if has_ttl_entry k then op_bind (bus_read_ttl_remaining bus key) (\<lambda>remaining. op_ret (Inr (archive @
         (tar_path k, archived_value k v) # (case remaining of Some d \<Rightarrow> [(ttl_path k, dec_nat (as_millis d))] | None \<Rightarrow> []))))
     else op_ret (Inr (archive @ [(tar_path k, archived_value k v)])))"
proof -
  let ?k = "from_utf8_lossy key"
  have stored: "fw_append fw (tar_path ?k) d = Inr (tar_path ?k)" for d using assms by (simp add: works_def)
  show ?thesis
  proof (cases "has_ttl_entry ?k")
    case True
    then have "fw_append fw (ttl_path ?k) d = Inr (ttl_path ?k)" for d
      using fw plain_ttl_path[OF True plain] by (simp add: works_def)
    with True stored show ?thesis
      by (auto simp: write_tar_pair_def Let_def write_tar_entry_def write_tar_ttl_def has_ttl_entry_def tar_path_def
          strip_prefix_def archived_value_def ttl_path_def fun_eq_iff op_bind_def simp del: str_simps
          split: option.split prod.split outcome.split)
  next
    case False
    with stored show ?thesis
      by (auto simp: write_tar_pair_def Let_def write_tar_entry_def has_ttl_entry_def tar_path_def
          strip_prefix_def archived_value_def simp del: str_simps split: option.split)
  qed
qed

text \<open>All keys of a map have plain paths.\<close>

definition plain_paths :: "(bytes \<Rightarrow> bytes option) \<Rightarrow> bool" where
  "plain_paths m \<longleftrightarrow> (\<forall>key. m key \<noteq> None \<longrightarrow> plain_tar_path (tar_path (from_utf8_lossy key)))"

definition exported :: "(bytes \<Rightarrow> bytes option) \<Rightarrow> archive \<Rightarrow> bool" where
  "exported m archive \<longleftrightarrow> (\<exists>pairs ess. is_scan m [] pairs \<and>
     list_all2 (\<lambda>(key, v). pair_archived key v) pairs ess \<and> archive = (str ''_meta/version'', str ''tric+1'') # concat ess)"

context kv_bus begin

lemma write_tar_pair_spec:
  assumes "good s" and "works fw" and plain: "plain_tar_path (tar_path (from_utf8_lossy key))"
  shows "returns (write_tar_pair fw bus key v archive) s (\<lambda>r s'. good s' \<and> (\<exists>es. r = Inr (archive @ es) \<and> pair_archived key v es))"
proof (cases "has_ttl_entry (from_utf8_lossy key)")
  case True
  then show ?thesis
    unfolding write_tar_pair_eq[OF assms(2) plain] Let_def
    by (auto simp: wp bus_step_def pair_archived_def split: option.split intro!: returns_mono[OF remaining_law[OF assms(1)]])
next
  case False
  with assms(1) show ?thesis
    by (simp add: write_tar_pair_eq[OF assms(2) plain] Let_def wp pair_archived_def)
qed

lemma write_tar_pairs_spec:
  "good s \<Longrightarrow> works fw \<Longrightarrow> \<forall>(key, v) \<in> set pairs. plain_tar_path (tar_path (from_utf8_lossy key)) \<Longrightarrow>
    returns (write_tar_pairs fw bus pairs archive result) s (\<lambda>r s'. good s' \<and>
    (\<exists>ess. list_all2 (\<lambda>(key, v). pair_archived key v) pairs ess \<and> r = Inr (archive @ concat ess,
      \<lparr>er_entries = er_entries result + length pairs,
       er_bytes_written = er_bytes_written result + sum_list (map (\<lambda>(key, v). length key + length v) pairs)\<rparr>)))"
proof (induction pairs arbitrary: s archive result)
  case Nil
  then show ?case by (simp add: wp)
next
  case (Cons pair pairs)
  obtain key v where pair: "pair = (key, v)" by (cases pair)
  have plain: "plain_tar_path (tar_path (from_utf8_lossy key))"
    "\<forall>(key, v) \<in> set pairs. plain_tar_path (tar_path (from_utf8_lossy key))" using Cons.prems(3) by (auto simp: pair)
  show ?case
    unfolding pair write_tar_pairs.simps returns_bind
  proof (rule returns_mono[OF write_tar_pair_spec[OF Cons.prems(1,2) plain(1)]], elim conjE exE, goal_cases)
    case (1 r s' es)
    show ?case
      unfolding 1(2) sum.case
    proof (rule returns_mono[OF Cons.IH[OF 1(1) Cons.prems(2) plain(2)]], elim conjE exE, goal_cases)
      case (1 r s' ess)
      then show ?case using \<open>pair_archived key v es\<close> by (intro conjI exI[of _ "es # ess"]) simp_all
    qed
  qed
qed

lemma write_tric_archive_spec:
  assumes "good s" and "works fw" and plain: "plain_paths (view s (now s))"
  shows "returns (write_tric_archive fw bus path debug_uncompressed) s (\<lambda>r s'. good s' \<and>
    (\<exists>archive result. r = Inr (archive, result) \<and> exported (view s (now s)) archive))"
proof -
  have version: "fw_append fw (str ''_meta/version'') d = Inr (str ''_meta/version'')" for d
    using assms(2) by (simp add: works_def plain_tar_path_def)
  have "returns (write_tar_contents fw bus result) s (\<lambda>r s'. good s' \<and>
      (\<exists>archive result. r = Inr (archive, result) \<and> exported (view s (now s)) archive))" for result
    unfolding write_tar_contents_def write_tar_entry_def version sum.case returns_bind
  proof (intro returns_mono[OF find_law[OF assms(1)]] returns_mono[OF write_tar_pairs_spec], goal_cases)
    case (3 pairs s1)
    then show ?case using plain by (auto simp: plain_paths_def is_scan_def)
  next
    case (4 pairs s1 r s2)
    then show ?case unfolding exported_def by fastforce
  qed (auto simp: bus_step_def assms(2))
  note contents = this
  show ?thesis
    using assms(2) unfolding write_tric_archive_def works_def
    by (auto simp: wp intro!: returns_mono[OF contents])
qed

end


section \<open>The import of an export\<close>

text \<open>
  The keys with their values in the entries \<open>es\<close> of an archive, and the keys with a lifetime there.
\<close>

definition data_keys :: "archive \<Rightarrow> bytes set" where
  "data_keys es = parse_tar_path_to_key ` {p \<in> fst ` set es. data_path p}"

definition ttl_keys :: "archive \<Rightarrow> bytes set" where
  "ttl_keys es = {replace_first 47 58 q |q. str ''_ttl/'' @ q \<in> fst ` set es}"

text \<open>Every entry is the version, the value of a key in \<open>D\<close>, or the lifetime of a key in \<open>D\<close>.\<close>

definition entry_of :: "(bytes \<Rightarrow> bool) \<Rightarrow> (bytes \<Rightarrow> bytes option) \<Rightarrow> bytes \<times> bytes \<Rightarrow> bool" where
  "entry_of storable D e \<longleftrightarrow> fst e = str ''_meta/version'' \<or>
     (\<exists>q. fst e = str ''_ttl/'' @ q \<and> D (replace_first 47 58 q) \<noteq> None) \<or>
     data_path (fst e) \<and> storable (parse_tar_path_to_key (fst e)) \<and> D (parse_tar_path_to_key (fst e)) = Some (snd e)"

text \<open>
  \<open>loaded D K L m0 m\<close>: the keys outside \<open>D\<close> are as they were; the keys of \<open>K\<close> have the value of
  \<open>D\<close>, or none any more if they have a lifetime, that is, are in \<open>L\<close>.
\<close>

definition loaded :: "(bytes \<Rightarrow> bytes option) \<Rightarrow> bytes set \<Rightarrow> bytes set \<Rightarrow> (bytes \<Rightarrow> bytes option) \<Rightarrow> (bytes \<Rightarrow> bytes option) \<Rightarrow> bool" where
  "loaded D K L m0 m \<longleftrightarrow> (\<forall>k. (D k = None \<longrightarrow> m k = m0 k) \<and>
     (k \<in> K \<longrightarrow> D k \<noteq> None \<longrightarrow> m k = D k \<or> k \<in> L \<and> m k = None))"

lemma loadedD: "loaded D K L m0 m \<Longrightarrow> k \<in> K \<Longrightarrow> D k = Some v \<Longrightarrow> m k = Some v \<or> k \<in> L \<and> m k = None"
  by (auto simp: loaded_def)

lemma loaded_write: "loaded D K L m0 m \<Longrightarrow> D k = Some v \<Longrightarrow> loaded D (insert k K) L m0 (m(k \<mapsto> v))"
  by (auto simp: loaded_def)

lemma loaded_ttl:
  "loaded D K L m0 m \<Longrightarrow> loaded D K L m0' m' \<Longrightarrow> k \<in> L \<Longrightarrow> D k \<noteq> None \<Longrightarrow> loaded D K L m0 (m(k := if b then m' k else None))"
  by (auto simp: loaded_def)

lemma data_keys_Cons: "data_keys (e # es) = (if data_path (fst e) then {parse_tar_path_to_key (fst e)} else {}) \<union> data_keys es"
  by (auto simp: data_keys_def)

context ttl_bus begin

lemma write_ttl_loads:
  assumes good: "good s" and k: "k \<in> L" "D k \<noteq> None" and m0: "\<forall>t. now s \<le> t \<longrightarrow> loaded D K L (m0 t) (view s t)"
  shows "returns (bus_write_ttl bus k (from_millis ms)) s (\<lambda>_ s'. good s' \<and> now s \<le> now s' \<and>
    (\<forall>t. now s' \<le> t \<longrightarrow> loaded D K L (m0 t) (view s' t)))"
proof (rule returns_mono[OF write_ttl_law[OF good wire_duration_from_millis]], elim exE conjE)
  fix u s' b
  assume step: "bus_step good now view s s' (\<lambda>t m. m(k := if t < b + from_millis ms then view s (now s) k else None))"
  have "loaded D K L (m0 t) (view s' t)" if "now s' \<le> t" for t
  proof -
    have "loaded D K L (m0 t) ((view s t)(k := if t < b + from_millis ms then view s (now s) k else None))"
      by (rule loaded_ttl[where m0' = "m0 (now s)"]) (use step that m0 k in \<open>auto simp: bus_step_def\<close>)
    then show ?thesis using step that by (simp add: bus_step_def)
  qed
  with step show "good s' \<and> now s \<le> now s' \<and> (\<forall>t. now s' \<le> t \<longrightarrow> loaded D K L (m0 t) (view s' t))"
    by (simp add: bus_step_def)
qed

lemma write_value_loads:
  assumes good: "good s" and k: "storable k" "D k = Some v" and m0: "\<forall>t. now s \<le> t \<longrightarrow> loaded D K L (m0 t) (view s t)"
  shows "returns (bus_write_value bus k v) s (\<lambda>_ s'. good s' \<and> now s \<le> now s' \<and>
    (\<forall>t. now s' \<le> t \<longrightarrow> loaded D (insert k K) L (m0 t) (view s' t)))"
  by (rule returns_mono[OF write_law[OF good k(1)]]) (use k m0 in \<open>auto simp: bus_step_def intro!: loaded_write\<close>)

lemma write_diff_entry_loads:
  assumes good: "good s" and e: "entry_of storable D (path, v)" and meta: "path \<noteq> str ''_meta/version''"
    and L: "\<And>q. path = str ''_ttl/'' @ q \<Longrightarrow> replace_first 47 58 q \<in> L"
    and m0: "\<forall>t. now s \<le> t \<longrightarrow> loaded D K L (m0 t) (view s t)"
  shows "returns (write_diff_entry bus (parse_tar_path_to_key path) v path) s (\<lambda>_ s'. good s' \<and> now s \<le> now s' \<and>
    (\<forall>t. now s' \<le> t \<longrightarrow> loaded D (K \<union> (if data_path path then {parse_tar_path_to_key path} else {})) L (m0 t) (view s' t)))"
proof (cases "strip_prefix (str ''_ttl/'') path")
  case (Some q)
  then have path: "path = str ''_ttl/'' @ q" by (auto simp: strip_prefix_def prefix_def split: if_splits)
  have k: "replace_first 47 58 q \<in> L" "D (replace_first 47 58 q) \<noteq> None"
    using L[OF path] e by (auto simp: entry_of_def path data_path_def)
  have no_data: "\<not> data_path path" by (simp add: data_path_def path)
  show ?thesis
    using good m0 write_ttl_loads[OF good k m0] unfolding write_diff_entry_def Some option.case
    by (auto simp: no_data wp split: option.split)
next
  case None
  then have "\<not> prefix (str ''_ttl/'') path" by (auto simp: strip_prefix_def split: if_splits)
  then have data: "data_path path" "storable (parse_tar_path_to_key path)" "D (parse_tar_path_to_key path) = Some v"
    using e meta by (auto simp: entry_of_def data_path_def simp del: str_simps)
  show ?thesis
    using write_value_loads[OF good data(2,3) m0] data(1) by (simp add: write_diff_entry_def None del: str_simps)
qed

lemma diff_new_loads:
  "good s \<Longrightarrow> \<forall>e \<in> set es. entry_of storable D e \<Longrightarrow> ttl_keys es \<subseteq> L \<Longrightarrow>
    \<forall>t. now s \<le> t \<longrightarrow> loaded D K L (m0 t) (view s t) \<Longrightarrow>
    returns (diff_new bus [] es result) s (\<lambda>_ s'. good s' \<and> now s \<le> now s' \<and>
      (\<forall>t. now s' \<le> t \<longrightarrow> loaded D (K \<union> data_keys es) L (m0 t) (view s' t)))"
proof (induction es arbitrary: s K result)
  case Nil
  then show ?case by (simp add: wp data_keys_def)
next
  case (Cons e es)
  obtain path v where e: "e = (path, v)" by (cases e)
  have es: "\<forall>e \<in> set es. entry_of storable D e" "ttl_keys es \<subseteq> L"
    using Cons.prems(2,3) by (auto simp: ttl_keys_def)
  show ?case
  proof (cases "path = str ''_meta/version''")
    case True
    then have "\<not> data_path path" by (simp add: data_path_def)
    with Cons.IH[OF Cons.prems(1) es Cons.prems(4)] True show ?thesis
      by (simp add: e data_keys_Cons del: str_simps)
  next
    case False
    have L: "replace_first 47 58 q \<in> L" if "path = str ''_ttl/'' @ q" for q
      using Cons.prems(3) that unfolding e ttl_keys_def by (auto simp del: str_simps)
    have "entry_of storable D (path, v)" using Cons.prems(2) by (simp add: e)
    note one = write_diff_entry_loads[OF Cons.prems(1) this False L Cons.prems(4)]
    have "returns (op_bind (write_diff_entry bus (parse_tar_path_to_key path) v path) (\<lambda>_. diff_new bus [] es result')) s
      (\<lambda>_ s'. good s' \<and> now s \<le> now s' \<and> (\<forall>t. now s' \<le> t \<longrightarrow> loaded D (K \<union> data_keys (e # es)) L (m0 t) (view s' t)))" for result'
      unfolding returns_bind
    proof (rule returns_mono[OF one], assumption, elim conjE, goal_cases)
      case (1 u s')
      show ?case
        by (rule returns_mono[OF Cons.IH[OF 1(1) es 1(3)]]) (use 1 in \<open>auto simp: e data_keys_Cons Un_assoc\<close>)
    qed
    with False show ?thesis by (simp add: e)
  qed
qed

text \<open>The import into a bus of the archive of a map whose keys survive, in whatever order.\<close>

lemma diff_import_loads:
  assumes "good s" and "\<forall>e \<in> set es. entry_of storable D e"
  shows "returns (diff_entries bus [] es) s (\<lambda>_ s'. good s' \<and> now s \<le> now s' \<and>
    (\<forall>t. now s' \<le> t \<longrightarrow> loaded D (data_keys es) (ttl_keys es) (view s t) (view s' t)))"
  unfolding diff_entries_def returns_bind
proof (rule returns_mono[OF diff_new_loads[OF assms subset_refl, where K = "{}" and ?m0.0 = "view s"]], goal_cases)
  case 1 show ?case by (simp add: loaded_def)
next
  case (2 r s') then show ?case by (simp add: wp)
qed

end

section \<open>Exported entries are importable\<close>

text \<open>The entries of a hash map filled from the archive, in some order.\<close>

definition enumerates :: "archive \<Rightarrow> archive \<Rightarrow> bool" where
  "enumerates es archive \<longleftrightarrow> distinct (map fst es) \<and> map_of es = map_of (rev archive)"

lemma archived_entries:
  assumes "exported m archive" and e: "(p, x) \<in> set archive"
  shows "(p, x) = (str ''_meta/version'', str ''tric+1'') \<or> (\<exists>key v. m key = Some v \<and> (let k = from_utf8_lossy key in
    (p, x) = (tar_path k, archived_value k v) \<or> has_ttl_entry k \<and> p = ttl_path k))"
proof -
  obtain pairs ess where scan: "is_scan m [] pairs" and all: "list_all2 (\<lambda>(key, v). pair_archived key v) pairs ess"
    and archive: "archive = (str ''_meta/version'', str ''tric+1'') # concat ess"
    using assms(1) by (auto simp: exported_def)
  show ?thesis
  proof (cases "(p, x) = (str ''_meta/version'', str ''tric+1'')")
    case False
    with e archive obtain es where "es \<in> set ess" and pe: "(p, x) \<in> set es" by (auto simp del: str_simps)
    then obtain i where i: "i < length ess" "es = ess ! i" by (auto simp: in_set_conv_nth)
    obtain key v where pair: "pairs ! i = (key, v)" by (cases "pairs ! i")
    have "pair_archived key v es" using list_all2_nthD2[OF all i(1)] by (simp add: pair i(2))
    moreover have "(key, v) \<in> set pairs" using list_all2_lengthD[OF all] i(1) pair by (metis nth_mem)
    then have "m key = Some v" using scan by (simp add: is_scan_def)
    ultimately show ?thesis
      using pe by (intro disjI2 exI[of _ key] exI[of _ v]) (auto simp: pair_archived_def Let_def)
  qed simp
qed

lemma archived_key:
  assumes "exported m archive" and "m key = Some v"
  shows "(tar_path (from_utf8_lossy key), archived_value (from_utf8_lossy key) v) \<in> set archive"
proof -
  obtain pairs ess where scan: "is_scan m [] pairs" and all: "list_all2 (\<lambda>(key, v). pair_archived key v) pairs ess"
    and archive: "archive = (str ''_meta/version'', str ''tric+1'') # concat ess"
    using assms(1) by (auto simp: exported_def)
  have "(key, v) \<in> set pairs" using scan assms(2) by (simp add: is_scan_def)
  then obtain i where i: "i < length pairs" "pairs ! i = (key, v)" by (auto simp: in_set_conv_nth)
  have "pair_archived key v (ess ! i)" using list_all2_nthD[OF all i(1)] by (simp add: i(2))
  then have "(tar_path (from_utf8_lossy key), archived_value (from_utf8_lossy key) v) \<in> set (ess ! i)"
    by (auto simp: pair_archived_def Let_def)
  then show ?thesis using i(1) list_all2_lengthD[OF all] by (auto simp: archive)
qed


lemma ttl_path_key:
  assumes "exportable key" and "has_ttl_entry key"
  shows "replace_first 47 58 (replace_byte 58 [47] key) = key"
proof -
  define ns where "ns = takeWhile (\<lambda>b. b \<noteq> 58) key"
  define rest where "rest = drop (length ns + 1) key"
  have ns: "58 \<notin> set ns" "47 \<notin> set ns"
    using assms by (auto simp: exportable_def ns_def Let_def dest: set_takeWhileD)
  show ?thesis
  proof (cases "ns = key")
    case True
    with ns show ?thesis by (simp add: replace_byte_none replace_first_none)
  next
    case False
    with key_shape[of key] have key: "key = ns @ 58 # rest" by (auto simp: ns_def rest_def)
    have "ns \<notin> {str ''_schema'', str ''_rel''}"
      using assms(2) unfolding has_ttl_entry_def key namespace_prefixes(1,2)[OF ns(1)] by blast
    then have "58 \<notin> set rest"
      using assms(1) False unfolding exportable_def Let_def ns_def[symmetric] rest_def[symmetric] by blast
    with ns show ?thesis
      by (simp add: key replace_byte_append replace_byte_Cons replace_byte_none replace_first_append)
  qed
qed

definition survives :: "(bytes \<Rightarrow> bytes option) \<Rightarrow> bool" where
  "survives m \<longleftrightarrow> (\<forall>k v. m k = Some v \<longrightarrow> exportable_pair (k, v) \<and> storable_key k \<and> plain_tar_path (tar_path k))"

lemma exportable_lossy: "exportable k \<Longrightarrow> from_utf8_lossy k = k"
  by (simp add: exportable_def from_utf8_lossy_valid)

lemma survivesD:
  assumes "survives m" and "m key = Some v"
  shows "exportable key" "storable_key key" "from_utf8_lossy key = key" "archived_value key v = v"
    "plain_tar_path (tar_path key)"
  using assms by (auto simp: survives_def exportable_pair_def exportable_lossy archived_value_def)

lemma survives_plain: "survives m \<Longrightarrow> plain_paths m"
  unfolding plain_paths_def using survivesD(3,5) by fastforce

lemma exported_entries:
  assumes "exported m archive" "survives m" and "(p, x) \<in> set archive"
  shows "p = str ''_meta/version'' \<or> (\<exists>key v. m key = Some v \<and> (p = tar_path key \<and> x = v \<or> has_ttl_entry key \<and> p = ttl_path key))"
proof (cases "p = str ''_meta/version''")
  case False
  with archived_entries[OF assms(1,3)] obtain key v where key: "m key = Some v"
    and p: "(p, x) = (tar_path (from_utf8_lossy key), archived_value (from_utf8_lossy key) v) \<or>
      has_ttl_entry (from_utf8_lossy key) \<and> p = ttl_path (from_utf8_lossy key)"
    unfolding Let_def by blast
  show ?thesis using p[unfolded survivesD(3,4)[OF assms(2) key]] key by blast
qed simp

lemma exported_entry_of:
  assumes m: "exported m archive" "survives m" and e: "e \<in> set archive"
  shows "entry_of storable_key m e"
proof -
  obtain p x where px: "e = (p, x)" by (cases e)
  consider "p = str ''_meta/version''" | key v where "m key = Some v" "p = tar_path key" "x = v"
    | key v where "m key = Some v" "has_ttl_entry key" "p = ttl_path key"
    using exported_entries[OF m e[unfolded px]] by blast
  then show ?thesis
  proof cases
    case 1
    then show ?thesis by (simp add: entry_of_def px)
  next
    case (2 key v)
    note s = survivesD[OF m(2) 2(1)]
    show ?thesis
      unfolding entry_of_def px fst_conv snd_conv 2(2) data_path_def tar_path_roundtrip(1)[OF s(1)]
      using tar_path_roundtrip(2,3)[OF s(1)] s 2 by blast
  next
    case (3 key v)
    then show ?thesis
      using survivesD[OF m(2) 3(1)] by (auto simp: entry_of_def px ttl_path_def ttl_path_key simp del: str_simps)
  qed
qed

lemma exported_data_key:
  assumes m: "exported m archive" "survives m" and "enumerates es archive" and k: "m k = Some v"
  shows "k \<in> data_keys es"
proof -
  note s = survivesD[OF m(2) k]
  have "(tar_path k, v) \<in> set archive" using archived_key[OF m(1) k] by (simp add: s)
  then have "tar_path k \<in> fst ` set (rev archive)" by (auto intro: rev_image_eqI)
  then have "map_of (rev archive) (tar_path k) \<noteq> None" unfolding map_of_eq_None_iff by blast
  then have "tar_path k \<in> fst ` set es" using assms(3) unfolding enumerates_def by (metis map_of_eq_None_iff)
  moreover have "data_path (tar_path k)" using tar_path_roundtrip(2,3)[OF s(1)] by (simp add: data_path_def del: str_simps)
  ultimately show ?thesis unfolding data_keys_def using tar_path_roundtrip(1)[OF s(1)] by force
qed

lemma enumerates_subset: "enumerates es archive \<Longrightarrow> set es \<subseteq> set archive"
proof
  fix e assume es: "enumerates es archive" and e: "e \<in> set es"
  then have "map_of es (fst e) = Some (snd e)" unfolding enumerates_def by (intro map_of_is_SomeI) simp_all
  with es have "map_of (rev archive) (fst e) = Some (snd e)" unfolding enumerates_def by metis
  then have "(fst e, snd e) \<in> set (rev archive)" by (rule map_of_SomeD)
  then show "e \<in> set archive" by simp
qed

lemma exported_ttl_key:
  assumes m: "exported m archive" "survives m" and es: "enumerates es archive" and k: "k \<in> ttl_keys es"
  shows "ttl_path k \<in> fst ` set archive"
proof -
  obtain q where q: "k = replace_first 47 58 q" "str ''_ttl/'' @ q \<in> fst ` set archive"
    using k enumerates_subset[OF es] by (auto simp: ttl_keys_def simp del: str_simps)
  then obtain x where x: "(str ''_ttl/'' @ q, x) \<in> set archive" by (auto simp del: str_simps)
  have "str ''_ttl/'' @ q \<noteq> str ''_meta/version''" by simp
  with exported_entries[OF m x] obtain key v where key: "m key = Some v"
    and p: "str ''_ttl/'' @ q = tar_path key \<or> has_ttl_entry key \<and> str ''_ttl/'' @ q = ttl_path key" by blast
  have "\<not> prefix (str ''_ttl/'') (tar_path key)" using tar_path_roundtrip(3)[OF survivesD(1)[OF m(2) key]] .
  with p have "has_ttl_entry key \<and> str ''_ttl/'' @ q = ttl_path key" by (metis prefixI)
  then have "has_ttl_entry key" "q = replace_byte 58 [47] key" by (simp_all add: ttl_path_def)
  then have "k = key" using ttl_path_key[OF survivesD(1)[OF m(2) key]] q(1) by simp
  with q(2) \<open>q = _\<close> show ?thesis by (simp add: ttl_path_def)
qed


section \<open>The round trip\<close>

text \<open>C29: The round trip of an archive: the export of a consistent bus writes an archive, and the import
  of that archive into another bus, whatever order the entries come in, gives every key its value
  and changes no other key, if every key has a namespace without slashes and no second colon,
  relationships carry no value, and no path of a key has a component that is empty or one or two
  dots, which \<open>tar\<close> drops or refuses. A key whose lifetime is in the archive may have expired again.\<close>

theorem archive_roundtrip:
  assumes P: "permutive_inv eng P" and Q: "permutive_inv eng' Q" and fw: "works fw"
    and keys: "survives (permutive_view eng P (permutive_now P))"
  shows "returns (write_tric_archive fw (permutive_bus eng) path debug) P (\<lambda>r P'. \<exists>archive result. r = Inr (archive, result) \<and>
    (\<forall>es. enumerates es archive \<longrightarrow> returns (diff_entries (permutive_bus eng') [] es) Q (\<lambda>_ Q'. permutive_inv eng' Q' \<and>
      (\<forall>t k. permutive_now Q' \<le> t \<longrightarrow> (case permutive_view eng P (permutive_now P) k of
          None \<Rightarrow> permutive_view eng' Q' t k = permutive_view eng' Q t k
        | Some v \<Rightarrow> permutive_view eng' Q' t k = Some v \<or>
            ttl_path k \<in> fst ` set archive \<and> permutive_view eng' Q' t k = None)))))"
proof (rule returns_mono[OF pb.write_tric_archive_spec[OF P fw survives_plain[OF keys]]], elim conjE exE, intro exI conjI allI impI)
  let ?m = "permutive_view eng P (permutive_now P)"
  fix r P' archive result es
  assume exported: "exported ?m archive" and es: "enumerates es archive"
  have entries: "\<forall>e \<in> set es. entry_of storable_key ?m e"
    using exported_entry_of[OF exported keys] enumerates_subset[OF es] by blast
  show "returns (diff_entries (permutive_bus eng') [] es) Q (\<lambda>_ Q'. permutive_inv eng' Q' \<and>
      (\<forall>t k. permutive_now Q' \<le> t \<longrightarrow> (case ?m k of
          None \<Rightarrow> permutive_view eng' Q' t k = permutive_view eng' Q t k
        | Some v \<Rightarrow> permutive_view eng' Q' t k = Some v \<or>
            ttl_path k \<in> fst ` set archive \<and> permutive_view eng' Q' t k = None)))"
  proof (rule returns_mono[OF pb.diff_import_loads[OF Q entries]], elim conjE, intro conjI allI impI, goal_cases)
    case (2 u Q' t k)
    then have "loaded ?m (data_keys es) (ttl_keys es) (permutive_view eng' Q t) (permutive_view eng' Q' t)" by blast
    then show ?case
      using exported_data_key[OF exported keys es, of k] exported_ttl_key[OF exported keys es, of k]
      by (cases "?m k") (auto simp: loaded_def)
  qed
qed (auto simp: exported_def)


lemma archive_roundtrip_witness:
  "returns (write_tric_archive tar_writer (permutive_bus mem_sqlite) (str ''x.tric'') False) sample_permutive
    (\<lambda>r P'. \<exists>archive result. r = Inr (archive, result) \<and>
    (\<forall>es. enumerates es archive \<longrightarrow> returns (diff_entries (permutive_bus mem_sqlite) [] es) fresh_permutive
      (\<lambda>_ Q'. permutive_inv mem_sqlite Q' \<and>
      (\<forall>t k. permutive_now Q' \<le> t \<longrightarrow> (case permutive_view mem_sqlite sample_permutive (permutive_now sample_permutive) k of
          None \<Rightarrow> permutive_view mem_sqlite Q' t k = permutive_view mem_sqlite fresh_permutive t k
        | Some v \<Rightarrow> permutive_view mem_sqlite Q' t k = Some v \<or>
            ttl_path k \<in> fst ` set archive \<and> permutive_view mem_sqlite Q' t k = None)))))"
proof (rule archive_roundtrip[OF sample_permutive_inv fresh_permutive_inv tar_writer_works])
  have "exportable_pair (str ''a:k'', [7])"
    unfolding exportable_pair_def exportable_def by (simp add: Let_def utf8_next.simps)
  moreover have "storable_key (str ''a:k'')" by (auto intro!: ascii_storable)
  moreover have "plain_tar_path (tar_path (str ''a:k''))"
    by (simp add: plain_tar_path_def tar_path_def strip_prefix_def replace_byte_Cons replace_byte_def)
  ultimately show "survives (permutive_view mem_sqlite sample_permutive (permutive_now sample_permutive))"
    unfolding survives_def sample_permutive_view by (metis option.distinct(1) option.sel)
qed

text \<open>A key with a second colon does not survive an archive: the export turns every colon into a
  slash and the import turns the first slash back, so the key comes back as another key.\<close>

theorem second_colon_changes_key:
  assumes "58 \<notin> set ns" and "47 \<notin> set ns" and "ns \<notin> {str ''_schema'', str ''_rel'', str ''_ttl''}"
  shows "parse_tar_path_to_key (tar_path (ns @ 58 # rest)) = ns @ 58 # replace_byte 58 [47] rest \<and>
    (parse_tar_path_to_key (tar_path (ns @ 58 # rest)) = ns @ 58 # rest \<longleftrightarrow> 58 \<notin> set rest)"
proof -
  have "replace_byte 58 [47] rest = rest \<longleftrightarrow> 58 \<notin> set rest"
    by (induction rest) (auto simp: replace_byte_Cons replace_byte_def)
  then show ?thesis unfolding tar_path_key[OF assms] by simp
qed

lemma second_colon_changes_key_witness:
  "parse_tar_path_to_key (tar_path (str ''t'' @ 58 # str ''a:b'')) = str ''t:a/b'' \<and>
   parse_tar_path_to_key (tar_path (str ''t'' @ 58 # str ''a:b'')) \<noteq> str ''t:a:b''"
  using second_colon_changes_key[of "str ''t''" "str ''a:b''"] by (simp add: replace_byte_Cons replace_byte_def)

text \<open>Nor does a key with an empty component in its path: \<open>tar\<close> stores the path without it.\<close>

lemma empty_component_changes_key:
  "\<not> plain_tar_path (tar_path (str ''page:/index''))"
  "tar_append (tar_path (str ''page:/index'')) = Inr (str ''page/index'')"
  "parse_tar_path_to_key (str ''page/index'') = str ''page:index''"
  by (simp_all add: plain_tar_path_def tar_append_def tar_path_def parse_tar_path_to_key_def strip_prefix_def
      replace_byte_Cons replace_byte_def suffix_to_prefix)

end
