(* ===== verification/Cli.thy ===== *)
theory Cli
  imports Server Archive
begin

text \<open>
  \<open>src/modules/cli.rs\<close>: the admin commands. A command answers with a text, and some commands write a
  file; both are the value of the operation. The files that a command reads, and the errors of the
  file system, are the parameter \<open>admin_files\<close>; what the crates \<open>tar\<close> and \<open>brotli\<close> do is in its last
  two fields. Log messages are left out.
\<close>

datatype file_content = Dump_File bytes | Sql_File bytes | Archive_File archive

record admin_output =
  ao_text :: bytes
  ao_file :: "(bytes \<times> file_content) option"

record admin_files =
  af_metadata :: "bytes \<Rightarrow> bytes + nat"
  af_read_to_string :: "bytes \<Rightarrow> bytes + bytes"
  af_create :: "bytes \<Rightarrow> bytes option"
  af_open :: "bytes \<Rightarrow> bytes option"
  af_read_to_end :: "bytes \<Rightarrow> bytes option"
  af_writer :: file_writer
  af_reader :: archive_reader

record cli_config =
  cc_auth_keys_path :: "bytes option"

definition answer :: "bytes \<Rightarrow> admin_output" where
  "answer text = \<lparr>ao_text = text, ao_file = None\<rparr>"

text \<open>\<open>parts.next()\<close>, for the word with the number \<open>n\<close>.\<close>

definition word_at :: "nat \<Rightarrow> bytes list \<Rightarrow> bytes option" where
  "word_at n parts = (if n < length parts then Some (parts ! n) else None)"

section \<open>Counters, keys and lifetimes\<close>

definition render_status :: "metrics \<Rightarrow> bytes" where
  "render_status m =
     str ''tric-server'' @ [10] @ str ''  requests  '' @ dec_nat (unat (requests_total m)) @ str '' total ''
     @ dec_nat (unat (requests_local m)) @ str '' local '' @ dec_nat (unat (requests_network m)) @ str '' network'' @ [10]
     @ str ''  errors    '' @ dec_nat (unat (errors_total m)) @ [10]
     @ str ''  sessions  '' @ dec_nat (unat (active_sessions m)) @ [10]
     @ str ''  latency   '' @ dec_nat (unat (read_latency_average_microseconds m)) @ str ''us avg ''
     @ dec_nat (unat (latency_max_microseconds m)) @ str ''us max'' @ [10]"

definition render_reload :: "cli_config \<Rightarrow> bytes" where
  "render_reload config =
     (case cc_auth_keys_path config of
        Some path \<Rightarrow> str ''reloaded '' @ path @ [10]
      | None \<Rightarrow> str ''auth disabled (--no-auth); nothing to reload'' @ [10])"

definition key_line :: "bytes \<times> bytes \<Rightarrow> bytes" where
  "key_line pair = (case pair of (key, v) \<Rightarrow> from_utf8_lossy key @ str ''  '' @ dec_nat (length v) @ str ''B'' @ [10])"

definition render_keys :: "bytes list \<Rightarrow> 'st data_bus \<Rightarrow> ('st, bytes) op" where
  "render_keys parts bus =
     (let pre = (if word_at 0 parts = Some (str ''-p'') then (case word_at 1 parts of Some p \<Rightarrow> p | None \<Rightarrow> []) else [])
      in op_bind (bus_find_by_prefix bus pre) (\<lambda>pairs.
         if pairs = [] then op_ret (str ''(no keys)'' @ [10])
         else op_ret (concat (map key_line pairs))))"

definition render_inspect :: "bytes list \<Rightarrow> 'st data_bus \<Rightarrow> ('st, bytes) op" where
  "render_inspect parts bus =
     (case word_at 0 parts of
        None \<Rightarrow> op_ret (str ''usage: inspect <key>'' @ [10])
      | Some key \<Rightarrow>
          op_bind (bus_read_value bus key) (\<lambda>r.
          case r of
            Some v \<Rightarrow>
              op_bind (bus_read_ttl_remaining bus key) (\<lambda>ttl.
              let ttl_info = (case ttl of
                  Some remaining \<Rightarrow> dec_nat (as_secs remaining) @ str ''s''
                | None \<Rightarrow> str ''none (persistent)'')
              in op_ret (str ''key     '' @ key @ [10] @ str ''size    '' @ dec_nat (length v) @ str ''B'' @ [10]
                   @ str ''ttl     '' @ ttl_info @ [10] @ str ''tier    transient'' @ [10]))
          | None \<Rightarrow> op_ret (str ''key '' @ key @ str '' not found'' @ [10])))"

section \<open>Dump and restore\<close>

text \<open>What follows \<open>-f\<close>, where the first word is \<open>-f\<close>.\<close>

definition file_argument :: "bytes list \<Rightarrow> bytes option" where
  "file_argument parts = (if word_at 0 parts = Some (str ''-f'') then word_at 1 parts else None)"

definition dump_entry :: "bytes \<Rightarrow> bytes \<Rightarrow> u64 \<Rightarrow> bytes" where
  "dump_entry key v ttl_ms =
     u32_to_be_bytes (len_u32 key) @ key @ u32_to_be_bytes (len_u32 v) @ v @ u64_to_be_bytes ttl_ms"

text \<open>The loop: the file as written so far, the number of entries and of bytes.\<close>

fun dump_loop :: "'st data_bus \<Rightarrow> (bytes \<times> bytes) list \<Rightarrow> bytes \<Rightarrow> nat \<Rightarrow> nat \<Rightarrow> ('st, bytes \<times> nat \<times> nat) op" where
  "dump_loop bus [] file count bytes_written = op_ret (file, count, bytes_written)"
| "dump_loop bus ((key, v) # pairs) file count bytes_written =
     op_bind (bus_read_ttl_remaining bus key) (\<lambda>ttl.
     dump_loop bus pairs (file @ dump_entry key v (ttl_millis ttl)) (count + 1)
       (bytes_written + (4 + length key + 4 + length v + 8)))"

definition render_dump :: "admin_files \<Rightarrow> bytes list \<Rightarrow> 'st data_bus \<Rightarrow> ('st, admin_output) op" where
  "render_dump files parts bus =
     (case file_argument parts of
        None \<Rightarrow> op_ret (answer (str ''usage: dump -f <path>'' @ [10]))
      | Some path \<Rightarrow>
          op_bind (bus_find_by_prefix bus []) (\<lambda>pairs.
          case af_create files path of
            Some error \<Rightarrow> op_ret (answer (str ''error: cannot create '' @ path @ str '': '' @ error @ [10]))
          | None \<Rightarrow>
              op_bind (dump_loop bus pairs [] 0 0) (\<lambda>(file, count, bytes_written).
              op_ret \<lparr>ao_text = dec_nat count @ str '' entries  '' @ dec_nat bytes_written @ str ''B  written to '' @ path @ [10],
                ao_file = Some (path, Dump_File file)\<rparr>)))"

definition be_u32_at :: "bytes \<Rightarrow> nat \<Rightarrow> nat" where
  "be_u32_at d offset = unat (u32_from_be_bytes (take 4 (drop offset d)))"

definition be_u64_at :: "bytes \<Rightarrow> nat \<Rightarrow> u64" where
  "be_u64_at d offset = u64_from_be_bytes (take 8 (drop offset d))"

function restore_loop :: "'st data_bus \<Rightarrow> bytes \<Rightarrow> nat \<Rightarrow> nat \<Rightarrow> ('st, nat) op" where
  "restore_loop bus d offset count =
     (if offset + 4 \<le> length d
      then let key_len = be_u32_at d offset; offset = offset + 4
           in if length d < offset + key_len + 4 then op_ret count
              else let key = take key_len (drop offset d); offset = offset + key_len;
                       value_len = be_u32_at d offset; offset = offset + 4
                   in if length d < offset + value_len + 8 then op_ret count
                      else let v = take value_len (drop offset d); offset = offset + value_len;
                               ttl_ms = be_u64_at d offset; offset = offset + 8
                           in op_bind (bus_write_value bus key v) (\<lambda>_.
                              op_bind (if 0 < ttl_ms then bus_write_ttl bus key (from_millis ttl_ms) else op_ret ()) (\<lambda>_.
                              restore_loop bus d offset (count + 1)))
      else op_ret count)"
  by pat_completeness auto
termination
  by (relation "measure (\<lambda>(bus, d, offset, count). length d - offset)") auto

declare restore_loop.simps [simp del]

definition render_restore :: "admin_files \<Rightarrow> bytes list \<Rightarrow> 'st data_bus \<Rightarrow> ('st, bytes) op" where
  "render_restore files parts bus =
     (case file_argument parts of
        None \<Rightarrow> op_ret (str ''usage: restore -f <path>'' @ [10])
      | Some path \<Rightarrow>
          (case af_open files path of
             Some error \<Rightarrow> op_ret (str ''error: cannot open '' @ path @ str '': '' @ error @ [10])
           | None \<Rightarrow>
               (case af_read_to_end files path of
                  None \<Rightarrow> op_ret (str ''error: cannot read '' @ path @ [10])
                | Some d \<Rightarrow>
                    op_bind (restore_loop bus d 0 0) (\<lambda>count.
                    op_ret (dec_nat count @ str '' entries restored from '' @ path @ [10])))))"

section \<open>Import and export\<close>

definition max_file_size :: nat where
  "max_file_size = 1073741824"

fun check_sizes :: "admin_files \<Rightarrow> bytes list \<Rightarrow> bytes option" where
  "check_sizes files [] = None"
| "check_sizes files (path # paths) =
     (case af_metadata files path of
        Inr len \<Rightarrow>
          if max_file_size < len then Some (str ''error: '' @ path @ str '' exceeds 1 GB limit ('' @ dec_nat len @ str ''B)'' @ [10])
          else check_sizes files paths
      | Inl error \<Rightarrow> Some (str ''error: cannot stat '' @ path @ str '': '' @ error @ [10]))"

definition render_diff_import :: "admin_files \<Rightarrow> bytes \<Rightarrow> bytes \<Rightarrow> 'st data_bus \<Rightarrow> ('st, bytes) op" where
  "render_diff_import files old_path new_path bus =
     (case check_sizes files [old_path, new_path] of
        Some error \<Rightarrow> op_ret error
      | None \<Rightarrow>
          op_bind (parse_diff_import (af_reader files) bus old_path new_path) (\<lambda>r.
          case r of
            Inr result \<Rightarrow> op_ret (dec_nat (dr_additions result) @ str '' additions, '' @ dec_nat (dr_modifications result)
              @ str '' modifications, '' @ dec_nat (dr_deletions result) @ str '' deletions applied.'' @ [10])
          | Inl error \<Rightarrow> op_ret (str ''error: '' @ error @ [10])))"

definition import_usage :: bytes where
  "import_usage = str ''usage: import -f <path> -F mysql|postgres|sqlite [-a]'' @ [10]
     @ str ''       import -D <old.tric> <new.tric>'' @ [10]"

definition analyse_only :: "bytes list \<Rightarrow> bool" where
  "analyse_only parts \<longleftrightarrow> word_at 4 parts = Some (str ''-a'') \<or> word_at 5 parts = Some (str ''--analyse'')"

definition format_argument :: "bytes list \<Rightarrow> bytes option" where
  "format_argument parts =
     (if word_at 2 parts \<in> {Some (str ''-F''), Some (str ''--format'')} then word_at 3 parts else None)"

definition import_file ::
  "(dialect \<Rightarrow> sql_library) \<Rightarrow> unicode \<Rightarrow> admin_files \<Rightarrow> bytes \<Rightarrow> bytes \<Rightarrow> bool \<Rightarrow> 'st data_bus \<Rightarrow> ('st, bytes) op" where
  "import_file libs uc files path format only bus =
     (case af_metadata files path of
        Inl error \<Rightarrow> op_ret (str ''error: cannot stat '' @ path @ str '': '' @ error @ [10])
      | Inr len \<Rightarrow>
          if max_file_size < len then op_ret (str ''error: file exceeds 1 GB limit ('' @ dec_nat len @ str ''B)'' @ [10])
          else case af_read_to_string files path of
            Inl error \<Rightarrow> op_ret (str ''error: cannot read '' @ path @ str '': '' @ error @ [10])
          | Inr content \<Rightarrow>
              (let statements = parse_sql_dump libs content format; plan = analyse_statements uc statements
               in if only then op_ret (render_storage_plan plan)
                  else op_bind (parse_import (libs (dialect_of format)) bus statements plan) (\<lambda>result.
                    op_ret (dec_nat (ir_tables result) @ str '' tables, '' @ dec_nat (ir_rows result) @ str '' rows, ''
                      @ dec_nat (ir_relationships result) @ str '' relationships imported. ''
                      @ dec_nat (ir_errors result) @ str '' errors.'' @ [10]))))"

definition render_import ::
  "(dialect \<Rightarrow> sql_library) \<Rightarrow> unicode \<Rightarrow> admin_files \<Rightarrow> bytes list \<Rightarrow> 'st data_bus \<Rightarrow> ('st, bytes) op" where
  "render_import libs uc files parts bus =
     (if word_at 0 parts \<in> {Some (str ''-D''), Some (str ''--diff'')} then
        (case (word_at 1 parts, word_at 2 parts) of
           (Some old_path, Some new_path) \<Rightarrow> render_diff_import files old_path new_path bus
         | _ \<Rightarrow> op_ret (str ''usage: import -D <old.tric> <new.tric>'' @ [10]))
      else case (file_argument parts, format_argument parts) of
        (Some path, Some format) \<Rightarrow> import_file libs uc files path format (analyse_only parts) bus
      | _ \<Rightarrow> op_ret import_usage)"

text \<open>The options of an export: whether it is uncompressed, and the SQL dialect.\<close>

fun export_options :: "bytes list \<Rightarrow> bool \<times> bytes option \<Rightarrow> bool \<times> bytes option" where
  "export_options [] (debug, sql_format) = (debug, sql_format)"
| "export_options (arg # parts) (debug, sql_format) =
     (if arg \<in> {str ''-d'', str ''--debug''} then export_options parts (True, sql_format)
      else if arg \<in> {str ''-F'', str ''--format''} then
        (case parts of
           [] \<Rightarrow> (debug, None)
         | format # parts \<Rightarrow> export_options parts (debug, Some format))
      else export_options parts (debug, sql_format))"

definition render_export :: "unicode \<Rightarrow> admin_files \<Rightarrow> bytes list \<Rightarrow> 'st data_bus \<Rightarrow> ('st, admin_output) op" where
  "render_export uc files parts bus =
     (case file_argument parts of
        None \<Rightarrow> op_ret (answer (str ''usage: export -f <path.tric> [-d] [-F mysql|postgres|sqlite]'' @ [10]))
      | Some path \<Rightarrow>
          (case export_options (drop 2 parts) (False, None) of
             (debug, Some dialect) \<Rightarrow>
               op_bind (write_sql_file (af_writer files) uc bus path dialect) (\<lambda>r.
               case r of
                 Inr (out, result) \<Rightarrow> op_ret \<lparr>ao_text = dec_nat (er_entries result) @ str '' rows exported to '' @ path
                   @ str '' ('' @ dialect @ str '')'' @ [10], ao_file = Some (path, Sql_File out)\<rparr>
               | Inl error \<Rightarrow> op_ret (answer (str ''error: '' @ error @ [10])))
           | (debug, None) \<Rightarrow>
               op_bind (write_tric_archive (af_writer files) bus path debug) (\<lambda>r.
               case r of
                 Inr (out, result) \<Rightarrow> op_ret \<lparr>ao_text = dec_nat (er_entries result) @ str '' entries exported to '' @ path
                   @ str '' ('' @ (if debug then str ''uncompressed tar'' else str ''Brotli'') @ str '')'' @ [10],
                   ao_file = Some (path, Archive_File out)\<rparr>
               | Inl error \<Rightarrow> op_ret (answer (str ''error: '' @ error @ [10])))))"

section \<open>Queries\<close>

definition parse_scan_key :: "bytes \<Rightarrow> bytes option" where
  "parse_scan_key d =
     (if length d < 4 then None
      else let len = be_u32_at d 0
           in if 4 + len \<le> length d then Some (take len (drop 4 d)) else None)"

definition parse_scan_value :: "bytes \<Rightarrow> bytes option" where
  "parse_scan_value d =
     (if length d < 4 then None
      else let value_offset = 4 + be_u32_at d 0
           in if length d < value_offset + 4 then None
              else let value_len = be_u32_at d value_offset; value_start = value_offset + 4
                   in if value_start + value_len \<le> length d then Some (take value_len (drop value_start d)) else None)"

definition render_response :: "response \<Rightarrow> bytes" where
  "render_response response =
     (let payload = rs_payload response
      in if rs_opcode response = 0x80 then str ''OK'' @ [10]
         else if rs_opcode response = 0x81 \<and> 4 \<le> length payload then
           (let value_len = be_u32_at payload 0
            in if 4 + value_len \<le> length payload then from_utf8_lossy (take value_len (drop 4 payload)) @ [10] else [])
         else if rs_opcode response = 0x90 \<and> 4 \<le> length payload then
           (case parse_scan_key (drop 4 payload) of Some key_data \<Rightarrow> from_utf8_lossy key_data @ str ''  '' | None \<Rightarrow> [])
           @ (case parse_scan_value (drop 4 payload) of Some value_data \<Rightarrow> dec_nat (length value_data) @ str ''B'' | None \<Rightarrow> [])
           @ [10]
         else if rs_opcode response = 0xA1 then str ''error: '' @ from_utf8_lossy payload @ [10]
         else [])"

definition render_query :: "sql_library \<Rightarrow> bytes list \<Rightarrow> 'st data_bus \<Rightarrow> ('st, bytes) op" where
  "render_query lib parts bus =
     (let sql = join (str '' '') parts
      in if sql = [] then op_ret (str ''usage: query <SQL statement>'' @ [10])
         else if 4096 < length sql then op_ret (str ''error: SQL exceeds 4096 byte limit'' @ [10])
         else op_bind (parse_query lib bus sql 0) (\<lambda>responses.
           let out = concat (map render_response responses)
           in op_ret (if out = [] then str ''(no results)'' @ [10] else out)))"

section \<open>Commands\<close>

definition render_help :: bytes where
  "render_help =
     str ''commands:'' @ [10]
     @ str ''  status                                server status'' @ [10]
     @ str ''  keys [-p prefix]                      list keys'' @ [10]
     @ str ''  inspect <key>                         key metadata'' @ [10]
     @ str ''  query <SQL>                           SQL query'' @ [10]
     @ str ''  import -f <path> -F mysql|postgres|sqlite [-a]'' @ [10]
     @ str ''  import -D <old.tric> <new.tric>       diff-import'' @ [10]
     @ str ''  export -f <path.tric> [-d] [-F mysql|postgres|sqlite]'' @ [10]
     @ str ''  dump -f <path>                        binary store dump'' @ [10]
     @ str ''  restore -f <path>                     binary store restore'' @ [10]
     @ str ''  reload                                reload authorized_keys'' @ [10]
     @ str ''  shutdown                              stop server'' @ [10]
     @ str ''  help                                  this message'' @ [10]"

definition render_shutdown :: "('st, bytes) op" where
  "render_shutdown = op_exit 0"

definition text_only :: "('st, bytes) op \<Rightarrow> ('st, admin_output) op" where
  "text_only m = op_bind m (\<lambda>text. op_ret (answer text))"

text \<open>The libraries and the environment of a command.\<close>

record admin =
  ad_sql :: sql_library
  ad_dialects :: "dialect \<Rightarrow> sql_library"
  ad_unicode :: unicode
  ad_files :: admin_files
  ad_config :: cli_config

definition dispatch_command :: "admin \<Rightarrow> 'st data_bus \<Rightarrow> metrics \<Rightarrow> bytes \<Rightarrow> ('st, admin_output) op" where
  "dispatch_command ad bus m command =
     (let words = split_whitespace command;
          verb = (case words of verb # _ \<Rightarrow> verb | [] \<Rightarrow> []);
          parts = drop 1 words
      in if verb = str ''status'' then op_ret (answer (render_status m))
         else if verb = str ''keys'' then text_only (render_keys parts bus)
         else if verb = str ''inspect'' then text_only (render_inspect parts bus)
         else if verb = str ''import'' then
           text_only (render_import (ad_dialects ad) (ad_unicode ad) (ad_files ad) parts bus)
         else if verb = str ''query'' then text_only (render_query (ad_sql ad) parts bus)
         else if verb = str ''export'' then render_export (ad_unicode ad) (ad_files ad) parts bus
         else if verb = str ''dump'' then render_dump (ad_files ad) parts bus
         else if verb = str ''restore'' then text_only (render_restore (ad_files ad) parts bus)
         else if verb = str ''reload'' then op_ret (answer (render_reload (ad_config ad)))
         else if verb = str ''shutdown'' then text_only render_shutdown
         else if verb = str ''help'' then op_ret (answer render_help)
         else op_ret (answer (str ''error: unknown command '' @ [39] @ verb @ [39] @ [10])))"

text \<open>
  One pass of the loop of \<open>run\<close>: a command is cut at 4096 bytes by the buffer, and what is sent is
  the text of the answer.
\<close>

definition module_cli_key :: bytes where
  "module_cli_key = str ''module:cli''"

definition cli_pass :: "admin \<Rightarrow> 'st data_bus \<Rightarrow> (bytes \<times> 'p) option \<Rightarrow> (('st, 'p) server, unit) op" where
  "cli_pass ad bus received =
     op_bind (on_core (tric_write_ttl module_cli_key (from_secs 15))) (\<lambda>_.
     case received of
       None \<Rightarrow> op_ret ()
     | Some (raw, peer) \<Rightarrow>
         op_bind (op_get sv_metrics) (\<lambda>m.
         op_bind (on_storage (dispatch_command ad bus m (str_trim (from_utf8_lossy (take 4096 raw))))) (\<lambda>out.
         send_to peer (ao_text out))))"

text \<open>The whole module: whether the socket can be bound, and then the passes.\<close>

definition run_cli :: "admin \<Rightarrow> 'st data_bus \<Rightarrow> bool \<Rightarrow> (bytes \<times> 'p) option list \<Rightarrow> (('st, 'p) server, unit) op" where
  "run_cli ad bus bound datagrams =
     (if \<not> bound then op_exit 1
      else op_bind (on_core (tric_write_value module_cli_key (str ''running''))) (\<lambda>_.
           op_each (cli_pass ad bus) datagrams))"

end
