(* ===== verification/Cli_Correct.thy ===== *)
theory Cli_Correct
  imports Cli
begin

text \<open>
  What the admin commands of \<open>src/modules/cli.rs\<close> do to the storage: the format of a dump and what a
  restore makes of any file, the round trip through a dump, and the commands that change nothing.
\<close>

section \<open>The format of a dump\<close>

fun entry_bytes :: "bytes \<times> bytes \<times> u64 \<Rightarrow> bytes" where
  "entry_bytes (key, v, ttl_ms) = dump_entry key v ttl_ms"

fun entry_sized :: "bytes \<times> bytes \<times> u64 \<Rightarrow> bool" where
  "entry_sized (key, v, ttl_ms) \<longleftrightarrow> length key < 2 ^ 32 \<and> length v < 2 ^ 32"

fun restore_entry :: "'st data_bus \<Rightarrow> bytes \<times> bytes \<times> u64 \<Rightarrow> ('st, unit) op" where
  "restore_entry bus (key, v, ttl_ms) =
     op_bind (bus_write_value bus key v) (\<lambda>_.
     if 0 < ttl_ms then bus_write_ttl bus key (from_millis ttl_ms) else op_ret ())"

lemma be_u32_at_field: "length pre = n \<Longrightarrow> be_u32_at (pre @ u32_to_be_bytes w @ rest) n = unat w"
  by (simp add: be_u32_at_def)

lemma be_u64_at_field: "length pre = n \<Longrightarrow> be_u64_at (pre @ u64_to_be_bytes w @ rest) n = w"
  by (simp add: be_u64_at_def)

lemma restore_loop_entry:
  assumes "entry_sized e"
  shows "restore_loop bus (pre @ entry_bytes e @ rest) (length pre) n =
    op_bind (restore_entry bus e) (\<lambda>_. restore_loop bus (pre @ entry_bytes e @ rest) (length (pre @ entry_bytes e)) (n + 1))"
proof -
  obtain key v ttl_ms where e: "e = (key, v, ttl_ms)" by (cases e)
  let ?k = "u32_to_be_bytes (len_u32 key)" and ?v = "u32_to_be_bytes (len_u32 v)" and ?d = "pre @ entry_bytes e @ rest"
  have len: "unat (len_u32 key) = length key" "unat (len_u32 v) = length v" using assms by (simp_all add: e unat_len_u32)
  have d: "?d = pre @ ?k @ key @ ?v @ v @ u64_to_be_bytes ttl_ms @ rest" by (simp add: e dump_entry_def)
  have at: "be_u32_at ?d (length pre) = length key" "be_u32_at ?d (length pre + 4 + length key) = length v"
      "be_u64_at ?d (length pre + 4 + length key + 4 + length v) = ttl_ms"
    unfolding d
    using be_u32_at_field[of pre "length pre" "len_u32 key" "key @ ?v @ v @ u64_to_be_bytes ttl_ms @ rest"]
      be_u32_at_field[of "pre @ ?k @ key" "length pre + 4 + length key" "len_u32 v" "v @ u64_to_be_bytes ttl_ms @ rest"]
      be_u64_at_field[of "pre @ ?k @ key @ ?v @ v" "length pre + 4 + length key + 4 + length v" ttl_ms rest]
    by (simp_all add: len)
  have key: "take (length key) (drop (length pre + 4) ?d) = key"
    and v: "take (length v) (drop (length pre + 4 + length key + 4) ?d) = v"
    unfolding d by simp_all
  have bounds: "length pre + 4 \<le> length ?d" "\<not> length ?d < length pre + 4 + length key + 4"
      "\<not> length ?d < length pre + 4 + length key + 4 + length v + 8"
    unfolding d by simp_all
  have size: "length (pre @ entry_bytes e) = length pre + 4 + length key + 4 + length v + 8" by (simp add: e dump_entry_def)
  note facts = bounds at key v size
  show ?thesis
    by (subst restore_loop.simps)
      (simp only: facts[unfolded e] if_True if_False Let_def e restore_entry.simps op_bind_assoc)
qed

lemma restore_loop_cut:
  assumes "entry_sized e" and "strict_prefix chunk (entry_bytes e)"
  shows "restore_loop bus (pre @ chunk) (length pre) n = op_ret n"
proof -
  obtain key v ttl_ms where e: "e = (key, v, ttl_ms)" by (cases e)
  obtain more where more: "entry_bytes e = chunk @ more" using assms(2) by (auto simp: strict_prefix_def prefix_def)
  have short: "length chunk < 4 + length key + 4 + length v + 8"
    using prefix_length_less[OF assms(2)] by (simp add: e dump_entry_def)
  have len: "unat (len_u32 key) = length key" "unat (len_u32 v) = length v" using assms(1) by (simp_all add: e unat_len_u32)
  have key: "be_u32_at (pre @ chunk) (length pre) = length key" if "4 \<le> length chunk"
  proof -
    have "take 4 chunk = take 4 (entry_bytes e)" using that by (simp add: more)
    then show ?thesis by (simp add: be_u32_at_def e dump_entry_def len)
  qed
  have v: "be_u32_at (pre @ chunk) (length pre + 4 + length key) = length v" if "4 + length key + 4 \<le> length chunk"
  proof -
    have "take 4 (drop (4 + length key) chunk) = take 4 (drop (4 + length key) (entry_bytes e))" using that by (simp add: more)
    then show ?thesis by (simp add: be_u32_at_def e dump_entry_def len add.assoc)
  qed
  show ?thesis
    using short key v by (subst restore_loop.simps) (auto simp: Let_def)
qed

lemma restore_loop_entries:
  assumes "entry_sized e" and "strict_prefix chunk (entry_bytes e)" and "\<forall>e \<in> set es. entry_sized e"
  shows "restore_loop bus (pre @ concat (map entry_bytes es) @ chunk) (length pre) n =
    op_bind (op_each (restore_entry bus) es) (\<lambda>_. op_ret (n + length es))"
  using assms(3)
proof (induction es arbitrary: pre n)
  case Nil
  show ?case using restore_loop_cut[OF assms(1,2)] by simp
next
  case (Cons x es)
  have "entry_sized x" "\<forall>e \<in> set es. entry_sized e" using Cons.prems by simp_all
  from restore_loop_entry[OF this(1), of bus pre "concat (map entry_bytes es) @ chunk" n]
    Cons.IH[OF this(2), of "pre @ entry_bytes x" "n + 1"]
  show ?case by (simp add: op_bind_assoc)
qed

section \<open>Dump and restore over a bus\<close>

context kv_bus begin

lemma dump_loop_spec:
  "good s \<Longrightarrow> returns (dump_loop bus pairs out count n) s (\<lambda>(out', count', n') s'. good s' \<and>
    (\<exists>es. map (\<lambda>(k, v, ms). (k, v)) es = pairs \<and> out' = out @ concat (map entry_bytes es) \<and> count' = count + length es \<and>
      n' = n + length (concat (map entry_bytes es))))"
proof (induction pairs arbitrary: s out count n)
  case Nil
  then show ?case by (simp add: wp)
next
  case (Cons pair pairs)
  obtain key v where pair: "pair = (key, v)" by (cases pair)
  show ?case
    unfolding pair dump_loop.simps returns_bind
  proof (rule returns_mono[OF remaining_law[OF Cons.prems]], elim conjE)
    fix r s'
    assume "bus_step good now view s s' (\<lambda>t m. m)"
    then have "good s'" by (simp add: bus_step_def)
    show "returns (dump_loop bus pairs (out @ dump_entry key v (ttl_millis r)) (count + 1)
        (n + (4 + length key + 4 + length v + 8))) s' (\<lambda>(out', count', n') s'. good s' \<and>
      (\<exists>es. map (\<lambda>(k, v, ms). (k, v)) es = (key, v) # pairs \<and> out' = out @ concat (map entry_bytes es) \<and>
        count' = count + length es \<and> n' = n + length (concat (map entry_bytes es))))"
    proof (rule returns_mono[OF Cons.IH[OF \<open>good s'\<close>]], clarify, goal_cases)
      case (1 out' count' n' s'' es)
      then show ?case
        by (intro exI[of _ "(key, v, ttl_millis r) # es"]) (auto simp: dump_entry_def)
    qed
  qed
qed

end

context ttl_bus begin

lemma restore_entries_load:
  "good s \<Longrightarrow> \<forall>(k, v, ms) \<in> set es. storable k \<and> D k = Some v \<and> (ms \<noteq> 0 \<longrightarrow> k \<in> L) \<Longrightarrow>
    \<forall>t. now s \<le> t \<longrightarrow> loaded D K L (m0 t) (view s t) \<Longrightarrow>
    returns (op_each (restore_entry bus) es) s (\<lambda>_ s'. good s' \<and> now s \<le> now s' \<and>
      (\<forall>t. now s' \<le> t \<longrightarrow> loaded D (K \<union> fst ` set es) L (m0 t) (view s' t)))"
proof (induction es arbitrary: s K)
  case Nil
  then show ?case by (simp add: wp)
next
  case (Cons e es)
  obtain k v ms where e: "e = (k, v, ms)" by (cases e)
  have k: "storable k" "D k = Some v" "ms \<noteq> 0 \<Longrightarrow> k \<in> L" using Cons.prems(2) by (simp_all add: e)
  have es: "\<forall>(k, v, ms) \<in> set es. storable k \<and> D k = Some v \<and> (ms \<noteq> 0 \<longrightarrow> k \<in> L)" using Cons.prems(2) by simp
  have one: "returns (restore_entry bus e) s (\<lambda>_ s'. good s' \<and> now s \<le> now s' \<and>
      (\<forall>t. now s' \<le> t \<longrightarrow> loaded D (insert k K) L (m0 t) (view s' t)))"
    unfolding e restore_entry.simps returns_bind
  proof (rule returns_mono[OF write_value_loads[OF Cons.prems(1) k(1,2) Cons.prems(3)]], elim conjE)
    fix u s'
    assume s': "good s'" "now s \<le> now s'" "\<forall>t. now s' \<le> t \<longrightarrow> loaded D (insert k K) L (m0 t) (view s' t)"
    show "returns (if 0 < ms then bus_write_ttl bus k (from_millis ms) else op_ret ()) s' (\<lambda>_ s''. good s'' \<and> now s \<le> now s'' \<and>
        (\<forall>t. now s'' \<le> t \<longrightarrow> loaded D (insert k K) L (m0 t) (view s'' t)))"
    proof (cases "0 < ms")
      case True
      with k have "k \<in> L" "D k \<noteq> None" by auto
      from write_ttl_loads[OF s'(1) this s'(3), of ms] s'(2) True show ?thesis by (auto elim!: returns_mono)
    qed (use s' in \<open>simp add: wp\<close>)
  qed
  show ?case
    unfolding op_each.simps returns_bind
  proof (rule returns_mono[OF one], elim conjE, goal_cases)
    case (1 u s')
    show ?case by (rule returns_mono[OF Cons.IH[OF 1(1) es 1(3)]]) (use 1 in \<open>auto simp: e\<close>)
  qed
qed

end

section \<open>Commands that only read\<close>

text \<open>An operation is silent if, where it returns, no later read can tell that it ran.\<close>

definition silent ::
  "('st \<Rightarrow> bool) \<Rightarrow> ('st \<Rightarrow> instant) \<Rightarrow> ('st \<Rightarrow> instant \<Rightarrow> bytes \<Rightarrow> bytes option) \<Rightarrow> ('st, 'a) op \<Rightarrow> bool" where
  "silent good now view m \<longleftrightarrow> (\<forall>s. good s \<longrightarrow>
     (case m s of (Ret _, s') \<Rightarrow> bus_step good now view s s' (\<lambda>t m. m) | _ \<Rightarrow> True))"

lemma silent_ret [intro!]: "silent good now view (op_ret x)"
  by (simp add: silent_def op_simps bus_step_def)

lemma silent_unwrap [intro!]: "silent good now view (op_unwrap r)"
  by (cases r) (simp_all add: silent_def op_simps bus_step_def)

lemma silent_bind [intro!]:
  assumes m: "silent good now view m" and f: "\<And>x. silent good now view (f x)"
  shows "silent good now view (op_bind m f)"
  unfolding silent_def
proof (intro allI impI)
  fix s assume "good s"
  obtain r s' where ms: "m s = (r, s')" by (cases "m s")
  show "case op_bind m f s of (Ret _, s') \<Rightarrow> bus_step good now view s s' (\<lambda>t m. m) | _ \<Rightarrow> True"
  proof (cases r)
    case (Ret x)
    have step: "bus_step good now view s s' (\<lambda>t m. m)" using m \<open>good s\<close> ms Ret by (auto simp: silent_def)
    then have "good s'" by (simp add: bus_step_def)
    obtain q s'' where fs: "f x s' = (q, s'')" by (cases "f x s'")
    have "case q of Ret _ \<Rightarrow> bus_step good now view s' s'' (\<lambda>t m. m) | _ \<Rightarrow> True"
      using f[of x] \<open>good s'\<close> fs unfolding silent_def by (auto split: outcome.splits)
    with bus_step_trans[OF step] show ?thesis by (auto simp: op_bind_def ms Ret fs split: outcome.splits)
  qed (simp_all add: op_bind_def ms)
qed

lemma returns_silent:
  assumes "silent good now view m" and "good s" and "returns m s Q"
  shows "returns m s (\<lambda>x s'. Q x s' \<and> bus_step good now view s s' (\<lambda>t m. m))"
  using assms by (auto simp: silent_def returns_def split: prod.splits outcome.splits)

context kv_bus begin

lemma silent_of_law:
  assumes "\<And>s. good s \<Longrightarrow> returns m s (\<lambda>r s'. Q s r s' \<and> bus_step good now view s s' (\<lambda>t m. m))"
  shows "silent good now view m"
  using assms by (fastforce simp: silent_def returns_def split: prod.splits outcome.splits)

lemma silent_bus [intro!]:
  "silent good now view (bus_read_value bus k)"
  "silent good now view (bus_find_by_prefix bus pre)"
  "silent good now view (bus_read_ttl_remaining bus k)"
  by (rule silent_of_law[OF read_law], assumption) (rule silent_of_law[OF find_law], assumption,
    rule silent_of_law[OF remaining_law], assumption)

lemma silent_dump_loop [intro!]: "silent good now view (dump_loop bus pairs out count n)"
  by (induction pairs arbitrary: out count n) auto

lemma silent_write_tar_pair [intro!]: "silent good now view (write_tar_pair fw bus key v archive)"
  unfolding write_tar_pair_def Let_def by (auto split: option.split sum.split)

lemma silent_write_tar_pairs [intro!]: "silent good now view (write_tar_pairs fw bus pairs archive result)"
  by (induction pairs arbitrary: archive result) (auto split: sum.split)

lemma silent_write_tric_archive [intro!]: "silent good now view (write_tric_archive fw bus path debug)"
  unfolding write_tric_archive_def write_tar_contents_def by (auto split: option.split sum.split)

lemma silent_write_inserts [intro!]: "silent good now view (write_inserts fw uc dialect table columns rows out result)"
  by (induction rows arbitrary: out result) (auto split: sum.split)

lemma silent_write_tables [intro!]: "silent good now view (write_tables fw uc bus dialect schemas out result)"
proof (induction schemas arbitrary: out result)
  case (Cons entry schemas)
  then show ?case by (cases entry) (auto simp: Let_def split: sum.split)
qed auto

lemma silent_write_sql_file [intro!]: "silent good now view (write_sql_file fw uc bus path dialect)"
  unfolding write_sql_file_def by (auto split: option.split)

lemma write_tar_pair_returns: "good s \<Longrightarrow> returns (write_tar_pair fw bus key v archive) s (\<lambda>_ s'. good s')"
  unfolding write_tar_pair_def Let_def
  by (auto simp: wp bus_step_def split: option.split sum.split intro!: returns_mono[OF remaining_law])

lemma write_tar_pairs_returns: "good s \<Longrightarrow> returns (write_tar_pairs fw bus pairs archive result) s (\<lambda>_ s'. good s')"
proof (induction pairs arbitrary: s archive result)
  case Nil
  then show ?case by (simp add: wp)
next
  case (Cons pair pairs)
  then show ?case
    by (cases pair) (auto simp: wp split: sum.split intro!: returns_mono[OF write_tar_pair_returns])
qed

lemma write_tric_archive_returns: "good s \<Longrightarrow> returns (write_tric_archive fw bus path debug) s (\<lambda>_ s'. good s')"
  unfolding write_tric_archive_def write_tar_contents_def
  by (auto simp: wp bus_step_def split: option.split sum.split intro!: returns_mono[OF find_law] returns_mono[OF write_tar_pairs_returns])

end

section \<open>Properties\<close>

text \<open>The commands that neither write to the storage nor end the server.\<close>

definition reading_verb :: "bytes \<Rightarrow> bool" where
  "reading_verb verb \<longleftrightarrow> verb \<notin> {str ''import'', str ''query'', str ''restore'', str ''shutdown''}"

definition command_verb :: "bytes \<Rightarrow> bytes" where
  "command_verb command = (case split_whitespace command of verb # _ \<Rightarrow> verb | [] \<Rightarrow> [])"

lemma dispatch_reading:
  assumes "reading_verb (command_verb command)"
  shows "dispatch_command ad bus m command =
    (let verb = command_verb command; parts = drop 1 (split_whitespace command)
     in if verb = str ''status'' then op_ret (answer (render_status m))
        else if verb = str ''keys'' then text_only (render_keys parts bus)
        else if verb = str ''inspect'' then text_only (render_inspect parts bus)
        else if verb = str ''export'' then render_export (ad_unicode ad) (ad_files ad) parts bus
        else if verb = str ''dump'' then render_dump (ad_files ad) parts bus
        else if verb = str ''reload'' then op_ret (answer (render_reload (ad_config ad)))
        else if verb = str ''help'' then op_ret (answer render_help)
        else op_ret (answer (str ''error: unknown command '' @ [39] @ verb @ [39] @ [10])))"
  using assms unfolding dispatch_command_def Let_def command_verb_def[symmetric] reading_verb_def by (simp del: str_simps)

lemma silent_if: "(b \<Longrightarrow> silent good now view m) \<Longrightarrow> (\<not> b \<Longrightarrow> silent good now view n) \<Longrightarrow> silent good now view (if b then m else n)"
  by simp

lemma returns_branch: "(b \<Longrightarrow> returns m s Q) \<Longrightarrow> (\<not> b \<Longrightarrow> returns n s Q) \<Longrightarrow> returns (if b then m else n) s Q"
  by simp

lemma key_line_nonempty [simp]: "key_line pair \<noteq> []"
  by (cases pair) (simp add: key_line_def)

context kv_bus begin

lemma silent_commands [intro!]:
  "silent good now view (render_keys parts bus)"
  "silent good now view (render_inspect parts bus)"
  "silent good now view (render_dump files parts bus)"
  "silent good now view (render_export uc files parts bus)"
  unfolding render_keys_def render_inspect_def render_dump_def render_export_def Let_def
  by (auto split: option.split sum.split prod.split)

lemma read_command_silent:
  assumes "reading_verb (command_verb command)"
  shows "silent good now view (dispatch_command ad bus m command)"
  unfolding dispatch_reading[OF assms] text_only_def Let_def by (intro silent_if silent_bind silent_ret silent_commands)

lemma read_command_answers:
  assumes "good s" and "reading_verb (command_verb command)"
  shows "returns (dispatch_command ad bus m command) s (\<lambda>out s'. ao_text out \<noteq> [])"
proof -
  have keys: "returns (render_keys parts bus) s (\<lambda>text s'. text \<noteq> [])" for parts
    unfolding render_keys_def Let_def returns_bind
    by (rule returns_mono[OF find_law[OF assms(1)]]) (simp add: wp, metis list.set_intros(1) neq_Nil_conv surj_pair)
  have inspect: "returns (render_inspect parts bus) s (\<lambda>text s'. text \<noteq> [])" for parts
    unfolding render_inspect_def Let_def
    by (auto simp: wp bus_step_def split: option.split intro!: returns_mono[OF read_law[OF assms(1)]] returns_mono[OF remaining_law])
  have dump: "returns (render_dump files parts bus) s (\<lambda>out s'. ao_text out \<noteq> [])" for files parts
    unfolding render_dump_def
    by (auto simp: wp bus_step_def answer_def split: option.split prod.split
        intro!: returns_mono[OF find_law[OF assms(1)]] returns_mono[OF dump_loop_spec])
  have export: "returns (render_export uc files parts bus) s (\<lambda>out s'. ao_text out \<noteq> [])" for uc files parts
    unfolding render_export_def
    by (auto simp: wp answer_def split: option.split prod.split sum.split
        intro!: returns_mono[OF write_sql_file_returns[OF assms(1)]] returns_mono[OF write_tric_archive_returns[OF assms(1)]])
  show ?thesis
    unfolding dispatch_reading[OF assms(2)] text_only_def Let_def
    by (intro returns_branch dump export)
      (auto simp: wp answer_def render_status_def render_reload_def render_help_def simp del: str_simps
        intro: returns_mono[OF keys] returns_mono[OF inspect] split: option.split)
qed

end

text \<open>C40: Every admin command that is not an import, a query, a restore or the shutdown is answered with a
  text, and no later read of any key can tell that it ran: listing, inspecting, dumping and
  exporting leave the content of the storage as it is, though they read through the cache.\<close>

theorem reading_commands_change_nothing:
  assumes "permutive_inv eng P" and "reading_verb (command_verb command)"
  shows "returns (dispatch_command ad (permutive_bus eng) m command) P (\<lambda>out P'. ao_text out \<noteq> [] \<and>
    permutive_inv eng P' \<and> (\<forall>t. permutive_now P' \<le> t \<longrightarrow> permutive_view eng P' t = permutive_view eng P t))"
  by (rule returns_mono[OF returns_silent[OF pb.read_command_silent[OF assms(2)] assms(1) pb.read_command_answers[OF assms]]])
    (simp add: bus_step_def)

definition no_files :: admin_files where
  "no_files = \<lparr>af_metadata = (\<lambda>_. Inr 0), af_read_to_string = (\<lambda>_. Inr []), af_create = (\<lambda>_. None), af_open = (\<lambda>_. None),
     af_read_to_end = (\<lambda>_. Some []),
     af_writer = \<lparr>fw_create = (\<lambda>_. None), fw_append = (\<lambda>p _. Inr p), fw_finish = (\<lambda>_. None), fw_write = (\<lambda>_. None)\<rparr>,
     af_reader = \<lparr>ar_open = Inr, ar_brotli_tar = (\<lambda>_. None), ar_tar = (\<lambda>_. None)\<rparr>\<rparr>"

definition sample_admin :: admin where
  "sample_admin = \<lparr>ad_sql = plain_sql, ad_dialects = (\<lambda>_. plain_sql),
     ad_unicode = \<lparr>uc_alphanumeric = (\<lambda>_. False), uc_upper = (\<lambda>c. c)\<rparr>, ad_files = no_files, ad_config = \<lparr>cc_auth_keys_path = None\<rparr>\<rparr>"

lemma reading_commands_change_nothing_witness:
  "returns (dispatch_command sample_admin (permutive_bus mem_sqlite) create_metrics (str ''keys'')) sample_permutive
    (\<lambda>out P'. ao_text out \<noteq> [] \<and> permutive_inv mem_sqlite P' \<and> (\<forall>t. permutive_now P' \<le> t \<longrightarrow>
      permutive_view mem_sqlite P' t = permutive_view mem_sqlite sample_permutive t))"
proof (rule reading_commands_change_nothing[OF sample_permutive_inv])
  have "split_whitespace (str ''keys'') = [str ''keys'']"
    by (simp add: split_whitespace_def split_words.simps whitespace_length.simps)
  then show "reading_verb (command_verb (str ''keys''))" by (simp add: command_verb_def reading_verb_def)
qed

text \<open>C39: A restore from a file whose last entry is cut short, at whatever byte, restores exactly the
  entries that are whole, in order, and stops; a whole file is the case in which nothing is left over.\<close>

theorem restore_reads_whole_entries:
  assumes "\<forall>e \<in> set es. entry_sized e" and "entry_sized e" and "strict_prefix part (entry_bytes e)"
  shows "restore_loop bus (concat (map entry_bytes es) @ part) 0 0 =
    op_bind (op_each (restore_entry bus) es) (\<lambda>_. op_ret (length es))"
  using restore_loop_entries[OF assms(2,3,1), of bus "[]" 0] by simp

lemma restore_reads_whole_entries_witness:
  "restore_loop (permutive_bus mem_sqlite) (concat (map entry_bytes [(str ''a:k'', [7], 0)]) @ [0, 0, 0]) 0 0 =
    op_bind (op_each (restore_entry (permutive_bus mem_sqlite)) [(str ''a:k'', [7], 0)]) (\<lambda>_. op_ret (length [(str ''a:k'', [7::byte], 0::u64)]))"
proof (rule restore_reads_whole_entries[where e = "([], [], 0)"])
  have "be_bytes (Suc (Suc (Suc (Suc 0)))) 0 = [0, 0, 0, 0]" by simp
  then have "u32_to_be_bytes 0 = [0, 0, 0, 0]" by (simp only: u32_to_be_bytes_def unat_0 numeral_nat)
  then have "entry_bytes ([], [], 0) = [0, 0, 0] @ 0 # (u32_to_be_bytes 0 @ u64_to_be_bytes 0)"
    by (simp add: dump_entry_def len_u32_def)
  then show "strict_prefix [0, 0, 0] (entry_bytes ([], [], 0))" by (metis prefixI append_self_conv list.distinct(1) strict_prefix_def)
qed simp_all

text \<open>C38: A dump holds the whole store: restored into another store, every key has its value there and no
  other key changes, whatever bytes keys and values consist of; a key that reported a lifetime may
  have expired again.\<close>

theorem dump_restore_roundtrip:
  assumes P: "permutive_inv eng P" and Q: "permutive_inv eng' Q" and create: "af_create files path = None"
    and sizes: "\<forall>k v. permutive_view eng P (permutive_now P) k = Some v \<longrightarrow>
      storable_key k \<and> length k < 2 ^ 32 \<and> length v < 2 ^ 32"
  shows "returns (render_dump files [str ''-f'', path] (permutive_bus eng)) P (\<lambda>out P'. \<exists>es.
    ao_file out = Some (path, Dump_File (concat (map entry_bytes es))) \<and>
    (\<forall>files'. af_open files' path = None \<longrightarrow> af_read_to_end files' path = Some (concat (map entry_bytes es)) \<longrightarrow>
      returns (render_restore files' [str ''-f'', path] (permutive_bus eng')) Q (\<lambda>text Q'.
        text = dec_nat (length es) @ str '' entries restored from '' @ path @ [10] \<and> permutive_inv eng' Q' \<and>
        (\<forall>t k. permutive_now Q' \<le> t \<longrightarrow> (case permutive_view eng P (permutive_now P) k of
            None \<Rightarrow> permutive_view eng' Q' t k = permutive_view eng' Q t k
          | Some v \<Rightarrow> permutive_view eng' Q' t k = Some v \<or>
              (\<exists>ms. ms \<noteq> 0 \<and> (k, v, ms) \<in> set es) \<and> permutive_view eng' Q' t k = None)))))"
proof -
  let ?m = "permutive_view eng P (permutive_now P)"
  have argument: "file_argument [str ''-f'', path] = Some path" by (simp add: file_argument_def word_at_def)
  have restore: "returns (render_restore files' [str ''-f'', path] (permutive_bus eng')) Q (\<lambda>text Q'.
        text = dec_nat (length es) @ str '' entries restored from '' @ path @ [10] \<and> permutive_inv eng' Q' \<and>
        (\<forall>t k. permutive_now Q' \<le> t \<longrightarrow> (case ?m k of
            None \<Rightarrow> permutive_view eng' Q' t k = permutive_view eng' Q t k
          | Some v \<Rightarrow> permutive_view eng' Q' t k = Some v \<or>
              (\<exists>ms. ms \<noteq> 0 \<and> (k, v, ms) \<in> set es) \<and> permutive_view eng' Q' t k = None)))"
    if pairs: "is_scan ?m [] (map (\<lambda>(k, v, ms). (k, v)) es)"
      and files': "af_open files' path = None" "af_read_to_end files' path = Some (concat (map entry_bytes es))" for es files'
  proof -
    have held: "?m k = Some v \<longleftrightarrow> (\<exists>ms. (k, v, ms) \<in> set es)" for k v
      using pairs by (force simp: is_scan_def)
    then have sized: "\<forall>e \<in> set es. entry_sized e" using sizes by fastforce
    have "length (entry_bytes ([], [], 0)) = 16" by (simp add: dump_entry_def)
    then have "strict_prefix [] (entry_bytes ([], [], 0))" by (auto simp: strict_prefix_def)
    from restore_loop_entries[OF _ this sized, of "permutive_bus eng'" "[]" 0]
    have loop: "restore_loop (permutive_bus eng') (concat (map entry_bytes es)) 0 0 =
        op_bind (op_each (restore_entry (permutive_bus eng')) es) (\<lambda>_. op_ret (length es))" by simp
    let ?L = "{k. \<exists>v ms. ms \<noteq> 0 \<and> (k, v, ms) \<in> set es}"
    have entries: "\<forall>(k, v, ms) \<in> set es. storable_key k \<and> ?m k = Some v \<and> (ms \<noteq> 0 \<longrightarrow> k \<in> ?L)"
      using held sizes by blast
    have loaded: "\<forall>t. permutive_now Q \<le> t \<longrightarrow> loaded ?m {} ?L (permutive_view eng' Q t) (permutive_view eng' Q t)"
      by (simp add: loaded_def)
    show ?thesis
      unfolding render_restore_def argument option.case files' loop op_bind_assoc op_bind_ret returns_bind returns_ret
    proof (rule returns_mono[OF pb.restore_entries_load[OF Q entries loaded]], elim conjE, intro conjI allI impI, goal_cases)
      case (3 u Q' t k)
      then have l: "loaded ?m (fst ` set es) ?L (permutive_view eng' Q t) (permutive_view eng' Q' t)" by simp
      show ?case
      proof (cases "?m k")
        case (Some v)
        then have "k \<in> fst ` set es" using held by force
        from loadedD[OF l this Some]
        have "permutive_view eng' Q' t k = Some v \<or> k \<in> ?L \<and> permutive_view eng' Q' t k = None" .
        moreover have "\<exists>ms. ms \<noteq> 0 \<and> (k, v, ms) \<in> set es" if k: "k \<in> ?L"
        proof -
          obtain w ms where w: "ms \<noteq> 0" "(k, w, ms) \<in> set es" using k by blast
          then have "?m k = Some w" using held by blast
          with w Some show ?thesis by auto
        qed
        ultimately show ?thesis unfolding Some option.case by argo
      qed (use l in \<open>simp add: loaded_def\<close>)
    qed simp_all
  qed
  show ?thesis
    unfolding render_dump_def argument option.case create returns_bind
  proof (rule returns_mono[OF pb.find_law[OF P]], elim conjE, rule returns_mono[OF pb.dump_loop_spec], goal_cases)
    case 1 then show ?case by (simp add: bus_step_def)
  next
    case (2 pairs P' r P'')
    then show ?case using restore by (force simp: wp split: prod.splits)
  qed
qed

lemma dump_restore_roundtrip_witness:
  "returns (render_dump no_files [str ''-f'', str ''d''] (permutive_bus mem_sqlite)) sample_permutive (\<lambda>out P'. \<exists>es.
    ao_file out = Some (str ''d'', Dump_File (concat (map entry_bytes es))) \<and>
    (\<forall>files'. af_open files' (str ''d'') = None \<longrightarrow> af_read_to_end files' (str ''d'') = Some (concat (map entry_bytes es)) \<longrightarrow>
      returns (render_restore files' [str ''-f'', str ''d''] (permutive_bus mem_sqlite)) fresh_permutive (\<lambda>text Q'.
        text = dec_nat (length es) @ str '' entries restored from '' @ str ''d'' @ [10] \<and> permutive_inv mem_sqlite Q' \<and>
        (\<forall>t k. permutive_now Q' \<le> t \<longrightarrow> (case permutive_view mem_sqlite sample_permutive (permutive_now sample_permutive) k of
            None \<Rightarrow> permutive_view mem_sqlite Q' t k = permutive_view mem_sqlite fresh_permutive t k
          | Some v \<Rightarrow> permutive_view mem_sqlite Q' t k = Some v \<or>
              (\<exists>ms. ms \<noteq> 0 \<and> (k, v, ms) \<in> set es) \<and> permutive_view mem_sqlite Q' t k = None)))))"
proof (rule dump_restore_roundtrip[OF sample_permutive_inv fresh_permutive_inv])
  have "storable_key (str ''a:k'')" by (auto intro!: ascii_storable)
  then show "\<forall>k v. permutive_view mem_sqlite sample_permutive (permutive_now sample_permutive) k = Some v \<longrightarrow>
      storable_key k \<and> length k < 2 ^ 32 \<and> length v < 2 ^ 32"
    unfolding sample_permutive_view by auto
qed (simp add: no_files_def)

end
