(* ===== verification/Core.thy ===== *)
theory Core
  imports Tric_Api
begin

text \<open>
  \<open>src/core/mod.rs\<close>: the supervisor of the modules. Each module runs in a thread of its own, which
  announces itself on the core bus and renews a lease of fifteen seconds; the supervisor wakes
  every five seconds, and a module whose key is gone is joined and started again. The threads and
  the supervisor interleave at the calls of the core bus, so the system is a step relation. The
  clock is part of the core bus: its readings do not decrease and are otherwise free, and so is the
  time between the steps. What a module does besides its calls to the core bus
  (\<open>src/modules/server.rs\<close>, \<open>cli.rs\<close>, \<open>placeholder.rs\<close>) is no step of this system.
\<close>

section \<open>State\<close>

definition module_key :: "bytes \<Rightarrow> bytes" where
  "module_key name = str ''module:'' @ name"

definition heartbeat_ttl :: duration where
  "heartbeat_ttl = from_secs 15"

text \<open>The calls of a thread to the core bus, in order; \<open>Ended\<close> by a return or a panic.\<close>

datatype phase = Spawned | Announced | Leased | Built | Entered | Running | Ended

record registered_module =
  rm_name :: bytes
  rm_handle :: "nat option"

text \<open>
  The supervisor sleeps, is at a module of its list, or waits in \<open>join\<close> for the thread of a module;
  the keys are those that the scan at the beginning of the pass found.
\<close>

datatype supervisor = Sleeping | Checking "bytes list" nat | Joining "bytes list" nat nat

record core =
  co_bus :: tric
  co_modules :: "registered_module list"
  co_threads :: "(bytes \<times> phase) list"
  co_supervisor :: supervisor

definition create_core :: "(nat \<Rightarrow> instant) \<Rightarrow> core" where
  "create_core clock = \<lparr>co_bus = create_tric clock, co_modules = [], co_threads = [], co_supervisor = Sleeping\<rparr>"

section \<open>Operations\<close>

definition create_module_thread :: "bytes \<Rightarrow> core \<Rightarrow> nat \<times> core" where
  "create_module_thread name s = (length (co_threads s), s\<lparr>co_threads := co_threads s @ [(name, Spawned)]\<rparr>)"

definition register_module :: "bytes \<Rightarrow> core \<Rightarrow> core" where
  "register_module name s =
     (case create_module_thread name s of (handle, s) \<Rightarrow>
        s\<lparr>co_modules := co_modules s @ [\<lparr>rm_name = name, rm_handle = Some handle\<rparr>]\<rparr>)"

text \<open>
  What a thread may do next: the body of \<open>create_module_thread\<close> up to the call of \<open>run\<close>, then the
  announcement with which the server and the admin module begin, then heartbeats. Building or
  running a module may end the thread.
\<close>

fun thread_calls :: "bytes \<Rightarrow> phase \<Rightarrow> (phase \<times> (tric, unit) op) list" where
  "thread_calls name Spawned = [(Announced, tric_write_value (module_key name) (str ''starting''))]"
| "thread_calls name Announced = [(Leased, tric_write_ttl (module_key name) heartbeat_ttl)]"
| "thread_calls name Leased = [(Built, tric_write_value (module_key name) (str ''running'')), (Ended, op_ret ())]"
| "thread_calls name Built = [(Entered, tric_write_ttl (module_key name) heartbeat_ttl)]"
| "thread_calls name Entered =
     [(Running, tric_write_value (module_key name) (str ''running'')), (Running, op_ret ()), (Ended, op_ret ())]"
| "thread_calls name Running = [(Running, tric_write_ttl (module_key name) heartbeat_ttl), (Ended, op_ret ())]"
| "thread_calls name Ended = []"

text \<open>The respawn of module \<open>i\<close>, after its thread was joined.\<close>

definition respawn_module :: "nat \<Rightarrow> core \<Rightarrow> core" where
  "respawn_module i s =
     (case create_module_thread (rm_name (co_modules s ! i)) s of (handle, s) \<Rightarrow>
        s\<lparr>co_modules := (co_modules s)[i := (co_modules s ! i)\<lparr>rm_handle := Some handle\<rparr>]\<rparr>)"

inductive core_step :: "core \<Rightarrow> core \<Rightarrow> bool" where
  thread_call: "t < length (co_threads s) \<Longrightarrow> co_threads s ! t = (name, ph) \<Longrightarrow>
    (ph', call) \<in> set (thread_calls name ph) \<Longrightarrow> call (co_bus s) = (Ret (), bus) \<Longrightarrow>
    core_step s (s\<lparr>co_bus := bus, co_threads := (co_threads s)[t := (name, ph')]\<rparr>)"
| thread_panic: "t < length (co_threads s) \<Longrightarrow> co_threads s ! t = (name, ph) \<Longrightarrow>
    (ph', call) \<in> set (thread_calls name ph) \<Longrightarrow> call (co_bus s) = (Panicked, bus) \<Longrightarrow>
    core_step s (s\<lparr>co_bus := bus, co_threads := (co_threads s)[t := (name, Ended)]\<rparr>)"
| wake: "co_supervisor s = Sleeping \<Longrightarrow> tric_find_by_prefix (str ''module:'') (co_bus s) = (Ret alive, bus) \<Longrightarrow>
    core_step s (s\<lparr>co_bus := bus, co_supervisor := Checking (map fst alive) 0\<rparr>)"
| alive: "co_supervisor s = Checking keys i \<Longrightarrow> i < length (co_modules s) \<Longrightarrow>
    module_key (rm_name (co_modules s ! i)) \<in> set keys \<Longrightarrow>
    core_step s (s\<lparr>co_supervisor := Checking keys (Suc i)\<rparr>)"
| take_handle: "co_supervisor s = Checking keys i \<Longrightarrow> i < length (co_modules s) \<Longrightarrow>
    module_key (rm_name (co_modules s ! i)) \<notin> set keys \<Longrightarrow> rm_handle (co_modules s ! i) = Some t \<Longrightarrow>
    core_step s (s\<lparr>co_modules := (co_modules s)[i := (co_modules s ! i)\<lparr>rm_handle := None\<rparr>],
      co_supervisor := Joining keys i t\<rparr>)"
| no_handle: "co_supervisor s = Checking keys i \<Longrightarrow> i < length (co_modules s) \<Longrightarrow>
    module_key (rm_name (co_modules s ! i)) \<notin> set keys \<Longrightarrow> rm_handle (co_modules s ! i) = None \<Longrightarrow>
    core_step s (respawn_module i s\<lparr>co_supervisor := Checking keys (Suc i)\<rparr>)"
| joined: "co_supervisor s = Joining keys i t \<Longrightarrow> t < length (co_threads s) \<Longrightarrow> snd (co_threads s ! t) = Ended \<Longrightarrow>
    core_step s (respawn_module i s\<lparr>co_supervisor := Checking keys (Suc i)\<rparr>)"
| pass_over: "co_supervisor s = Checking keys i \<Longrightarrow> i = length (co_modules s) \<Longrightarrow>
    core_step s (s\<lparr>co_supervisor := Sleeping\<rparr>)"

inductive_cases core_step_cases: "core_step s s'"

text \<open>The states that the supervision of the given modules can reach.\<close>

inductive core_reachable :: "(nat \<Rightarrow> instant) \<Rightarrow> bytes list \<Rightarrow> core \<Rightarrow> bool" for clock names where
  start: "core_reachable clock names (fold register_module names (create_core clock))"
| step: "core_reachable clock names s \<Longrightarrow> core_step s s' \<Longrightarrow> core_reachable clock names s'"

section \<open>The invariant\<close>

definition live :: "core \<Rightarrow> nat \<Rightarrow> bool" where
  "live s t \<longleftrightarrow> t < length (co_threads s) \<and> snd (co_threads s ! t) \<noteq> Ended"

text \<open>The thread of a module: the one in its handle, or the one that is being joined.\<close>

definition owner :: "core \<Rightarrow> nat \<Rightarrow> nat option" where
  "owner s i = (case co_supervisor s of
     Joining keys j t \<Rightarrow> if i = j then Some t else rm_handle (co_modules s ! i)
   | _ \<Rightarrow> rm_handle (co_modules s ! i))"

definition core_inv :: "bytes list \<Rightarrow> core \<Rightarrow> bool" where
  "core_inv names s \<longleftrightarrow> map rm_name (co_modules s) = names
   \<and> (\<forall>i < length names. \<exists>t < length (co_threads s). owner s i = Some t \<and> fst (co_threads s ! t) = names ! i)
   \<and> (\<forall>t. live s t \<longrightarrow> (\<exists>i < length names. owner s i = Some t))
   \<and> (case co_supervisor s of
        Sleeping \<Rightarrow> True
      | Checking keys i \<Rightarrow> i \<le> length names
      | Joining keys i t \<Rightarrow> i < length names \<and> rm_handle (co_modules s ! i) = None)"

lemma fold_register:
  "fold register_module names (create_core clock) = \<lparr>co_bus = create_tric clock,
    co_modules = map (\<lambda>i. \<lparr>rm_name = names ! i, rm_handle = Some i\<rparr>) [0..<length names],
    co_threads = map (\<lambda>name. (name, Spawned)) names, co_supervisor = Sleeping\<rparr>"
proof (induction names rule: rev_induct)
  case Nil
  show ?case by (simp add: create_core_def)
next
  case (snoc name names)
  then show ?case by (simp add: register_module_def create_module_thread_def nth_append)
qed

lemma core_inv_start: "core_inv names (fold register_module names (create_core clock))"
  unfolding fold_register
  by (auto simp: core_inv_def owner_def live_def intro!: nth_equalityI)

lemma core_invD:
  assumes "core_inv names s"
  shows "map rm_name (co_modules s) = names" and "length (co_modules s) = length names"
    and "i < length names \<Longrightarrow> \<exists>t < length (co_threads s). owner s i = Some t \<and> fst (co_threads s ! t) = names ! i"
    and "live s t \<Longrightarrow> \<exists>i < length names. owner s i = Some t"
  using assms by (auto simp: core_inv_def)

definition supervisor_ok :: "bytes list \<Rightarrow> core \<Rightarrow> bool" where
  "supervisor_ok names s \<longleftrightarrow> (case co_supervisor s of
     Sleeping \<Rightarrow> True
   | Checking keys i \<Rightarrow> i \<le> length names
   | Joining keys i t \<Rightarrow> i < length names \<and> rm_handle (co_modules s ! i) = None)"

text \<open>A step that keeps the owners and the names of the threads, and revives none.\<close>

lemma core_inv_same:
  assumes inv: "core_inv names s" and names: "map rm_name (co_modules s') = names"
    and owner: "\<And>i. i < length names \<Longrightarrow> owner s' i = owner s i"
    and threads: "map fst (co_threads s') = map fst (co_threads s)" and live: "\<And>t. live s' t \<Longrightarrow> live s t"
    and sup: "supervisor_ok names s'"
  shows "core_inv names s'"
proof -
  have len: "length (co_threads s') = length (co_threads s)" using threads by (metis length_map)
  have name: "fst (co_threads s' ! t) = fst (co_threads s ! t)" if "t < length (co_threads s)" for t
    using threads len that by (metis nth_map)
  have "\<exists>t < length (co_threads s'). owner s' i = Some t \<and> fst (co_threads s' ! t) = names ! i" if i: "i < length names" for i
    using core_invD(3)[OF inv i] unfolding len owner[OF i] by (metis name)
  moreover have "\<exists>i < length names. owner s' i = Some t" if "live s' t" for t
    using core_invD(4)[OF inv live[OF that]] by (metis owner)
  ultimately show ?thesis
    unfolding core_inv_def using names sup[unfolded supervisor_ok_def] by simp
qed

lemma core_inv_respawn:
  assumes inv: "core_inv names s" and i: "i < length names"
    and sup: "co_supervisor s = Joining keys i t \<or> co_supervisor s = Checking keys i"
    and dead: "\<And>u. owner s i = Some u \<Longrightarrow> \<not> live s u"
  shows "core_inv names (respawn_module i s\<lparr>co_supervisor := Checking keys (Suc i)\<rparr>)" (is "core_inv names ?s")
proof -
  let ?n = "length (co_threads s)"
  note len = core_invD(2)[OF inv]
  have owner: "owner ?s j = (if j = i then Some ?n else owner s j)" if "j < length names" for j
    using sup that len by (auto simp: owner_def respawn_module_def create_module_thread_def)
  have threads: "co_threads ?s = co_threads s @ [(rm_name (co_modules s ! i), Spawned)]"
    by (simp add: respawn_module_def create_module_thread_def)
  have names: "map rm_name (co_modules ?s) = names"
    using core_invD(1)[OF inv] i len
    by (auto simp: respawn_module_def create_module_thread_def map_update list_eq_iff_nth_eq nth_list_update)
  have name: "rm_name (co_modules s ! i) = names ! i"
    using core_invD(1)[OF inv] i len by (metis nth_map)
  have "\<exists>u < length (co_threads ?s). owner ?s j = Some u \<and> fst (co_threads ?s ! u) = names ! j" if "j < length names" for j
    using core_invD(3)[OF inv that] that by (auto simp: owner threads nth_append name)
  moreover have "\<exists>j < length names. owner ?s j = Some u" if "live ?s u" for u
  proof (cases "u = ?n")
    case True
    then show ?thesis using i owner[OF i] by auto
  next
    case False
    with that have "live s u" by (auto simp: live_def threads nth_append split: if_splits)
    from core_invD(4)[OF inv this] dead this show ?thesis by (metis owner)
  qed
  ultimately show ?thesis using names i by (simp add: core_inv_def Suc_le_eq)
qed

text \<open>A thread that moves keeps its name, and an ended thread does not move.\<close>

lemma core_inv_move:
  assumes "core_inv names s" and "t < length (co_threads s)" and "co_threads s ! t = (name, ph)" and "ph \<noteq> Ended"
  shows "core_inv names (s\<lparr>co_bus := bus, co_threads := (co_threads s)[t := (name, ph')]\<rparr>)"
  (is "core_inv names ?s")
proof (rule core_inv_same[OF assms(1)])
  have "map fst ((co_threads s)[t := (name, ph')]) = (map fst (co_threads s))[t := name]" by (simp add: map_update)
  also have "\<dots> = map fst (co_threads s)"
    using assms(2,3) by (metis fst_conv list_update_id nth_map)
  finally show "map fst (co_threads ?s) = map fst (co_threads s)" by simp
  show "live s u" if "live ?s u" for u
    using that assms(3,4) by (cases "u = t") (simp_all add: live_def)
  show "supervisor_ok names ?s" "map rm_name (co_modules ?s) = names"
    using assms(1) by (simp_all add: core_inv_def supervisor_ok_def split: supervisor.splits)
qed (simp add: owner_def split: supervisor.split)

lemma core_step_inv: "core_step s s' \<Longrightarrow> core_inv names s \<Longrightarrow> core_inv names s'"
proof (induction rule: core_step.induct)
  case (thread_call t s name ph ph' call bus)
  then have "ph \<noteq> Ended" by (cases ph) auto
  with thread_call show ?case by (intro core_inv_move)
next
  case (thread_panic t s name ph ph' call bus)
  then have "ph \<noteq> Ended" by (cases ph) auto
  with thread_panic show ?case by (intro core_inv_move)
next
  case (wake s alive bus)
  then show ?case by (simp add: core_inv_def owner_def live_def)
next
  case (alive s keys i)
  then have "length (co_modules s) = length names" by (simp add: core_invD)
  with alive show ?case by (simp add: core_inv_def owner_def live_def)
next
  case (take_handle s keys i t)
  let ?s = "s\<lparr>co_modules := (co_modules s)[i := (co_modules s ! i)\<lparr>rm_handle := None\<rparr>], co_supervisor := Joining keys i t\<rparr>"
  have len: "length (co_modules s) = length names" using take_handle.prems by (rule core_invD)
  have "owner ?s j = owner s j" if "j < length names" for j
    using take_handle that len by (simp add: owner_def)
  moreover have "map rm_name (co_modules ?s) = names"
    using core_invD(1)[OF take_handle.prems] take_handle.hyps
    by (auto simp: map_update list_eq_iff_nth_eq nth_list_update)
  moreover have "supervisor_ok names ?s" using take_handle.hyps len by (simp add: supervisor_ok_def)
  ultimately show ?case
    by (intro core_inv_same[OF take_handle.prems]) (simp_all add: live_def)
next
  case (no_handle s keys i)
  then have "length (co_modules s) = length names" by (simp add: core_invD)
  with no_handle show ?case by (intro core_inv_respawn) (auto simp: owner_def)
next
  case (joined s keys i t)
  then have "i < length names" by (simp add: core_inv_def)
  with joined show ?case by (intro core_inv_respawn) (auto simp: owner_def live_def)
next
  case (pass_over s keys i)
  then show ?case by (simp add: core_inv_def owner_def live_def)
qed

lemma core_reachable_inv: "core_reachable clock names s \<Longrightarrow> core_inv names s"
  by (induction rule: core_reachable.induct) (auto intro: core_inv_start core_step_inv)

text \<open>The core bus stays consistent.\<close>

lemma heartbeat_wire: "wire_duration heartbeat_ttl"
  by (simp add: heartbeat_ttl_def wire_duration_def from_secs_def)

lemma thread_calls_good:
  assumes "(ph', call) \<in> set (thread_calls name ph)" and "tric_inv b"
  shows "returns call b (\<lambda>_ b'. tric_inv b')"
  using assms
  by (cases ph) (auto simp: wp bus_step_def heartbeat_wire intro!: returns_mono[OF tric_write_value_spec[OF assms(2)]]
      returns_mono[OF tric_write_ttl_law[OF assms(2)]])

lemma core_step_bus: "core_step s s' \<Longrightarrow> tric_inv (co_bus s) \<Longrightarrow> tric_inv (co_bus s')"
proof (induction rule: core_step.induct)
  case (thread_call t s name ph ph' call bus)
  then show ?case using thread_calls_good[OF thread_call.hyps(3), of "co_bus s"] by (simp add: returns_def)
next
  case (thread_panic t s name ph ph' call bus)
  then show ?case using thread_calls_good[OF thread_panic.hyps(3), of "co_bus s"] by (simp add: returns_def)
next
  case (wake s alive bus)
  then show ?case using tric_find_by_prefix_spec[OF wake.prems, of "str ''module:''"] by (simp add: returns_def bus_step_def)
qed (simp_all add: respawn_module_def create_module_thread_def)

lemma core_reachable_bus: "core_reachable clock names s \<Longrightarrow> clock_ok clock \<Longrightarrow> tric_inv (co_bus s)"
  by (induction rule: core_reachable.induct) (auto simp: fold_register create_tric_inv intro: core_step_bus)

section \<open>Waiting and respawning\<close>

lemma core_step_join:
  assumes "core_step s s'" and "t < length (co_threads s)"
  shows "t < length (co_threads s') \<and> (live s' t \<longrightarrow> live s t) \<and>
    (live s t \<longrightarrow> co_supervisor s = Joining keys i t \<longrightarrow>
      co_supervisor s' = Joining keys i t \<and> length (co_threads s') = length (co_threads s))"
  using assms
proof (induction rule: core_step.induct)
  case (thread_call u s name ph ph' call bus)
  then have "ph \<noteq> Ended" by (cases ph) auto
  with thread_call show ?case by (cases "u = t") (simp_all add: live_def)
next
  case (thread_panic u s name ph ph' call bus)
  then show ?case by (cases "u = t") (simp_all add: live_def)
qed (auto simp: live_def respawn_module_def create_module_thread_def nth_append)

lemma join_blocks:
  assumes "core_step\<^sup>*\<^sup>* s s'" and "co_supervisor s = Joining keys i t" and "live s t"
  shows "t < length (co_threads s') \<and> (live s' t \<longrightarrow>
    co_supervisor s' = Joining keys i t \<and> length (co_threads s') = length (co_threads s))"
  using assms
proof (induction rule: rtranclp_induct)
  case base
  then show ?case by (simp add: live_def)
next
  case (step s' s'')
  then show ?case using core_step_join[OF step.hyps(2), of t keys i] by auto
qed

lemma scan_keys:
  assumes "tric_inv b" and "tric_find_by_prefix (str ''module:'') b = (Ret alive, b')"
  shows "module_key name \<in> fst ` set alive \<longleftrightarrow> tric_view b (tric_now b) (module_key name) \<noteq> None"
proof -
  have "is_scan (tric_view b (tric_now b)) (str ''module:'') alive"
    using tric_find_by_prefix_spec[OF assms(1), of "str ''module:''"] assms(2) by (simp add: returns_def)
  then have "(module_key name, v) \<in> set alive \<longleftrightarrow> tric_view b (tric_now b) (module_key name) = Some v" for v
    by (simp add: is_scan_def module_key_def)
  moreover have "module_key name \<in> fst ` set alive \<longleftrightarrow> (\<exists>v. (module_key name, v) \<in> set alive)" by force
  ultimately show ?thesis by simp
qed

lemma supervisor_wakes:
  assumes "tric_inv (co_bus s)" and "co_supervisor s = Sleeping"
  obtains keys bus where "core_step s (s\<lparr>co_bus := bus, co_supervisor := Checking keys 0\<rparr>)"
    and "\<And>name. module_key name \<in> set keys \<longleftrightarrow> tric_view (co_bus s) (tric_now (co_bus s)) (module_key name) \<noteq> None"
proof -
  have "returns (tric_find_by_prefix (str ''module:'')) (co_bus s) (\<lambda>_ _. True)"
    by (rule returns_mono[OF tric_find_by_prefix_spec[OF assms(1)]]) simp
  then obtain alive bus where found: "tric_find_by_prefix (str ''module:'') (co_bus s) = (Ret alive, bus)"
    by (auto simp: returns_def split: prod.splits outcome.splits)
  show thesis
    by (rule that[OF core_step.wake[OF assms(2) found]]) (simp add: scan_keys[OF assms(1) found])
qed

text \<open>Where a pass has come: the modules before \<open>i\<close> are done, the others are as at its beginning.\<close>

definition respawned :: "bytes list \<Rightarrow> core \<Rightarrow> core \<Rightarrow> nat \<Rightarrow> bool" where
  "respawned names s u j \<longleftrightarrow> (\<exists>t. rm_handle (co_modules u ! j) = Some t \<and> length (co_threads s) \<le> t \<and>
     t < length (co_threads u) \<and> co_threads u ! t = (names ! j, Spawned))"

definition pass_at :: "bytes list \<Rightarrow> bytes list \<Rightarrow> core \<Rightarrow> nat \<Rightarrow> core \<Rightarrow> bool" where
  "pass_at names keys s i u \<longleftrightarrow> core_inv names u \<and> co_supervisor u = Checking keys i \<and> prefix (co_threads s) (co_threads u) \<and>
     (\<forall>j < length names.
        if j < i \<and> module_key (names ! j) \<notin> set keys then respawned names s u j
        else rm_handle (co_modules u ! j) = rm_handle (co_modules s ! j))"

lemma pass_atI:
  assumes "core_inv names u" and "co_supervisor u = Checking keys i" and "prefix (co_threads s) (co_threads u)"
    and "\<And>j. j < length names \<Longrightarrow> if j < i \<and> module_key (names ! j) \<notin> set keys then respawned names s u j
      else rm_handle (co_modules u ! j) = rm_handle (co_modules s ! j)"
  shows "pass_at names keys s i u"
  unfolding pass_at_def using assms by blast

lemma respawned_grows:
  assumes "respawned names s u j" and "rm_handle (co_modules u' ! j) = rm_handle (co_modules u ! j)"
    and "prefix (co_threads u) (co_threads u')"
  shows "respawned names s u' j"
  using assms by (auto simp: respawned_def prefix_def nth_append)

lemma pass_step:
  assumes at: "pass_at names keys s i u" and i: "i < length names"
    and dead: "\<And>t. module_key (names ! i) \<notin> set keys \<Longrightarrow> rm_handle (co_modules s ! i) = Some t \<Longrightarrow> \<not> live s t \<and> t < length (co_threads s)"
  shows "\<exists>u'. core_step\<^sup>*\<^sup>* u u' \<and> pass_at names keys s (Suc i) u'"
proof -
  have inv: "core_inv names u" and sup: "co_supervisor u = Checking keys i" and pre: "prefix (co_threads s) (co_threads u)"
    and mods: "\<And>j. j < length names \<Longrightarrow> if j < i \<and> module_key (names ! j) \<notin> set keys then respawned names s u j
        else rm_handle (co_modules u ! j) = rm_handle (co_modules s ! j)"
    using at by (auto simp: pass_at_def)
  have len: "length (co_modules u) = length names" by (rule core_invD(2)[OF inv])
  have name: "rm_name (co_modules u ! i) = names ! i" using core_invD(1)[OF inv] i len by (metis nth_map)
  show ?thesis
  proof (cases "module_key (names ! i) \<in> set keys")
    case True
    let ?u = "u\<lparr>co_supervisor := Checking keys (Suc i)\<rparr>"
    have step: "core_step u ?u" by (rule core_step.alive[OF sup]) (simp_all add: len i name True)
    moreover have "pass_at names keys s (Suc i) ?u"
    proof (rule pass_atI)
      show "if j < Suc i \<and> module_key (names ! j) \<notin> set keys then respawned names s ?u j
          else rm_handle (co_modules ?u ! j) = rm_handle (co_modules s ! j)" if j: "j < length names" for j
        using mods[OF j] True by (cases "j = i") (auto simp: respawned_def less_Suc_eq split: if_splits)
    qed (use core_step_inv[OF step inv] pre in simp_all)
    ultimately show ?thesis by blast
  next
    case False
    obtain t where t: "rm_handle (co_modules u ! i) = Some t" "rm_handle (co_modules s ! i) = Some t"
      using core_invD(3)[OF inv i] mods[OF i] sup by (auto simp: owner_def)
    note gone = dead[OF False t(2)]
    let ?v = "u\<lparr>co_modules := (co_modules u)[i := (co_modules u ! i)\<lparr>rm_handle := None\<rparr>], co_supervisor := Joining keys i t\<rparr>"
    let ?u = "respawn_module i ?v\<lparr>co_supervisor := Checking keys (Suc i)\<rparr>"
    have one: "core_step u ?v" by (rule core_step.take_handle[OF sup]) (simp_all add: len i name False t)
    have "t < length (co_threads u)" "snd (co_threads u ! t) = Ended"
      using gone pre by (auto simp: live_def prefix_def nth_append)
    then have two: "core_step ?v ?u" by (intro core_step.joined[where t = t]) simp_all
    have threads: "co_threads ?u = co_threads u @ [(names ! i, Spawned)]"
      by (simp add: respawn_module_def create_module_thread_def len i name)
    have handle: "rm_handle (co_modules ?u ! j) = (if j = i then Some (length (co_threads u)) else rm_handle (co_modules u ! j))"
      if "j < length names" for j
      using that len i by (simp add: respawn_module_def create_module_thread_def)
    have grow: "prefix (co_threads u) (co_threads ?u)" by (simp add: threads)
    have done_j: "if j < Suc i \<and> module_key (names ! j) \<notin> set keys then respawned names s ?u j
        else rm_handle (co_modules ?u ! j) = rm_handle (co_modules s ! j)" if j: "j < length names" for j
    proof (cases "j = i")
      case True
      then show ?thesis
        using handle[OF j] threads prefix_length_le[OF pre] False by (simp add: respawned_def)
    next
      case False
      then have "rm_handle (co_modules ?u ! j) = rm_handle (co_modules u ! j)" using handle[OF j] by simp
      with mods[OF j] respawned_grows[OF _ this grow] False show ?thesis by (auto simp: less_Suc_eq split: if_splits)
    qed
    have "pass_at names keys s (Suc i) ?u"
      by (rule pass_atI[OF core_step_inv[OF two core_step_inv[OF one inv]] _ prefix_order.trans[OF pre grow] done_j]) simp
    with one two show ?thesis by (meson converse_rtranclp_into_rtranclp r_into_rtranclp)
  qed
qed

text \<open>A pass comes to module \<open>i\<close> if the modules before it have a lease or have ended.\<close>

lemma pass_reaches:
  assumes inv: "core_inv names s" and wake: "core_step s (s\<lparr>co_bus := bus, co_supervisor := Checking keys 0\<rparr>)"
    and gone: "\<forall>j < i. \<forall>t. module_key (names ! j) \<notin> set keys \<longrightarrow> rm_handle (co_modules s ! j) = Some t \<longrightarrow>
      \<not> live s t \<and> t < length (co_threads s)"
    and i: "i \<le> length names"
  shows "\<exists>u. core_step\<^sup>*\<^sup>* s u \<and> pass_at names keys s i u"
  using gone i
proof (induction i)
  case 0
  show ?case using wake core_step_inv[OF wake inv] by (auto simp: pass_at_def)
next
  case (Suc i)
  have "\<exists>u. core_step\<^sup>*\<^sup>* s u \<and> pass_at names keys s i u"
    by (rule Suc.IH) (use Suc.prems in \<open>simp_all add: less_Suc_eq\<close>)
  then obtain u where "core_step\<^sup>*\<^sup>* s u" "pass_at names keys s i u" by blast
  with pass_step[of names keys s i u] Suc.prems show ?case by (meson Suc_le_lessD lessI rtranclp_trans)
qed

text \<open>A pass at a module without a lease takes its handle and waits for its thread.\<close>

lemma join_starts:
  assumes at: "pass_at names keys s j w" and j: "j < length names" "module_key (names ! j) \<notin> set keys"
    and handle: "rm_handle (co_modules w ! j) = Some u" and live: "live w u"
  shows "\<exists>s'. core_step w s' \<and> live s' u \<and> (\<forall>s''. core_step\<^sup>*\<^sup>* s' s'' \<and> live s'' u \<longrightarrow>
    co_supervisor s'' = Joining keys j u \<and> length (co_threads s'') = length (co_threads s'))"
proof -
  have sup: "co_supervisor w = Checking keys j" and inv: "core_inv names w" using at by (auto simp: pass_at_def)
  have mods: "j < length (co_modules w)" "rm_name (co_modules w ! j) = names ! j"
    using core_invD(1)[OF inv] j(1) by (metis length_map, metis length_map nth_map)
  let ?s = "w\<lparr>co_modules := (co_modules w)[j := (co_modules w ! j)\<lparr>rm_handle := None\<rparr>], co_supervisor := Joining keys j u\<rparr>"
  have step: "core_step w ?s" using mods handle j(2) by (intro core_step.take_handle[OF sup]) auto
  have live: "live ?s u" using live by (simp add: live_def)
  have stuck: "\<forall>s''. core_step\<^sup>*\<^sup>* ?s s'' \<and> live s'' u \<longrightarrow>
      co_supervisor s'' = Joining keys j u \<and> length (co_threads s'') = length (co_threads ?s)"
    using join_blocks[of ?s _ keys j u] live by simp
  show ?thesis by (rule exI[of _ ?s], rule conjI[OF step conjI[OF live stuck]])
qed

section \<open>A module that ends before its lease\<close>

text \<open>The clock reads 0 twice and then 20 seconds: the lease of a thread is over after its first calls.\<close>

definition lease_clock :: "nat \<Rightarrow> instant" where
  "lease_clock n = (if n < 2 then 0 else 20000000000)"

lemma lease_clock_ok: "clock_ok lease_clock"
  by (simp add: clock_ok_def lease_clock_def)

definition sample_key :: bytes where
  "sample_key = module_key (str ''server'')"

definition expired_store :: store where
  "expired_store = \<lparr>data = [(sample_key, str ''starting'')], expiry = [(15000000000, [sample_key])],
     ttl = [(sample_key, 15000000000)]\<rparr>"

definition ended_core :: core where
  "ended_core = \<lparr>co_bus = \<lparr>tr_store = expired_store, tr_clock = (\<lambda>n. lease_clock (Suc (Suc n)))\<rparr>,
     co_modules = [\<lparr>rm_name = str ''server'', rm_handle = Some 0\<rparr>], co_threads = [(str ''server'', Ended)],
     co_supervisor = Sleeping\<rparr>"

lemma sample_calls:
  "tric_write_value sample_key (str ''starting'') (create_tric lease_clock) =
     (Ret (), \<lparr>tr_store = \<lparr>data = [(sample_key, str ''starting'')], expiry = [], ttl = []\<rparr>, tr_clock = (\<lambda>n. lease_clock (Suc n))\<rparr>)"
  "tric_write_ttl sample_key heartbeat_ttl
     \<lparr>tr_store = \<lparr>data = [(sample_key, str ''starting'')], expiry = [], ttl = []\<rparr>, tr_clock = (\<lambda>n. lease_clock (Suc n))\<rparr> =
     (Ret (), \<lparr>tr_store = expired_store, tr_clock = (\<lambda>n. lease_clock (Suc (Suc n)))\<rparr>)"
  by (simp_all add: tric_write_value_def tric_write_ttl_def tric_locked_def instant_now_def on_store_def op_on_def op_bind_def
      store_delete_expired_entries.simps bt_first_upto_def store_write_value_def store_write_ttl_def store_delete_ttl_def
      bt_contains_def op_simps create_tric_def create_store_def instant_add_def instant_limit_def heartbeat_ttl_def
      from_secs_def lease_clock_def expired_store_def expiry_push_def)

lemma ended_core_reachable: "core_reachable lease_clock [str ''server''] ended_core"
proof -
  let ?R = "core_reachable lease_clock [str ''server'']"
  let ?c = "\<lambda>bus ph. \<lparr>co_bus = bus, co_modules = [\<lparr>rm_name = str ''server'', rm_handle = Some 0\<rparr>],
      co_threads = [(str ''server'', ph)], co_supervisor = Sleeping\<rparr>"
  let ?b1 = "\<lparr>tr_store = \<lparr>data = [(sample_key, str ''starting'')], expiry = [], ttl = []\<rparr>, tr_clock = (\<lambda>n. lease_clock (Suc n))\<rparr>"
  let ?b2 = "\<lparr>tr_store = expired_store, tr_clock = (\<lambda>n. lease_clock (Suc (Suc n)))\<rparr>"
  have "?R (?c (create_tric lease_clock) Spawned)"
    using core_reachable.start[of lease_clock "[str ''server'']"] unfolding fold_register by simp
  from core_reachable.step[OF this core_step.thread_call[of 0 _ "str ''server''" Spawned Announced _ ?b1]] sample_calls(1)
  have "?R (?c ?b1 Announced)" by (simp add: sample_key_def)
  from core_reachable.step[OF this core_step.thread_call[of 0 _ "str ''server''" Announced Leased _ ?b2]] sample_calls(2)
  have "?R (?c ?b2 Leased)" by (simp add: sample_key_def)
  from core_reachable.step[OF this core_step.thread_call[of 0 _ "str ''server''" Leased Ended "op_ret ()" ?b2]]
  show ?thesis by (simp add: op_simps ended_core_def)
qed

lemma ended_core_expired: "tric_view (co_bus ended_core) (tric_now (co_bus ended_core)) (module_key (str ''server'')) = None"
  by (simp add: ended_core_def tric_view_def tric_now_def lease_clock_def store_view_def expired_store_def sample_key_def)

section \<open>Properties\<close>

text \<open>C33: However threads and supervisor interleave, a module never has two threads that run: the
  supervisor starts a new one only after the old one has ended.\<close>

theorem one_thread_per_module:
  assumes "core_reachable clock names s" and "distinct names" and "live s t" and "live s u"
    and "fst (co_threads s ! t) = fst (co_threads s ! u)"
  shows "t = u"
proof -
  note inv = core_reachable_inv[OF assms(1)]
  obtain i j where i: "i < length names" "owner s i = Some t" and j: "j < length names" "owner s j = Some u"
    using core_invD(4)[OF inv] assms(3,4) by meson
  then have "names ! i = fst (co_threads s ! t)" "names ! j = fst (co_threads s ! u)"
    using core_invD(3)[OF inv] by force+
  then have "i = j" using assms(2,5) i(1) j(1) nth_eq_iff_index_eq by metis
  with i(2) j(2) show ?thesis by simp
qed

lemma one_thread_per_module_witness:
  "let s = fold register_module [str ''server'', str ''cli''] (create_core (\<lambda>n. 7))
   in \<exists>!t. live s t \<and> fst (co_threads s ! t) = str ''cli''"
  unfolding Let_def
proof (rule ex_ex1I, goal_cases)
  case 1
  show ?case unfolding fold_register by (rule exI[of _ 1]) (simp add: live_def)
next
  case (2 t u)
  then show ?case
    by (intro one_thread_per_module[OF core_reachable.start[of "\<lambda>n. 7" "[str ''server'', str ''cli'']"]]) simp_all
qed

text \<open>C34: A module whose thread has ended and whose key has expired is started again by the next pass
  of the supervisor, and the pass ends; modules with a lease keep their threads. This needs that
  the modules without a lease have indeed ended.\<close>

theorem dead_modules_respawned:
  assumes "core_reachable clock names s" and "clock_ok clock" and "co_supervisor s = Sleeping"
    and dead: "\<forall>i < length names. tric_view (co_bus s) (tric_now (co_bus s)) (module_key (names ! i)) = None \<longrightarrow>
      \<not> live s (the (rm_handle (co_modules s ! i)))"
  shows "\<exists>s'. core_step\<^sup>*\<^sup>* s s' \<and> co_supervisor s' = Sleeping \<and> (\<forall>i < length names.
    if tric_view (co_bus s) (tric_now (co_bus s)) (module_key (names ! i)) = None then respawned names s s' i
    else rm_handle (co_modules s' ! i) = rm_handle (co_modules s ! i))"
proof -
  note inv = core_reachable_inv[OF assms(1)]
  obtain keys bus where wake: "core_step s (s\<lparr>co_bus := bus, co_supervisor := Checking keys 0\<rparr>)"
    and alive: "\<And>name. module_key name \<in> set keys \<longleftrightarrow> tric_view (co_bus s) (tric_now (co_bus s)) (module_key name) \<noteq> None"
    by (rule supervisor_wakes[OF core_reachable_bus[OF assms(1,2)] assms(3)]) blast
  have gone: "\<not> live s t \<and> t < length (co_threads s)"
    if "i < length names" "module_key (names ! i) \<notin> set keys" "rm_handle (co_modules s ! i) = Some t" for i t
    using that dead alive core_invD(3)[OF inv that(1)] assms(3) by (auto simp: owner_def)
  have "\<exists>u. core_step\<^sup>*\<^sup>* s u \<and> pass_at names keys s (length names) u"
    by (rule pass_reaches[OF inv wake]) (use gone in auto)
  then obtain u where u: "core_step\<^sup>*\<^sup>* s u" "pass_at names keys s (length names) u" by blast
  let ?s = "u\<lparr>co_supervisor := Sleeping\<rparr>"
  have "core_step u ?s"
    using u(2) by (intro core_step.pass_over[where keys = keys]) (auto simp: pass_at_def core_invD(2))
  with u(1) have "core_step\<^sup>*\<^sup>* s ?s" by simp
  then show ?thesis
    using u(2) alive by (intro exI[of _ ?s]) (auto simp: pass_at_def respawned_def split: if_splits)
qed

lemma dead_modules_respawned_witness:
  "\<exists>s'. core_step\<^sup>*\<^sup>* ended_core s' \<and> co_supervisor s' = Sleeping \<and> respawned [str ''server''] ended_core s' 0"
proof -
  have "\<exists>s'. core_step\<^sup>*\<^sup>* ended_core s' \<and> co_supervisor s' = Sleeping \<and> (\<forall>i < length [str ''server''].
      if tric_view (co_bus ended_core) (tric_now (co_bus ended_core)) (module_key ([str ''server''] ! i)) = None
      then respawned [str ''server''] ended_core s' i
      else rm_handle (co_modules s' ! i) = rm_handle (co_modules ended_core ! i))"
    by (rule dead_modules_respawned[OF ended_core_reachable lease_clock_ok]) (simp_all add: ended_core_def live_def)
  then show ?thesis using ended_core_expired by auto
qed

text \<open>C35: A module that lives but has let its lease expire is not started again but waited for, and the
  supervisor then does nothing else, for no module: if any module is in this state when the
  supervisor wakes, the pass comes to the first one that is and joins its running thread, and until
  that thread ends no step of any thread gets the supervisor further.\<close>

theorem expired_lease_blocks_supervisor:
  assumes "core_reachable clock names s" and "clock_ok clock" and "co_supervisor s = Sleeping" and i: "i < length names"
    and handle: "rm_handle (co_modules s ! i) = Some t" and alive_i: "live s t"
    and expired: "tric_view (co_bus s) (tric_now (co_bus s)) (module_key (names ! i)) = None"
  shows "\<exists>j u keys s'. j \<le> i \<and> rm_handle (co_modules s ! j) = Some u \<and> live s u \<and>
    tric_view (co_bus s) (tric_now (co_bus s)) (module_key (names ! j)) = None \<and>
    (\<forall>h < j. \<forall>v. rm_handle (co_modules s ! h) = Some v \<and> live s v \<longrightarrow>
      tric_view (co_bus s) (tric_now (co_bus s)) (module_key (names ! h)) \<noteq> None) \<and>
    core_step\<^sup>*\<^sup>* s s' \<and> live s' u \<and>
    (\<forall>s''. core_step\<^sup>*\<^sup>* s' s'' \<and> live s'' u \<longrightarrow>
      co_supervisor s'' = Joining keys j u \<and> length (co_threads s'') = length (co_threads s'))"
proof -
  note inv = core_reachable_inv[OF assms(1)]
  let ?blocks = "\<lambda>j. tric_view (co_bus s) (tric_now (co_bus s)) (module_key (names ! j)) = None \<and>
    (\<exists>u. rm_handle (co_modules s ! j) = Some u \<and> live s u)"
  obtain keys bus where wake: "core_step s (s\<lparr>co_bus := bus, co_supervisor := Checking keys 0\<rparr>)"
    and alive: "\<And>name. module_key name \<in> set keys \<longleftrightarrow> tric_view (co_bus s) (tric_now (co_bus s)) (module_key name) \<noteq> None"
    by (rule supervisor_wakes[OF core_reachable_bus[OF assms(1,2)] assms(3)]) blast
  have first: "?blocks i" using expired handle alive_i by blast
  define j where "j = (LEAST j. ?blocks j)"
  have j: "?blocks j" "j \<le> i" unfolding j_def using LeastI[of ?blocks, OF first] Least_le[of ?blocks, OF first] by blast+
  have least: "\<not> ?blocks h" if "h < j" for h using not_less_Least[of h ?blocks] that unfolding j_def by blast
  obtain u where u: "rm_handle (co_modules s ! j) = Some u" "live s u" using j(1) by blast
  have len: "j < length names" using j(2) i by simp
  have gone: "\<not> live s v \<and> v < length (co_threads s)"
    if "h < j" "module_key (names ! h) \<notin> set keys" "rm_handle (co_modules s ! h) = Some v" for h v
    using that least[of h] alive core_invD(3)[OF inv, of h] assms(3) len by (auto simp: owner_def)
  have "\<exists>w. core_step\<^sup>*\<^sup>* s w \<and> pass_at names keys s j w"
    by (rule pass_reaches[OF inv wake]) (use gone len in auto)
  then obtain w where w: "core_step\<^sup>*\<^sup>* s w" "pass_at names keys s j w" by blast
  have "prefix (co_threads s) (co_threads w)" and handle: "rm_handle (co_modules w ! j) = Some u"
    using w(2) len u(1) by (auto simp: pass_at_def)
  with u(2) have live: "live w u" by (auto simp: live_def prefix_def nth_append)
  have "module_key (names ! j) \<notin> set keys" using alive j(1) by simp
  from join_starts[OF w(2) len this handle live] obtain s' where s': "core_step w s'" "live s' u"
    "\<forall>s''. core_step\<^sup>*\<^sup>* s' s'' \<and> live s'' u \<longrightarrow>
      co_supervisor s'' = Joining keys j u \<and> length (co_threads s'') = length (co_threads s')" by blast
  have before: "\<forall>h < j. \<forall>v. rm_handle (co_modules s ! h) = Some v \<and> live s v \<longrightarrow>
      tric_view (co_bus s) (tric_now (co_bus s)) (module_key (names ! h)) \<noteq> None"
  proof (intro allI impI)
    fix h v assume "h < j" "rm_handle (co_modules s ! h) = Some v \<and> live s v"
    then show "tric_view (co_bus s) (tric_now (co_bus s)) (module_key (names ! h)) \<noteq> None" using least[of h] by simp
  qed
  have "core_step\<^sup>*\<^sup>* s s'" using w(1) s'(1) by simp
  with j(2) u conjunct1[OF j(1)] before s'(2,3) show ?thesis
    by (intro exI[of _ j] exI[of _ u] exI[of _ keys] exI[of _ s'] conjI) assumption+
qed

lemma expired_lease_blocks_supervisor_witness:
  "let s = fold register_module [str ''server'', str ''cli''] (create_core (\<lambda>n. 7))
   in \<exists>j u keys s'. j \<le> 1 \<and> rm_handle (co_modules s ! j) = Some u \<and> live s u \<and>
    tric_view (co_bus s) (tric_now (co_bus s)) (module_key ([str ''server'', str ''cli''] ! j)) = None \<and>
    (\<forall>h < j. \<forall>v. rm_handle (co_modules s ! h) = Some v \<and> live s v \<longrightarrow>
      tric_view (co_bus s) (tric_now (co_bus s)) (module_key ([str ''server'', str ''cli''] ! h)) \<noteq> None) \<and>
    core_step\<^sup>*\<^sup>* s s' \<and> live s' u \<and>
    (\<forall>s''. core_step\<^sup>*\<^sup>* s' s'' \<and> live s'' u \<longrightarrow>
      co_supervisor s'' = Joining keys j u \<and> length (co_threads s'') = length (co_threads s'))"
  unfolding Let_def
  by (rule expired_lease_blocks_supervisor[OF core_reachable.start[of "\<lambda>n. 7" "[str ''server'', str ''cli'']"], where t = 1])
    (unfold fold_register, simp_all add: live_def clock_ok_def)

text \<open>Heartbeats do not bring an expired lease back: once the key of a module is gone, no number of
  heartbeats makes it appear again, because a lifetime is only given to a key that is present.\<close>

theorem heartbeat_cannot_revive:
  assumes "tric_inv b" and "tric_view b (tric_now b) (module_key name) = None"
  shows "returns (op_each (\<lambda>_. tric_write_ttl (module_key name) heartbeat_ttl) (replicate n ())) b
    (\<lambda>_ b'. tric_view b' (tric_now b') (module_key name) = None)"
proof -
  let ?k = "module_key name"
  have "returns (op_each (\<lambda>_. tric_write_ttl ?k heartbeat_ttl) (replicate n ())) b
      (\<lambda>_ b'. tric_view b' (tric_now b') ?k = None)" if "tric_inv b" "tric_view b (tric_now b) ?k = None" for b
    using that
  proof (induction n arbitrary: b)
    case 0
    then show ?case by (simp add: wp)
  next
    case (Suc n)
    show ?case
      unfolding replicate_Suc op_each.simps returns_bind
      by (rule returns_mono[OF tric_write_ttl_law[OF Suc.prems(1) heartbeat_wire, of ?k]], rule Suc.IH)
        (use Suc.prems(2) in \<open>auto simp: bus_step_def\<close>)
  qed
  from this[OF assms] show ?thesis .
qed

lemma heartbeat_cannot_revive_witness:
  "returns (op_each (\<lambda>_. tric_write_ttl (module_key (str ''server'')) heartbeat_ttl) (replicate 3 ())) (co_bus ended_core)
    (\<lambda>_ b'. tric_view b' (tric_now b') (module_key (str ''server'')) = None)"
  by (rule heartbeat_cannot_revive[OF core_reachable_bus[OF ended_core_reachable lease_clock_ok] ended_core_expired])

end
