(* ===== verification/Clone.thy ===== *)
theory Clone
  imports Permutive_Bus
begin

text \<open>
  Cloning a slot (\<open>create_clone\<close> of \<open>src/core/sqlite_bus.rs\<close>): the database files of the source slot
  are copied into the directory of a new slot. The databases are in WAL mode: what was written since
  the last checkpoint is in a file of its own, the write-ahead log, which is not copied. The bus that
  is then created on the new slot finds the values of the source as of the last checkpoint.
\<close>

section \<open>Decimal numerals are read back\<close>

lemma parse_digits_append: "parse_digits acc (xs @ ys) = Option.bind (parse_digits acc xs) (\<lambda>a. parse_digits a ys)"
  by (induction xs arbitrary: acc) auto

lemma digit_byte: "d < 10 \<Longrightarrow> unat (of_nat (48 + d) :: byte) = 48 + d"
  by (simp add: unat_of_nat del: of_nat_add)

lemma parse_digit:
  assumes "d < 10"
  shows "parse_digits acc [of_nat (48 + d)] = Some (acc * 10 + d)"
  using assms digit_byte[OF assms] by (simp add: word_le_nat_alt del: of_nat_add)

lemma parse_digits_dec: "\<exists>m. parse_digits acc (dec_nat n) = Some (acc * 10 ^ m + n)"
proof (induction n arbitrary: acc rule: dec_nat.induct)
  case (1 n)
  show ?case
  proof (cases "n < 10")
    case True
    then have "parse_digits acc (dec_nat n) = Some (acc * 10 ^ 1 + n)" by (simp add: dec_nat.simps[of n] parse_digit del: of_nat_add parse_digits.simps)
    then show ?thesis by blast
  next
    case False
    then obtain m where m: "parse_digits acc (dec_nat (n div 10)) = Some (acc * 10 ^ m + n div 10)" using 1 by blast
    then have "parse_digits acc (dec_nat n) = Some ((acc * 10 ^ m + n div 10) * 10 + n mod 10)"
      using False by (simp add: dec_nat.simps[of n] parse_digits_append parse_digit del: of_nat_add parse_digits.simps)
    moreover have "(acc * 10 ^ m + n div 10) * 10 + n mod 10 = acc * 10 ^ Suc m + n"
      using div_mult_mod_eq[of n 10] by (simp add: algebra_simps)
    ultimately show ?thesis by metis
  qed
qed

lemma dec_nat_nonempty: "dec_nat n \<noteq> []"
  by (simp add: dec_nat.simps[of n])

lemma parse_unsigned_dec: "parse_unsigned limit (dec_nat n) = (if n < limit then Some n else None)"
proof -
  obtain b bs where b: "dec_nat n = b # bs" using dec_nat_nonempty by (cases "dec_nat n") auto
  then have "(48::byte) \<le> b" using dec_nat_digits[of b n] by simp
  then have "b \<noteq> 43" by auto
  then show ?thesis using parse_digits_dec[of 0 n] b dec_nat_nonempty[of n] by (auto simp: parse_unsigned_def Let_def)
qed

section \<open>What copying relies on\<close>

text \<open>
  \<open>main p d k\<close> is the value of \<open>k\<close> in the database file \<open>p\<close> alone, without its write-ahead log: its value as
  of the last checkpoint, where \<open>sq_select\<close> gives the last value written. \<open>create_dir_all\<close> of the new
  directory succeeds, leaves the source alone and the new directory empty; \<open>copy\<close> of a database file
  succeeds and gives a database whose rows are those of the file.
\<close>

type_synonym 'd main_rows = "bytes \<Rightarrow> 'd \<Rightarrow> bytes \<Rightarrow> bytes option"

definition clone_dir_laws :: "'d sqlite \<Rightarrow> 'd main_rows \<Rightarrow> bytes \<Rightarrow> bytes \<Rightarrow> 'd \<Rightarrow> bool" where
  "clone_dir_laws eng main source target d \<longleftrightarrow>
     fst (fs_create_dir_all eng target d)
   \<and> (let d1 = snd (fs_create_dir_all eng target d) in
        fs_read_dir eng source d1 \<noteq> None \<and> db_listing eng source d1 = db_listing eng source d \<and> db_listing eng target d1 = {}
      \<and> (\<forall>ns. plain_namespace ns \<longrightarrow> main (db_path source ns) d1 = main (db_path source ns) d))"

definition clone_copy_laws :: "'d sqlite \<Rightarrow> 'd main_rows \<Rightarrow> bytes \<Rightarrow> bytes \<Rightarrow> bool" where
  "clone_copy_laws eng main source target \<longleftrightarrow>
     (\<forall>ns d. plain_namespace ns \<longrightarrow> ns @ str ''.db'' \<in> db_listing eng source d \<longrightarrow>
        (let copied = fs_copy eng (db_path source ns) (db_path target ns) d; d1 = snd copied in
           fst copied \<noteq> None \<and> db_listing eng source d1 = db_listing eng source d
         \<and> db_listing eng target d1 = insert (ns @ str ''.db'') (db_listing eng target d)
         \<and> (\<forall>ns' k. plain_namespace ns' \<longrightarrow>
              main (db_path source ns') d1 = main (db_path source ns') d
            \<and> sq_select eng (db_path target ns') k d1 =
                (if ns' = ns then main (db_path source ns) d k else sq_select eng (db_path target ns') k d))))"

text \<open>The rows in the files of a directory are rows that were written there.\<close>

definition file_rows_ok :: "'d sqlite \<Rightarrow> 'd main_rows \<Rightarrow> bytes \<Rightarrow> 'd \<Rightarrow> bool" where
  "file_rows_ok eng main dir d \<longleftrightarrow> (\<forall>ns k v. plain_namespace ns \<longrightarrow> main (db_path dir ns) d k = Some v \<longrightarrow>
     parse_namespace k = ns \<and> ns @ str ''.db'' \<in> db_listing eng dir d)"

text \<open>What a bus on the files alone finds.\<close>

definition checkpoint_view :: "'d main_rows \<Rightarrow> 'd sqlite_bus \<Rightarrow> bytes \<Rightarrow> bytes option" where
  "checkpoint_view main S k =
     (if storable_key k then main (db_path (sb_directory S) (parse_namespace k)) (sb_disk S) k else None)"

lemma checkpoint_view_settled:
  assumes "sqlite_inv eng S" and "\<forall>ns k. plain_namespace ns \<longrightarrow>
    main (db_path (sb_directory S) ns) (sb_disk S) k = sq_select eng (db_path (sb_directory S) ns) k (sb_disk S)"
  shows "checkpoint_view main S k = sqlite_view eng S t k"
  using assms(2) sqlite_view_storable[OF assms(1)] sqlite_view_unstorable[OF assms(1)]
  by (cases "storable_key k") (simp_all add: checkpoint_view_def storable_key_def)

lemma clone_copyD:
  assumes "clone_copy_laws eng main source target" and "plain_namespace ns" and "ns @ str ''.db'' \<in> db_listing eng source d"
  obtains n d1 where "fs_copy eng (db_path source ns) (db_path target ns) d = (Some n, d1)"
    and "db_listing eng source d1 = db_listing eng source d"
    and "db_listing eng target d1 = insert (ns @ str ''.db'') (db_listing eng target d)"
    and "\<And>ns'. plain_namespace ns' \<Longrightarrow> main (db_path source ns') d1 = main (db_path source ns') d"
    and "\<And>ns' k. plain_namespace ns' \<Longrightarrow> sq_select eng (db_path target ns') k d1 =
      (if ns' = ns then main (db_path source ns) d k else sq_select eng (db_path target ns') k d)"
proof -
  obtain r d1 where r: "fs_copy eng (db_path source ns) (db_path target ns) d = (r, d1)"
    by (cases "fs_copy eng (db_path source ns) (db_path target ns) d")
  with assms have laws: "r \<noteq> None" "db_listing eng source d1 = db_listing eng source d"
    "db_listing eng target d1 = insert (ns @ str ''.db'') (db_listing eng target d)"
    "\<forall>ns' k. plain_namespace ns' \<longrightarrow> main (db_path source ns') d1 = main (db_path source ns') d
      \<and> sq_select eng (db_path target ns') k d1 =
        (if ns' = ns then main (db_path source ns) d k else sq_select eng (db_path target ns') k d)"
    unfolding clone_copy_laws_def Let_def by (metis fst_conv snd_conv)+
  with r show thesis using that by auto
qed

section \<open>The copy\<close>

text \<open>After some of the entries: the files seen are in the new directory, with the rows of those of the source.\<close>

definition cloned_upto :: "'d sqlite \<Rightarrow> 'd main_rows \<Rightarrow> bytes \<Rightarrow> bytes \<Rightarrow> 'd \<Rightarrow> bytes list \<Rightarrow> 'd \<Rightarrow> bool" where
  "cloned_upto eng main source target d0 names d \<longleftrightarrow>
     db_listing eng source d = db_listing eng source d0
   \<and> db_listing eng target d = {n \<in> set names. \<exists>ns. ns \<noteq> [] \<and> plain_namespace ns \<and> n = ns @ str ''.db''}
   \<and> (\<forall>ns k. plain_namespace ns \<longrightarrow>
        main (db_path source ns) d = main (db_path source ns) d0
      \<and> sq_select eng (db_path target ns) k d =
          (if ns \<noteq> [] \<and> ns @ str ''.db'' \<in> set names then main (db_path source ns) d0 k else None))"

lemma clone_entry_step:
  assumes copy: "clone_copy_laws eng main source target" and st: "cloned_upto eng main source target d0 names d"
    and name: "suffix (str ''.db'') name \<Longrightarrow>
      name \<in> db_listing eng source d0 \<and> (\<exists>ns. plain_namespace ns \<and> name = ns @ str ''.db'')"
  shows "cloned_upto eng main source target d0 (name # names) (snd (clone_entry eng source target name (b, d)))"
proof (cases "file_extension name = Some (str ''db'')")
  case False
  have "name \<noteq> ns @ str ''.db''" if "ns \<noteq> []" for ns
    using False plain_extension(1)[OF that] by metis
  with st False show ?thesis
    by (auto simp: cloned_upto_def clone_entry_def simp del: str_simps)
next
  case True
  from name[OF file_extension_db[OF True]] obtain ns where ns: "plain_namespace ns" "name = ns @ str ''.db''"
    and listed: "ns @ str ''.db'' \<in> db_listing eng source d0" by blast
  have "ns \<noteq> []" using True ns(2) by (auto simp: file_extension_def)
  have "ns @ str ''.db'' \<in> db_listing eng source d" using st listed by (simp add: cloned_upto_def del: str_simps)
  from clone_copyD[OF copy ns(1) this] obtain n d1 where n: "fs_copy eng (db_path source ns) (db_path target ns) d = (Some n, d1)"
    and d1: "db_listing eng source d1 = db_listing eng source d"
      "db_listing eng target d1 = insert (ns @ str ''.db'') (db_listing eng target d)"
      "\<And>ns'. plain_namespace ns' \<Longrightarrow> main (db_path source ns') d1 = main (db_path source ns') d"
      "\<And>ns' k. plain_namespace ns' \<Longrightarrow> sq_select eng (db_path target ns') k d1 =
        (if ns' = ns then main (db_path source ns) d k else sq_select eng (db_path target ns') k d)"
    by blast
  have "path_join dir (ns @ str ''.db'') = db_path dir ns" for dir by (simp add: db_path_def)
  then have run: "clone_entry eng source target name (b, d) = (b + n, d1)"
    using True n by (simp add: clone_entry_def ns(2) del: str_simps)
  from st d1 \<open>ns \<noteq> []\<close> ns(1) show ?thesis
    unfolding run snd_conv cloned_upto_def
    by (auto simp: ns(2) simp del: str_simps)
qed

lemma clone_entries:
  assumes copy: "clone_copy_laws eng main source target" and "cloned_upto eng main source target d0 names d"
    and "\<And>name. name \<in> set entries \<Longrightarrow> suffix (str ''.db'') name \<Longrightarrow>
      name \<in> db_listing eng source d0 \<and> (\<exists>ns. plain_namespace ns \<and> name = ns @ str ''.db'')"
  shows "cloned_upto eng main source target d0 (rev entries @ names) (snd (fold (clone_entry eng source target) entries (b, d)))"
  using assms(2,3)
proof (induction entries arbitrary: names b d)
  case (Cons name entries)
  obtain b' d' where run: "clone_entry eng source target name (b, d) = (b', d')" by force
  have "cloned_upto eng main source target d0 (name # names) d'"
    using clone_entry_step[OF copy Cons.prems(1), of name b] Cons.prems(2)[of name] by (simp add: run)
  from Cons.IH[OF this, of b'] Cons.prems(2) show ?case by (simp add: run)
qed simp

section \<open>The clone holds the values of the source\<close>

text \<open>\<open>S\<close> is the source as a bus sees it, \<open>V\<close> the clone as a bus would.\<close>

lemma clone_bus:
  assumes S: "sqlite_inv eng S" and source: "sb_directory S = source" and target: "sqlite_laws eng target"
    and names: "db_listing eng source (sb_disk S) \<subseteq> (\<lambda>ns. ns @ str ''.db'') ` Collect plain_namespace"
    and copied: "cloned_upto eng main source target d0 entries d"
    and entries: "{n \<in> set entries. suffix (str ''.db'') n} = db_listing eng source d0"
    and same: "db_listing eng source d0 = db_listing eng source (sb_disk S)"
      "\<And>ns. plain_namespace ns \<Longrightarrow> main (db_path source ns) d0 = main (db_path source ns) (sb_disk S)"
    and rows: "file_rows_ok eng main source (sb_disk S)"
  obtains V where "sqlite_inv eng V" and "sb_directory V = target" and "sb_disk V = d"
    and "\<forall>t k. sqlite_view eng V t k = (if parse_namespace k = [] then None else checkpoint_view main S k)"
    and "db_listing eng target d \<subseteq> (\<lambda>ns. ns @ str ''.db'') ` Collect plain_namespace"
proof -
  let ?N = "{ns. ns \<noteq> [] \<and> plain_namespace ns \<and> ns @ str ''.db'' \<in> set entries}"
  have "finite ((\<lambda>ns. ns @ str ''.db'') ` ?N)" by (rule finite_subset[of _ "set entries"]) auto
  then have "finite ?N" by (rule finite_imageD) (simp add: inj_on_def)
  then obtain xs where xs: "set xs = ?N" "distinct xs" using finite_distinct_list by blast
  let ?V = "\<lparr>sb_directory = target, sb_databases = map (\<lambda>ns. (ns, db_path target ns)) xs, sb_poisoned = False, sb_disk = d\<rparr>"
  have conn: "map_of (sb_databases ?V) ns = (if ns \<in> ?N then Some (db_path target ns) else None)" for ns
    using xs(1) by (simp add: map_of_map_restrict restrict_map_def)
  have row: "sq_select eng (db_path target ns) k d = (if ns \<in> ?N then main (db_path source ns) (sb_disk S) k else None)"
    if "plain_namespace ns" for ns k
    using copied that same(2)[OF that] by (simp add: cloned_upto_def)
  have listing: "db_listing eng target d = (\<lambda>ns. ns @ str ''.db'') ` ?N"
    using copied by (auto simp: cloned_upto_def simp del: str_simps)
  have inv: "sqlite_inv eng ?V"
    unfolding sqlite_inv_def
  proof (intro conjI allI impI)
    show "distinct (map fst (sb_databases ?V))" using xs(2) by (simp add: comp_def)
    show "plain_namespace ns" "p = db_path (sb_directory ?V) ns"
      "ns @ str ''.db'' \<in> db_listing eng (sb_directory ?V) (sb_disk ?V)"
      if "map_of (sb_databases ?V) ns = Some p" for ns p
      using that unfolding conn by (auto simp: listing split: if_splits simp del: str_simps)
    show "parse_namespace k = ns" and "map_of (sb_databases ?V) ns \<noteq> None"
      if ns: "plain_namespace ns" and "sq_select eng (db_path (sb_directory ?V) ns) k (sb_disk ?V) = Some v" for ns k v
    proof -
      from that(2) have "ns \<in> ?N" "main (db_path source ns) (sb_disk S) k = Some v"
        by (simp_all add: row[OF ns] split: if_splits)
      then show "parse_namespace k = ns" "map_of (sb_databases ?V) ns \<noteq> None"
        unfolding conn using rows ns by (auto simp: file_rows_ok_def simp del: str_simps)
    qed
  qed (use target in simp_all)
  have view: "sqlite_view eng ?V t k = (if parse_namespace k = [] then None else checkpoint_view main S k)" for t k
  proof (cases "storable_key k")
    case True
    then have ns: "plain_namespace (parse_namespace k)" by (simp add: storable_key_def)
    have "main (db_path source (parse_namespace k)) (sb_disk S) k = None"
      if absent: "parse_namespace k @ str ''.db'' \<notin> set entries"
    proof (rule ccontr)
      assume "main (db_path source (parse_namespace k)) (sb_disk S) k \<noteq> None"
      then have "parse_namespace k @ str ''.db'' \<in> db_listing eng source (sb_disk S)"
        using rows ns unfolding file_rows_ok_def by blast
      with absent entries same(1) show False by (auto simp del: str_simps)
    qed
    then show ?thesis
      using ns row[OF ns, of k] True
      by (simp add: sqlite_view_storable[OF inv True] checkpoint_view_def source del: str_simps)
  next
    case False
    then show ?thesis using sqlite_view_unstorable[OF inv False] by (simp add: checkpoint_view_def)
  qed
  show thesis by (rule that[OF inv]) (auto simp: listing view simp del: str_simps)
qed

lemma create_clone_spec:
  assumes S: "sqlite_inv eng S" and source: "instance_dir base inst slot = sb_directory S"
    and new: "\<not> fs_exists eng (instance_dir base inst target_slot) (sb_disk S)" and old: "fs_exists eng (sb_directory S) (sb_disk S)"
    and target: "sqlite_laws eng (instance_dir base inst target_slot)"
    and dir: "clone_dir_laws eng main (sb_directory S) (instance_dir base inst target_slot) (sb_disk S)"
    and rows: "file_rows_ok eng main (sb_directory S) (sb_disk S)"
    and copy: "clone_copy_laws eng main (sb_directory S) (instance_dir base inst target_slot)"
    and names: "db_listing eng (sb_directory S) (sb_disk S) \<subseteq> (\<lambda>ns. ns @ str ''.db'') ` Collect plain_namespace"
  obtains n V where "create_clone eng base inst slot target_slot (sb_disk S) = (Inr n, sb_disk V)"
    and "db_listing eng (sb_directory V) (sb_disk V) \<subseteq> (\<lambda>ns. ns @ str ''.db'') ` Collect plain_namespace"
    and "sqlite_inv eng V" and "sb_directory V = instance_dir base inst target_slot"
    and "\<forall>t k. sqlite_view eng V t k = (if parse_namespace k = [] then None else checkpoint_view main S k)"
proof -
  let ?s = "sb_directory S" and ?t = "instance_dir base inst target_slot"
  obtain d0 where d0: "fs_create_dir_all eng ?t (sb_disk S) = (True, d0)"
    using dir by (cases "fs_create_dir_all eng ?t (sb_disk S)") (simp add: clone_dir_laws_def)
  with dir have laws: "fs_read_dir eng ?s d0 \<noteq> None" "db_listing eng ?s d0 = db_listing eng ?s (sb_disk S)"
      "db_listing eng ?t d0 = {}"
      "\<And>ns. plain_namespace ns \<Longrightarrow> main (db_path ?s ns) d0 = main (db_path ?s ns) (sb_disk S)"
    by (simp_all add: clone_dir_laws_def)
  obtain entries where entries: "fs_read_dir eng ?s d0 = Some entries" using laws(1) by blast
  then have listing: "{n \<in> set entries. suffix (str ''.db'') n} = db_listing eng ?s d0"
    by (simp add: db_listing_def del: str_simps)
  have "sq_select eng (db_path ?t ns) k d0 = None" if "plain_namespace ns" for ns k
    by (rule sqlite_lawsD(5)[OF target that]) (simp add: laws(3))
  then have start: "cloned_upto eng main ?s ?t d0 [] d0" by (simp add: cloned_upto_def laws(3))
  obtain n d where n: "fold (clone_entry eng ?s ?t) entries (0, d0) = (n, d)" by force
  have "name \<in> db_listing eng ?s d0 \<and> (\<exists>ns. plain_namespace ns \<and> name = ns @ str ''.db'')"
    if "name \<in> set entries" "suffix (str ''.db'') name" for name
  proof -
    have "name \<in> db_listing eng ?s d0" using that listing by blast
    with names laws(2) show ?thesis by (auto simp del: str_simps)
  qed
  from clone_entries[OF copy start this, of entries 0] have copied: "cloned_upto eng main ?s ?t d0 (rev entries) d"
    by (simp add: n)
  have seen: "{n \<in> set (rev entries). suffix (str ''.db'') n} = db_listing eng ?s d0" using listing by simp
  obtain V where V: "sqlite_inv eng V" "sb_directory V = ?t" "sb_disk V = d"
      "\<forall>t k. sqlite_view eng V t k = (if parse_namespace k = [] then None else checkpoint_view main S k)"
      "db_listing eng ?t d \<subseteq> (\<lambda>ns. ns @ str ''.db'') ` Collect plain_namespace"
    by (rule clone_bus[OF S refl target names copied seen laws(2,4) rows], assumption) (rule that)
  have "create_clone eng base inst slot target_slot (sb_disk S) = (Inr n, sb_disk V)"
    using new old n V(3) by (simp add: create_clone_def Let_def source d0 entries)
  with V show thesis by (intro that[of n V]) (simp_all del: str_simps)
qed

section \<open>The bus on a directory that is already there\<close>

lemma restart_bus:
  assumes S: "sqlite_inv eng S" and disk: "sqlite_restart_laws eng (sb_directory S) (sb_disk S)"
    and dir: "instance_dir base inst slot = sb_directory S" and clock: "clock_ok clock"
    and free: "\<forall>k. prefix (str ''_instance:'') k \<or> parse_namespace k = [] \<longrightarrow> sqlite_view eng S 0 k = None"
  obtains P where "create_permutive_bus eng clock base inst slot (sb_disk S) = Ret P" and "permutive_inv eng P"
    and "\<forall>t k. permutive_now P \<le> t \<longrightarrow> \<not> prefix (str ''_instance:'') k \<longrightarrow> permutive_view eng P t k = sqlite_view eng S t k"
proof -
  obtain S' where S': "create_sqlite_bus eng base inst slot (sb_disk S) = Ret S'"
    and view: "\<And>t k. sqlite_view eng S' t k = (if parse_namespace k = [] then None else sqlite_view eng S t k)"
    and S'_inv: "sqlite_inv eng S'"
    using sqlite_restart_view[OF S disk dir] free by blast
  have same: "sqlite_view eng S' t k = sqlite_view eng S t k" for t k
    using view free sqlite_view_time[of eng S t] by auto
  have "sqlite_view eng S' 0 k = None" if "prefix (str ''_instance:'') k" for k
    using free that by (simp add: same)
  from create_permutive_bus_spec[OF S' S'_inv clock this] show thesis using that unfolding same by blast
qed

section \<open>An engine with write-ahead logs\<close>

text \<open>
  Two disks in memory: the databases as they are read, and the rows of the files alone. Writes reach
  the first, copies take the second. It shows that the laws can hold with rows that are only in a
  log; nothing but the instances depends on it.
\<close>

definition wal_sqlite :: "(mem_disk \<times> mem_disk) sqlite" where
  "wal_sqlite = \<lparr>
     sq_open = (\<lambda>p (l, f). (True, (snd (sq_open mem_sqlite p l), snd (sq_open mem_sqlite p f)))),
     sq_init = (\<lambda>p d. (True, d)),
     sq_select = (\<lambda>p k d. sq_select mem_sqlite p k (fst d)),
     sq_replace = (\<lambda>p k v (l, f). (sq_replace mem_sqlite p k v l, f)),
     sq_delete = (\<lambda>p k (l, f). (sq_delete mem_sqlite p k l, f)),
     sq_rows = (\<lambda>p d. sq_rows mem_sqlite p (fst d)),
     fs_create_dir_all = (\<lambda>p d. (True, d)),
     fs_read_dir = (\<lambda>p d. fs_read_dir mem_sqlite p (fst d)),
     fs_metadata_len = (\<lambda>p d. fs_metadata_len mem_sqlite p (snd d)),
     fs_exists = (\<lambda>p d. fs_exists mem_sqlite p (fst d)),
     fs_copy = (\<lambda>p q (l, f). if map_of l p = None then (None, (l, f))
        else let t = mem_table p f in (Some (of_nat (length t)), (hash_insert q t l, hash_insert q t f)))\<rparr>"

definition wal_main :: "(mem_disk \<times> mem_disk) main_rows" where
  "wal_main p d k = bt_get (mem_table p (snd d)) k"

lemma wal_listing [simp]: "db_listing wal_sqlite dir d = db_listing mem_sqlite dir (fst d)"
  by (simp add: db_listing_def wal_sqlite_def)

lemma wal_simps [simp]:
  "fst (sq_open wal_sqlite p d)" "fst (snd (sq_open wal_sqlite p d)) = snd (sq_open mem_sqlite p (fst d))"
  "sq_init wal_sqlite p d = (True, d)" "sq_select wal_sqlite p k d = sq_select mem_sqlite p k (fst d)"
  "fst (sq_replace wal_sqlite p k v d) = sq_replace mem_sqlite p k v (fst d)"
  "fst (sq_delete wal_sqlite p k d) = sq_delete mem_sqlite p k (fst d)"
  "sq_rows wal_sqlite p d = sq_rows mem_sqlite p (fst d)"
  "fs_create_dir_all wal_sqlite p d = (True, d)" "fs_read_dir wal_sqlite p d \<noteq> None"
  "fs_exists wal_sqlite p d = fs_exists mem_sqlite p (fst d)"
  by (simp_all add: wal_sqlite_def mem_sqlite_def split: prod.split)

lemma wal_sqlite_laws: "sqlite_laws wal_sqlite dir"
  unfolding sqlite_laws_def sqlite_file_laws_def Let_def
  using sqlite_lawsD[OF mem_sqlite_laws[of dir]] sqlite_laws_select[OF mem_sqlite_laws[of dir]]
  by (simp del: str_simps)

lemma wal_sqlite_inv:
  assumes "sqlite_inv mem_sqlite S"
  shows "sqlite_inv wal_sqlite \<lparr>sb_directory = sb_directory S, sb_databases = sb_databases S, sb_poisoned = sb_poisoned S,
    sb_disk = (sb_disk S, f)\<rparr>"
  using assms unfolding sqlite_inv_def
  by (simp only: sqlite_bus.simps wal_listing wal_simps fst_conv wal_sqlite_laws simp_thms) blast

lemma wal_clone_copy:
  assumes len: "length (path_base source) = length (path_base target)" and "path_base source \<noteq> path_base target"
  shows "clone_copy_laws wal_sqlite wal_main source target"
  unfolding clone_copy_laws_def Let_def
proof (intro allI impI)
  fix ns and d :: "mem_disk \<times> mem_disk"
  assume ns: "plain_namespace ns" and listed: "ns @ str ''.db'' \<in> db_listing wal_sqlite source d"
  let ?p = "db_path source ns" and ?q = "db_path target ns" and ?t = "mem_table (db_path source ns) (snd d)"
  have apart: "path_base source @ n \<noteq> path_base target @ n'" for n n'
    using assms append_eq_append_conv[OF disjI1[OF len]] by blast
  have path: "db_path dir ns' = path_base dir @ ns' @ str ''.db''" if "plain_namespace ns'" for dir ns'
    using plain_path[OF plain_file[OF that], of dir] by (simp add: db_path_def del: str_simps)
  have "map_of (fst d) ?p \<noteq> None" using listed mem_listing_plain[OF ns, of source "fst d"] by auto
  then have copy: "fs_copy wal_sqlite ?p ?q d = (Some (of_nat (length ?t)), (hash_insert ?q ?t (fst d), hash_insert ?q ?t (snd d)))"
    by (cases d) (simp add: wal_sqlite_def Let_def)
  have keys: "fst ` set (hash_insert ?q ?t l) = insert ?q (fst ` set l)" for l by (auto simp: hash_insert_def)
  have source: "n \<in> db_listing mem_sqlite source (hash_insert ?q ?t l) \<longleftrightarrow> n \<in> db_listing mem_sqlite source l" for n l
  proof -
    have "path_base source @ n \<noteq> ?q" unfolding path[OF ns] by (rule apart)
    then show ?thesis by (simp only: mem_listing keys insert_iff simp_thms)
  qed
  have target: "db_listing mem_sqlite target (hash_insert ?q ?t l) = insert (ns @ str ''.db'') (db_listing mem_sqlite target l)" for l
    by (rule mem_listing_insert[OF ns])
  have rows: "bt_get (mem_table r (hash_insert ?q ?t l)) k = (if r = ?q then map_of ?t k else bt_get (mem_table r l) k)" for r k l
    by (simp add: mem_table_insert)
  have select: "sq_select mem_sqlite r k l = bt_get (mem_table r l) k" for r k l by (simp add: mem_sqlite_def)
  have "db_path source ns' \<noteq> ?q" if "plain_namespace ns'" for ns'
    unfolding path[OF that] path[OF ns] by (rule apart)
  then show "fst (fs_copy wal_sqlite ?p ?q d) \<noteq> None \<and>
      db_listing wal_sqlite source (snd (fs_copy wal_sqlite ?p ?q d)) = db_listing wal_sqlite source d \<and>
      db_listing wal_sqlite target (snd (fs_copy wal_sqlite ?p ?q d)) = insert (ns @ str ''.db'') (db_listing wal_sqlite target d) \<and>
      (\<forall>ns' k. plain_namespace ns' \<longrightarrow>
         wal_main (db_path source ns') (snd (fs_copy wal_sqlite ?p ?q d)) = wal_main (db_path source ns') d \<and>
         sq_select wal_sqlite (db_path target ns') k (snd (fs_copy wal_sqlite ?p ?q d)) =
           (if ns' = ns then wal_main ?p d k else sq_select wal_sqlite (db_path target ns') k d))"
    unfolding copy wal_listing using db_path_inject[OF _ ns, of _ target] source target
    by (auto simp: wal_main_def fun_eq_iff rows select simp del: str_simps)
qed

lemma wal_restart:
  "db_listing wal_sqlite dir d \<subseteq> (\<lambda>ns. ns @ str ''.db'') ` Collect plain_namespace \<Longrightarrow> sqlite_restart_laws wal_sqlite dir d"
  by (simp add: sqlite_restart_laws_def del: str_simps)

lemma mem_restart:
  "db_listing mem_sqlite dir d \<subseteq> (\<lambda>ns. ns @ str ''.db'') ` Collect plain_namespace \<Longrightarrow> sqlite_restart_laws mem_sqlite dir d"
proof -
  have "fs_create_dir_all mem_sqlite p d = (True, d)" "fs_read_dir mem_sqlite p d \<noteq> None" for p d
    by (simp_all add: mem_sqlite_def)
  then show "db_listing mem_sqlite dir d \<subseteq> (\<lambda>ns. ns @ str ''.db'') ` Collect plain_namespace \<Longrightarrow> sqlite_restart_laws mem_sqlite dir d"
    by (simp add: sqlite_restart_laws_def del: str_simps)
qed

lemma sample_dirs: "instance_dir (str ''/'') (str ''d'') 0 = str ''/d_0''" "instance_dir (str ''/'') (str ''d'') 1 = str ''/d_1''"
    "sb_directory sample_sqlite = str ''/d_0''"
  by (simp_all add: instance_dir_def path_join_def path_base_def dec_nat.simps sample_sqlite_def Let_def)

lemma sample_disk: "fst ` set (sb_disk sample_sqlite) = {str ''/d_0/a.db''}"
  by (simp add: sample_sqlite_def Let_def db_path_def path_join_def path_base_def instance_dir_def dec_nat.simps)

lemma sample_exists: "fs_exists mem_sqlite (str ''/d_0'') (sb_disk sample_sqlite)"
    "\<not> fs_exists mem_sqlite (str ''/d_1'') (sb_disk sample_sqlite)"
proof -
  have e: "fs_exists mem_sqlite p d \<longleftrightarrow> (\<exists>f \<in> fst ` set d. f = p \<or> prefix (path_base p) f)" for p d
    by (auto simp: mem_sqlite_def)
  show "fs_exists mem_sqlite (str ''/d_0'') (sb_disk sample_sqlite)" "\<not> fs_exists mem_sqlite (str ''/d_1'') (sb_disk sample_sqlite)"
    unfolding e sample_disk by (simp_all add: path_base_def)
qed

text \<open>The file of the sample holds an older value of its key; the new one is in the log.\<close>

definition sample_wal :: "(mem_disk \<times> mem_disk) sqlite_bus" where
  "sample_wal = \<lparr>sb_directory = sb_directory sample_sqlite, sb_databases = sb_databases sample_sqlite, sb_poisoned = sb_poisoned sample_sqlite,
     sb_disk = (sb_disk sample_sqlite, [(db_path (str ''/d_0'') (str ''a''), [(str ''a:k'', [6])])])\<rparr>"

lemma sample_wal_inv: "sqlite_inv wal_sqlite sample_wal"
  unfolding sample_wal_def by (rule wal_sqlite_inv[OF sample_sqlite_inv])

lemma sample_wal_fields: "sb_directory sample_wal = str ''/d_0''" "fst (sb_disk sample_wal) = sb_disk sample_sqlite"
  by (simp_all add: sample_wal_def sample_dirs)

lemma sample_wal_main: "wal_main p (sb_disk sample_wal) k =
    (if p = db_path (str ''/d_0'') (str ''a'') \<and> k = str ''a:k'' then Some [6] else None)"
  by (simp add: wal_main_def sample_wal_def mem_table_def bt_of_def bt_get_insert del: str_simps)

lemma sample_wal_views:
  "sqlite_view wal_sqlite sample_wal t (str ''a:k'') = Some [7]"
  "checkpoint_view wal_main sample_wal k = (if k = str ''a:k'' then Some [6] else None)"
proof -
  have "sqlite_view wal_sqlite sample_wal t k = sqlite_view mem_sqlite sample_sqlite t k" for k
    by (simp add: sqlite_view_def sample_wal_def split: option.split)
  then show "sqlite_view wal_sqlite sample_wal t (str ''a:k'') = Some [7]" by (simp add: sample_sqlite_view)
  have "storable_key (str ''a:k'')" by (auto intro!: ascii_storable)
  then show "checkpoint_view wal_main sample_wal k = (if k = str ''a:k'' then Some [6] else None)"
    using sample_namespace(1) by (auto simp: checkpoint_view_def sample_wal_main sample_wal_fields simp del: str_simps)
qed

lemma sample_wal_rows: "file_rows_ok wal_sqlite wal_main (str ''/d_0'') (sb_disk sample_wal)"
  unfolding file_rows_ok_def sample_wal_main wal_listing sample_wal_fields
proof (intro allI impI)
  fix ns k v
  assume ns: "plain_namespace ns" and "(if db_path (str ''/d_0'') ns = db_path (str ''/d_0'') (str ''a'') \<and> k = str ''a:k''
    then Some [6] else None) = Some v"
  then have "db_path (str ''/d_0'') ns = db_path (str ''/d_0'') (str ''a'')" and k: "k = str ''a:k''" by (auto split: if_splits)
  then have "ns = str ''a''" using db_path_inject[OF ns sample_namespace(2)] by blast
  moreover have "str ''a'' @ str ''.db'' \<in> db_listing mem_sqlite (str ''/d_0'') (sb_disk sample_sqlite)"
  proof -
    have "path_base (str ''/d_0'') @ str ''a.db'' = str ''/d_0/a.db''" by (simp add: path_base_def)
    moreover have "str ''a'' @ str ''.db'' = str ''a.db''" "suffix (str ''.db'') (str ''a.db'')" "(47::byte) \<notin> set (str ''a.db'')"
      by (simp_all add: suffix_to_prefix)
    ultimately show ?thesis by (simp only: mem_listing sample_disk singleton_iff simp_thms)
  qed
  ultimately show "parse_namespace k = ns \<and> ns @ str ''.db'' \<in> db_listing mem_sqlite (str ''/d_0'') (sb_disk sample_sqlite)"
    using k sample_namespace(1) by blast
qed

lemma sample_clone_dir: "clone_dir_laws wal_sqlite wal_main (str ''/d_0'') (str ''/d_1'') (sb_disk sample_wal)"
proof -
  have "db_listing mem_sqlite (str ''/d_1'') (sb_disk sample_sqlite) = {}"
  proof -
    have "path_base (str ''/d_1'') @ n \<noteq> str ''/d_0/a.db''" for n by (simp add: path_base_def)
    then show ?thesis using mem_listing[of _ "str ''/d_1''" "sb_disk sample_sqlite"] unfolding sample_disk by blast
  qed
  then show ?thesis by (simp add: clone_dir_laws_def sample_wal_fields del: str_simps)
qed

end
