(* ===== verification/Tric_Main.thy ===== *)
theory Tric_Main
  imports Cli_Correct Core Clone
begin

text \<open>
  \<open>src/main.rs\<close>: the program. \<open>tric server\<close> makes the directories, the two-tier bus and the supervised
  modules and then supervises for ever; \<open>slots\<close> and \<open>clone\<close> work on the data directory; every other
  command line, and every line of the shell, is sent to the admin socket of a running server. The
  process has its output, its error output, the disk and what is behind the admin socket. The
  environment, the process number, the texts of system errors and the sockets are parameters.
\<close>

section \<open>The process\<close>

record ('d, 'r) process =
  pr_out :: bytes
  pr_err :: bytes
  pr_disk :: 'd
  pr_remote :: 'r

definition print_out :: "bytes \<Rightarrow> (('d, 'r) process, unit) op" where
  "print_out text = op_modify (\<lambda>p. p\<lparr>pr_out := pr_out p @ text\<rparr>)"

definition print_err :: "bytes \<Rightarrow> (('d, 'r) process, unit) op" where
  "print_err text = op_modify (\<lambda>p. p\<lparr>pr_err := pr_err p @ text\<rparr>)"

definition on_disk :: "('d \<Rightarrow> 'a \<times> 'd) \<Rightarrow> (('d, 'r) process, 'a) op" where
  "on_disk f = op_on pr_disk (\<lambda>d p. p\<lparr>pr_disk := d\<rparr>) (\<lambda>d. case f d of (x, d) \<Rightarrow> (Ret x, d))"

definition on_remote :: "('r \<Rightarrow> 'a \<times> 'r) \<Rightarrow> (('d, 'r) process, 'a) op" where
  "on_remote f = op_on pr_remote (\<lambda>r p. p\<lparr>pr_remote := r\<rparr>) (\<lambda>r. case f r of (x, r) \<Rightarrow> (Ret x, r))"

text \<open>
  \<open>ma_vars\<close> are the environment variables with a readable value; \<open>ma_create_error\<close> is the error text
  of a failed creation of a directory, and \<open>ma_debug\<close> the debug format of a path.
\<close>

record 'd machine =
  ma_engine :: "'d sqlite"
  ma_vars :: "bytes \<Rightarrow> bytes option"
  ma_pid :: nat
  ma_create_error :: "bytes \<Rightarrow> bytes"
  ma_debug :: "bytes \<Rightarrow> bytes"

definition var_or :: "'d machine \<Rightarrow> bytes \<Rightarrow> bytes \<Rightarrow> bytes" where
  "var_or ma name fallback = (case ma_vars ma name of Some v \<Rightarrow> v | None \<Rightarrow> fallback)"

definition socket_dir :: "'d machine \<Rightarrow> bytes" where
  "socket_dir ma = var_or ma (str ''TRIC_SOCKET_DIR'') (str ''/var/run/tric'')"

definition udp_bind :: "'d machine \<Rightarrow> bytes" where
  "udp_bind ma = var_or ma (str ''TRIC_UDP_BIND'') (str ''0.0.0.0:7483'')"

definition base_dir :: "'d machine \<Rightarrow> bytes" where
  "base_dir ma = var_or ma (str ''TRIC_BASE_DIR'') (str ''/var/db/tric'')"

definition instance_name :: "'d machine \<Rightarrow> bytes" where
  "instance_name ma = var_or ma (str ''TRIC_INSTANCE'') (str ''default'')"

definition slot_number :: "'d machine \<Rightarrow> nat" where
  "slot_number ma =
     (case parse_unsigned (2 ^ 32) (var_or ma (str ''TRIC_SLOT'') (str ''0'')) of Some n \<Rightarrow> n | None \<Rightarrow> 0)"

section \<open>The server\<close>

text \<open>What \<open>run_server\<close> has built when it enters the supervision loop, which never ends.\<close>

record 'd system =
  sy_bus :: "'d permutive"
  sy_core :: core
  sy_metrics :: metrics
  sy_server :: server_config
  sy_admin_path :: bytes
  sy_admin :: cli_config

fun create_directories :: "'d sqlite \<Rightarrow> (bytes \<times> bytes) list \<Rightarrow> 'd \<Rightarrow> (bytes \<times> bytes) option \<times> 'd" where
  "create_directories eng [] d = (None, d)"
| "create_directories eng ((label, path) # rest) d =
     (case fs_create_dir_all eng path d of
        (True, d) \<Rightarrow> create_directories eng rest d
      | (False, d) \<Rightarrow> (Some (label, path), d))"

definition server_directories :: "'d machine \<Rightarrow> (bytes \<times> bytes) list" where
  "server_directories ma = [(str ''socket'', socket_dir ma), (str ''data'', base_dir ma)]"

definition run_server :: "'d machine \<Rightarrow> (nat \<Rightarrow> instant) \<Rightarrow> (nat \<Rightarrow> instant) \<Rightarrow> (('d, 'r) process, 'd system) op" where
  "run_server ma bus_clock core_clock =
     op_bind (on_disk (create_directories (ma_engine ma) (server_directories ma))) (\<lambda>failed.
     case failed of
       Some (label, path) \<Rightarrow>
         op_bind (print_err (str ''tric: cannot create '' @ label @ str '' directory '' @ path @ str '': ''
           @ ma_create_error ma path @ [10])) (\<lambda>_. op_exit 1)
     | None \<Rightarrow>
         op_bind (op_get pr_disk) (\<lambda>d.
         case create_permutive_bus (ma_engine ma) bus_clock (base_dir ma) (instance_name ma) (slot_number ma) d of
           Panicked \<Rightarrow> op_panic
         | Exited c \<Rightarrow> op_exit c
         | Ret bus \<Rightarrow>
             op_ret \<lparr>sy_bus = bus,
               sy_core = register_module (str ''cli'') (register_module (str ''server'') (create_core core_clock)),
               sy_metrics = create_metrics,
               sy_server = \<lparr>sc_local_path = socket_dir ma @ str ''/server.sock'', sc_udp_bind = udp_bind ma,
                 sc_max_sessions = 10000\<rparr>,
               sy_admin_path = socket_dir ma @ str ''/admin.sock'',
               sy_admin = \<lparr>cc_auth_keys_path = None\<rparr>\<rparr>))"

section \<open>Commands to a running server\<close>

text \<open>
  A datagram socket: binding (the error, if it fails), connecting, sending one datagram, receiving
  the next one or an error.
\<close>

record 'r admin_socket =
  as_bind :: "bytes \<Rightarrow> bytes option"
  as_connect :: "bytes \<Rightarrow> bool"
  as_send :: "bytes \<Rightarrow> 'r \<Rightarrow> bool \<times> 'r"
  as_recv :: "'r \<Rightarrow> (bytes + bytes) \<times> 'r"

definition client_path :: "'d machine \<Rightarrow> bytes" where
  "client_path ma = str ''/tmp/tric-cli-'' @ dec_nat (ma_pid ma) @ str ''.sock''"

definition send_command :: "'d machine \<Rightarrow> 'r admin_socket \<Rightarrow> bytes \<Rightarrow> (('d, 'r) process, bytes) op" where
  "send_command ma sk command =
     (case as_bind sk (client_path ma) of
        Some error \<Rightarrow> op_ret (str ''error: failed to bind '' @ client_path ma @ str '': '' @ error @ [10])
      | None \<Rightarrow>
          if \<not> as_connect sk (socket_dir ma @ str ''/admin.sock'') then
            op_ret (str ''error: cannot connect to '' @ socket_dir ma @ str ''/admin.sock'' @ [10])
          else
            op_bind (on_remote (as_send sk command)) (\<lambda>sent.
            if \<not> sent then op_ret (str ''error: failed to send command'' @ [10])
            else
              op_bind (on_remote (as_recv sk)) (\<lambda>received.
              case received of
                Inr datagram \<Rightarrow> op_ret (from_utf8_lossy (take 65536 datagram))
              | Inl error \<Rightarrow> op_ret (str ''error: failed to receive response: '' @ error @ [10]))))"

text \<open>The shell, over what \<open>read_line\<close> gives: a line, nothing at the end of the input, or an error.\<close>

fun run_shell :: "'d machine \<Rightarrow> 'r admin_socket \<Rightarrow> bytes option list \<Rightarrow> (('d, 'r) process, unit) op" where
  "run_shell ma sk [] = print_out (str ''tric> '')"
| "run_shell ma sk (input # inputs) =
     op_bind (print_out (str ''tric> '')) (\<lambda>_.
     case input of
       None \<Rightarrow> op_ret ()
     | Some line \<Rightarrow>
         if line = [] then op_ret ()
         else if str_trim line = [] then run_shell ma sk inputs
         else if str_trim line \<in> {str ''exit'', str ''quit''} then op_ret ()
         else op_bind (send_command ma sk (str_trim line)) (\<lambda>response.
              op_bind (print_out response) (\<lambda>_. run_shell ma sk inputs)))"

section \<open>Slots and clones\<close>

definition slot_line :: "bytes \<Rightarrow> nat \<times> u64 \<Rightarrow> bytes" where
  "slot_line inst entry =
     (case entry of (slot, used) \<Rightarrow>
        str ''  '' @ inst @ str ''_'' @ dec_nat slot @ str ''  '' @ dec_nat (unat used) @ str ''B''
        @ (if slot = 0 then str ''  (primary)'' else []) @ [10])"

definition run_slots :: "'d machine \<Rightarrow> (('d, 'r) process, unit) op" where
  "run_slots ma =
     op_bind (op_get (\<lambda>p. find_instance_slots (ma_engine ma) (base_dir ma) (instance_name ma) (pr_disk p))) (\<lambda>slots.
     if slots = [] then
       print_out (str ''no slots for instance '' @ [39] @ instance_name ma @ [39] @ str '' in '' @ base_dir ma @ [10])
     else print_out (concat (map (slot_line (instance_name ma)) slots)))"

fun clone_message :: "'d machine \<Rightarrow> clone_error \<Rightarrow> bytes" where
  "clone_message ma (Slot_Exists slot) = str ''slot '' @ dec_nat slot @ str '' already exists''"
| "clone_message ma (Source_Missing slot) = str ''source slot '' @ dec_nat slot @ str '' does not exist''"
| "clone_message ma (Cannot_Create target) =
     str ''cannot create '' @ ma_debug ma target @ str '': '' @ ma_create_error ma target"

definition fail :: "bytes \<Rightarrow> (('d, 'r) process, 'a) op" where
  "fail message = op_bind (print_err (message @ [10])) (\<lambda>_. op_exit 1)"

definition run_clone :: "'d machine \<Rightarrow> bytes list \<Rightarrow> (('d, 'r) process, unit) op" where
  "run_clone ma args =
     (if length args \<le> 1 then fail (str ''usage: tric clone <target-slot>'')
      else case parse_unsigned (2 ^ 32) (args ! 1) of
        None \<Rightarrow> fail (str ''error: target slot must be a number'')
      | Some target_slot \<Rightarrow>
          op_bind (on_disk (create_clone (ma_engine ma) (base_dir ma) (instance_name ma) (slot_number ma) target_slot)) (\<lambda>r.
          case r of
            Inr copied \<Rightarrow>
              print_out (str ''cloned '' @ instance_name ma @ str ''_'' @ dec_nat (slot_number ma)
                @ str '' '' @ [0xE2, 0x86, 0x92] @ str '' '' @ instance_name ma @ str ''_'' @ dec_nat target_slot
                @ str ''  ('' @ dec_nat (unat copied) @ str ''B)'' @ [10])
          | Inl error \<Rightarrow> fail (str ''error: '' @ clone_message ma error)))"

section \<open>The command line\<close>

definition usage :: bytes where
  "usage = concat (map (\<lambda>line. line @ [10])
     [str ''usage: tric <command> [args...]'',
      str ''       tric server                          start daemon'',
      str ''       tric status                          server status'',
      str ''       tric keys [-p prefix]                list keys'',
      str ''       tric inspect <key>                   key metadata'',
      str ''       tric query <SQL>                     SQL query'',
      str ''       tric import -f <path> -F <dialect> [-a]'',
      str ''       tric import -D <old.tric> <new.tric>'',
      str ''       tric export -f <path> [-d] [-F <dialect>]'',
      str ''       tric dump -f <path>                  binary store dump'',
      str ''       tric restore -f <path>               binary store restore'',
      str ''       tric slots                           list instance slots'',
      str ''       tric clone <slot>                    clone current slot'',
      str ''       tric -b                              performance benchmark'',
      str ''       tric shutdown                        stop server'',
      str ''       tric shell                           interactive REPL'',
      str ''       tric -h                              help''])"

text \<open>\<open>main\<close>: the benchmark is an argument, and so are the lines that the shell reads.\<close>

datatype 'd main_end = Supervising "'d system" | Finished

definition finished :: "(('d, 'r) process, unit) op \<Rightarrow> (('d, 'r) process, 'd main_end) op" where
  "finished m = op_bind m (\<lambda>_. op_ret Finished)"

definition main ::
  "'d machine \<Rightarrow> 'r admin_socket \<Rightarrow> (('d, 'r) process, unit) op \<Rightarrow> (nat \<Rightarrow> instant) \<Rightarrow> (nat \<Rightarrow> instant) \<Rightarrow>
   bytes option list \<Rightarrow> bytes list \<Rightarrow> (('d, 'r) process, 'd main_end) op" where
  "main ma sk run_benchmark bus_clock core_clock inputs args =
     (case args of
        [] \<Rightarrow> op_bind (print_err usage) (\<lambda>_. op_exit 1)
      | verb # _ \<Rightarrow>
          if verb = str ''server'' then
            op_bind (run_server ma bus_clock core_clock) (\<lambda>system. op_ret (Supervising system))
          else if verb = str ''shell'' then finished (run_shell ma sk inputs)
          else if verb = str ''slots'' then finished (run_slots ma)
          else if verb = str ''clone'' then finished (run_clone ma args)
          else if verb = str ''benchmark'' \<or> verb = str ''-b'' then finished run_benchmark
          else if verb = str ''-h'' then finished (print_err usage)
          else finished (op_bind (send_command ma sk (join (str '' '') args)) print_out))"

section \<open>A command line is served\<close>

text \<open>What the admin module of a server sends back to a client for one datagram.\<close>

definition serve_admin :: "admin \<Rightarrow> 'st data_bus \<Rightarrow> 'p \<Rightarrow> bytes \<Rightarrow> ('st, 'p) server \<Rightarrow> (bytes + bytes) \<times> ('st, 'p) server" where
  "serve_admin ad bus peer command s =
     (case cli_pass ad bus (Some (command, peer)) s of
        (Ret _, s) \<Rightarrow> (Inr (snd (last (sv_sent s))), s)
      | (_, s) \<Rightarrow> (Inl (str ''connection reset''), s))"

text \<open>
  The documented behaviour of a connected datagram socket of the local domain: what is sent arrives
  whole at the server, and what the server sends back is what is received. \<open>get\<close> finds the server
  in what is behind the socket.
\<close>

definition delivers ::
  "'r admin_socket \<Rightarrow> bytes \<Rightarrow> bytes \<Rightarrow> ('r \<Rightarrow> 's) \<Rightarrow> (bytes \<Rightarrow> 's \<Rightarrow> (bytes + bytes) \<times> 's) \<Rightarrow> bool" where
  "delivers sk own path get serve \<longleftrightarrow> as_bind sk own = None \<and> as_connect sk path \<and>
     (\<forall>command r. fst (as_send sk command r) \<and>
        map_prod id get (as_recv sk (snd (as_send sk command r))) = serve command (get r))"

lemma dispatch_command_words:
  "split_whitespace c = split_whitespace c' \<Longrightarrow> dispatch_command ad bus m c = dispatch_command ad bus m c'"
  by (simp add: dispatch_command_def)

lemma serve_admin_command:
  assumes words: "args \<noteq> []" "\<And>w. w \<in> set args \<Longrightarrow> plain_word w" and short: "length (join (str '' '') args) \<le> 4096"
    and lease: "tric_inv (sv_core_bus s)" and c: "split_whitespace c = args"
    and run: "dispatch_command ad bus (sv_metrics s) c (sv_storage s) = (Ret out, st)"
  obtains s' where "serve_admin ad bus peer (join (str '' '') args) s = (Inr (ao_text out), s')"
    and "sv_storage s' = st" and "sv_metrics s' = sv_metrics s"
proof -
  have wire: "wire_duration (from_secs 15)" by (rule wire_heartbeat)
  obtain T where T: "tric_write_ttl module_cli_key (from_secs 15) (sv_core_bus s) = (Ret (), T)"
    using tb_write_ttl[OF lease wire, of module_cli_key] by (auto elim!: returnsE)
  have "split_whitespace (join (str '' '') args) = split_whitespace c" using command_words(2)[OF words] c by simp
  from dispatch_command_words[OF this] run
  have "dispatch_command ad bus (sv_metrics s) (join (str '' '') args) (sv_storage s) = (Ret out, st)" by metis
  then have "cli_pass ad bus (Some (join (str '' '') args, peer)) s =
      (Ret (), s\<lparr>sv_core_bus := T, sv_storage := st, sv_sent := sv_sent s @ [(peer, ao_text out)]\<rparr>)"
    using short by (simp add: cli_pass_def on_core_def on_storage_def op_on_def send_to_def T op_bind_def op_simps
        command_words(1)[OF words] del: str_simps)
  then show thesis
    by (intro that[of "s\<lparr>sv_core_bus := T, sv_storage := st, sv_sent := sv_sent s @ [(peer, ao_text out)]\<rparr>"])
      (simp_all add: serve_admin_def del: str_simps)
qed

definition local_verbs :: "bytes set" where
  "local_verbs = {str ''server'', str ''shell'', str ''slots'', str ''clone'', str ''benchmark'', str ''-b'', str ''-h''}"

lemma main_remote:
  assumes "args \<noteq> []" and "hd args \<notin> local_verbs"
  shows "main ma sk run_benchmark bus_clock core_clock inputs args =
    finished (op_bind (send_command ma sk (join (str '' '') args)) print_out)"
  using assms unfolding local_verbs_def by (cases args) (simp_all add: main_def del: str_simps)

lemma send_command_delivered:
  assumes link: "delivers sk (client_path ma) (socket_dir ma @ str ''/admin.sock'') get serve"
    and reply: "serve command (get (pr_remote p)) = (Inr text, s)"
  shows "returns (send_command ma sk command) p (\<lambda>r p'. r = from_utf8_lossy (take 65536 text) \<and>
    get (pr_remote p') = s \<and> pr_out p' = pr_out p \<and> pr_err p' = pr_err p \<and> pr_disk p' = pr_disk p)"
proof -
  let ?r = "pr_remote p"
  obtain r1 where r1: "as_send sk command ?r = (True, r1)"
    using link by (cases "as_send sk command ?r") (simp add: delivers_def, metis fst_conv)
  have "map_prod id get (as_recv sk r1) = (Inr text, s)"
    using link r1 reply unfolding delivers_def by (metis snd_conv)
  then obtain r2 where r2: "as_recv sk r1 = (Inr text, r2)" "get r2 = s"
    by (cases "as_recv sk r1") auto
  from link show ?thesis
    by (simp add: send_command_def delivers_def returns_def on_remote_def op_on_def op_bind_def op_simps r1 r2)
qed

text \<open>C13: A command line that is no command of the program itself is carried out by the running server: of
  visible ASCII words and of at most 4096 bytes with the spaces, it reaches the dispatcher of the
  admin module as the same words, changes the storage of the server as any command with these words
  does, and the text of the answer is printed, up to 65536 bytes of it. The process itself ends
  without an error.\<close>

theorem command_line_served:
  assumes link: "delivers sk (client_path ma) (socket_dir ma @ str ''/admin.sock'') get (serve_admin ad bus peer)"
    and args: "args \<noteq> []" "\<And>w. w \<in> set args \<Longrightarrow> plain_word w" "hd args \<notin> local_verbs"
    and short: "length (join (str '' '') args) \<le> 4096"
    and lease: "tric_inv (sv_core_bus (get (pr_remote p)))"
    and c: "split_whitespace c = args"
    and run: "dispatch_command ad bus (sv_metrics (get (pr_remote p))) c (sv_storage (get (pr_remote p))) = (Ret out, st)"
  shows "returns (main ma sk run_benchmark bus_clock core_clock inputs args) p (\<lambda>e p'. e = Finished \<and>
    sv_storage (get (pr_remote p')) = st \<and> pr_out p' = pr_out p @ from_utf8_lossy (take 65536 (ao_text out)) \<and>
    pr_err p' = pr_err p \<and> pr_disk p' = pr_disk p)"
proof -
  obtain s' where s': "serve_admin ad bus peer (join (str '' '') args) (get (pr_remote p)) = (Inr (ao_text out), s')"
      "sv_storage s' = st"
    using serve_admin_command[OF args(1,2) short lease c run] by metis
  show ?thesis
    unfolding main_remote[OF args(1,3)] finished_def returns_bind
    by (rule returns_mono[OF send_command_delivered[OF link s'(1)]]) (simp add: print_out_def wp s'(2))
qed

text \<open>A socket with a mailbox, in front of the admin module of a server.\<close>

definition mailbox_socket :: "admin \<Rightarrow> 'st data_bus \<Rightarrow> (bytes \<times> ('st, unit) server) admin_socket" where
  "mailbox_socket ad bus = \<lparr>as_bind = (\<lambda>_. None), as_connect = (\<lambda>_. True), as_send = (\<lambda>c r. (True, (c, snd r))),
     as_recv = (\<lambda>r. map_prod id (\<lambda>s. ([], s)) (serve_admin ad bus () (fst r) (snd r)))\<rparr>"

definition sample_machine :: "mem_disk machine" where
  "sample_machine = \<lparr>ma_engine = mem_sqlite, ma_vars = map_of [(str ''TRIC_BASE_DIR'', str ''/''), (str ''TRIC_INSTANCE'', str ''d'')], ma_pid = 12, ma_create_error = (\<lambda>_. []), ma_debug = (\<lambda>_. [])\<rparr>"

definition sample_server :: "(mem_disk permutive, unit) server" where
  "sample_server = \<lparr>sv_core_bus = create_tric (\<lambda>_. 7), sv_storage = sample_permutive, sv_metrics = create_metrics, sv_sent = []\<rparr>"

definition sample_process :: "(mem_disk, bytes \<times> (mem_disk permutive, unit) server) process" where
  "sample_process = \<lparr>pr_out = [], pr_err = [], pr_disk = [], pr_remote = ([], sample_server)\<rparr>"

lemma command_line_served_witness:
  "returns (main sample_machine (mailbox_socket sample_admin (permutive_bus mem_sqlite)) (op_ret ()) (\<lambda>_. 7) (\<lambda>_. 7) [] [str ''status''])
    sample_process (\<lambda>e p'. e = Finished \<and> sv_storage (snd (pr_remote p')) = sample_permutive \<and>
      pr_out p' = pr_out sample_process @ from_utf8_lossy (take 65536 (ao_text (answer (render_status create_metrics)))) \<and>
      pr_err p' = pr_err sample_process \<and> pr_disk p' = pr_disk sample_process)"
proof (rule command_line_served[where c = "str ''status''" and ad = sample_admin and bus = "permutive_bus mem_sqlite"
      and peer = "()"])
  have word: "plain_word (str ''status'')" by (simp add: plain_word_def visible_def)
  show "delivers (mailbox_socket sample_admin (permutive_bus mem_sqlite)) (client_path sample_machine)
      (socket_dir sample_machine @ str ''/admin.sock'') snd (serve_admin sample_admin (permutive_bus mem_sqlite) ())"
    by (simp add: delivers_def mailbox_socket_def prod.map_comp comp_def id_def prod.map_ident)
  show words: "split_whitespace (str ''status'') = [str ''status'']"
    using command_words(2)[of "[str ''status'']"] word by (simp del: str_simps)
  show "dispatch_command sample_admin (permutive_bus mem_sqlite) (sv_metrics (snd (pr_remote sample_process))) (str ''status'')
      (sv_storage (snd (pr_remote sample_process))) = (Ret (answer (render_status create_metrics)), sample_permutive)"
    by (simp add: dispatch_command_def words op_simps sample_process_def sample_server_def del: str_simps)
  show "tric_inv (sv_core_bus (snd (pr_remote sample_process)))"
    by (simp add: sample_process_def sample_server_def create_tric_inv clock_ok_def)
  show "hd [str ''status''] \<notin> local_verbs" by (simp add: local_verbs_def)
  show "plain_word w" if "w \<in> set [str ''status'']" for w using that word by (simp del: str_simps)
qed simp_all

section \<open>The start of the server\<close>

text \<open>C12: A start of the server on a directory that an earlier run has left, after a shutdown or a crash,
  enters the supervision of the two modules, \<open>server\<close> and \<open>cli\<close>, with a consistent bus in which every
  persistent value is found under its key, if none was stored under the prefix of the registry or
  in the empty namespace.\<close>

theorem server_start_keeps_values:
  assumes dirs: "create_directories (ma_engine ma) (server_directories ma) (pr_disk p) = (None, sb_disk S)"
    and S: "sqlite_inv (ma_engine ma) S" and disk: "sqlite_restart_laws (ma_engine ma) (sb_directory S) (sb_disk S)"
    and dir: "instance_dir (base_dir ma) (instance_name ma) (slot_number ma) = sb_directory S"
    and clocks: "clock_ok bus_clock" "clock_ok core_clock"
    and free: "\<forall>k. prefix (str ''_instance:'') k \<or> parse_namespace k = [] \<longrightarrow> sqlite_view (ma_engine ma) S 0 k = None"
  shows "returns (main ma sk run_benchmark bus_clock core_clock inputs (str ''server'' # args)) p (\<lambda>e p'.
    \<exists>system. e = Supervising system \<and> permutive_inv (ma_engine ma) (sy_bus system) \<and>
      core_reachable core_clock [str ''server'', str ''cli''] (sy_core system) \<and> tric_inv (co_bus (sy_core system)) \<and>
      (\<forall>t k. permutive_now (sy_bus system) \<le> t \<longrightarrow> \<not> prefix (str ''_instance:'') k \<longrightarrow>
        permutive_view (ma_engine ma) (sy_bus system) t k = sqlite_view (ma_engine ma) S t k))"
proof -
  obtain P where P: "create_permutive_bus (ma_engine ma) bus_clock (base_dir ma) (instance_name ma) (slot_number ma) (sb_disk S) = Ret P"
    "permutive_inv (ma_engine ma) P" and view: "\<forall>t k. permutive_now P \<le> t \<longrightarrow> \<not> prefix (str ''_instance:'') k \<longrightarrow>
      permutive_view (ma_engine ma) P t k = sqlite_view (ma_engine ma) S t k"
    by (rule restart_bus[OF S disk dir clocks(1) free])
  let ?core = "register_module (str ''cli'') (register_module (str ''server'') (create_core core_clock))"
  have "core_reachable core_clock [str ''server'', str ''cli''] ?core"
    using core_reachable.start[of core_clock "[str ''server'', str ''cli'']"] by (simp del: str_simps)
  moreover from core_reachable_bus[OF this clocks(2)] have "tric_inv (co_bus ?core)" .
  ultimately show ?thesis
    using P view by (simp add: main_def run_server_def returns_bind on_disk_def returns_on returns_get returns_ret del: str_simps)
      (simp add: returns_def dirs op_simps)
qed

text \<open>Where a directory cannot be made the process ends with an error and no bus is created.\<close>

lemma server_needs_directories:
  assumes "create_directories (ma_engine ma) (server_directories ma) (pr_disk p) = (Some (label, path), d)"
  shows "main ma sk run_benchmark bus_clock core_clock inputs (str ''server'' # args) p =
    (Exited 1, p\<lparr>pr_disk := d, pr_err := pr_err p @ str ''tric: cannot create '' @ label @ str '' directory '' @ path @ str '': ''
      @ ma_create_error ma path @ [10]\<rparr>)"
  using assms by (simp add: main_def run_server_def on_disk_def op_on_def print_err_def op_bind_def op_simps)

section \<open>Clones\<close>


section \<open>Instances\<close>

lemma sample_vars: "ma_engine sample_machine = mem_sqlite" "base_dir sample_machine = str ''/''" "instance_name sample_machine = str ''d''"
    "slot_number sample_machine = 0"
proof -
  have "parse_unsigned (2 ^ 32) (str ''0'') = Some 0" by (simp add: parse_unsigned_def)
  then show "ma_engine sample_machine = mem_sqlite" "base_dir sample_machine = str ''/''" "instance_name sample_machine = str ''d''"
    "slot_number sample_machine = 0"
    by (simp_all add: sample_machine_def base_dir_def instance_name_def slot_number_def var_or_def)
qed

definition sample_start :: "(mem_disk, unit) process" where
  "sample_start = \<lparr>pr_out = [], pr_err = [], pr_disk = sb_disk sample_sqlite, pr_remote = ()\<rparr>"

definition no_socket :: "unit admin_socket" where
  "no_socket = \<lparr>as_bind = (\<lambda>_. None), as_connect = (\<lambda>_. False), as_send = (\<lambda>_ r. (False, r)), as_recv = (\<lambda>r. (Inl [], r))\<rparr>"

lemma sample_free: "\<forall>k. prefix (str ''_instance:'') k \<or> parse_namespace k = [] \<longrightarrow> sqlite_view mem_sqlite sample_sqlite 0 k = None"
proof -
  have "\<not> prefix (str ''_instance:'') (str ''a:k'')" "parse_namespace (str ''a:k'') \<noteq> []"
    unfolding sample_namespace(1) by simp_all
  then show ?thesis unfolding sample_sqlite_view by metis
qed

lemma const_clock: "clock_ok (\<lambda>_. 7)"
  by (simp add: clock_ok_def)

lemma server_start_keeps_values_witness:
  "returns (main sample_machine no_socket (op_ret ()) (\<lambda>_. 7) (\<lambda>_. 7) [] [str ''server'']) sample_start (\<lambda>e p'.
    \<exists>system. e = Supervising system \<and> permutive_inv mem_sqlite (sy_bus system) \<and>
      core_reachable (\<lambda>_. 7) [str ''server'', str ''cli''] (sy_core system) \<and> tric_inv (co_bus (sy_core system)) \<and>
      (\<forall>t k. permutive_now (sy_bus system) \<le> t \<longrightarrow> \<not> prefix (str ''_instance:'') k \<longrightarrow>
        permutive_view mem_sqlite (sy_bus system) t k = sqlite_view mem_sqlite sample_sqlite t k))"
proof -
  have "create_directories mem_sqlite dirs d = (None, d)" for dirs d
    by (induction dirs) (auto simp: mem_sqlite_def)
  then show ?thesis
    using server_start_keeps_values[of sample_machine sample_start sample_sqlite "\<lambda>_. 7" "\<lambda>_. 7" no_socket "op_ret ()" "[]" "[]"]
      sample_sqlite_inv sample_sqlite_restart sample_free const_clock sample_dirs
    unfolding sample_vars by (simp add: sample_start_def del: str_simps)
qed





end
