(* ===== verification/Bench.thy ===== *)
theory Bench
  imports Interleave Tric_Main
begin

text \<open>
  \<open>src/modules/benchmark.rs\<close>: the loops that are measured, the figures of a result and the datagrams
  that are sent to a server. The clock of the measurements is a sequence of readings. A result is
  its numbers: the rate in operations per second, a floating-point quotient of two of them, and the
  columns of the printed line are left out, as is Redis behind its client library, which is a
  parameter.
\<close>

section \<open>Measuring\<close>

record bench_result =
  br_label :: bytes
  br_operations :: nat
  br_elapsed :: nat
  br_average :: nat
  br_p50 :: nat
  br_p95 :: nat
  br_p99 :: nat

text \<open>A line of text, a line with figures, and the line of the concurrent benchmark: label, operations, time.\<close>

datatype bench_output = Line bytes | Result bench_result | Rate bytes nat nat

record ('d, 'r) bench =
  be_clock :: "nat \<Rightarrow> instant"
  be_ticks :: nat
  be_out :: "bench_output list"
  be_disk :: 'd
  be_remote :: 'r

text \<open>A benchmark works on a store of its own beside the state of the whole run.\<close>

definition on_run :: "('b, 'a) op \<Rightarrow> ('b \<times> 's, 'a) op" where
  "on_run = op_on fst (\<lambda>b (_, s). (b, s))"

definition on_store :: "('s, 'a) op \<Rightarrow> ('b \<times> 's, 'a) op" where
  "on_store = op_on snd (\<lambda>s (b, _). (b, s))"

definition with_store :: "'s \<Rightarrow> ('b \<times> 's, 'a) op \<Rightarrow> ('b, 'a) op" where
  "with_store s m = (\<lambda>b. case m (b, s) of (r, (b, _)) \<Rightarrow> (r, b))"

definition bench_now :: "(('d, 'r) bench, instant) op" where
  "bench_now = (\<lambda>b. (Ret (be_clock b (be_ticks b)), b\<lparr>be_ticks := Suc (be_ticks b)\<rparr>))"

definition report :: "bench_output \<Rightarrow> (('d, 'r) bench, unit) op" where
  "report x = op_modify (\<lambda>b. b\<lparr>be_out := be_out b @ [x]\<rparr>)"

text \<open>
  \<open>render_result\<close>: the average divides by the number of latencies, and the percentiles index the sorted
  list, so an empty list panics. Here are the numbers that it prints.
\<close>

definition result_of :: "bytes \<Rightarrow> nat \<Rightarrow> nat \<Rightarrow> nat list \<Rightarrow> bench_result" where
  "result_of label operations elapsed latencies =
     (let average = sum_list latencies div length latencies;
          latencies = sort latencies; n = length latencies
      in \<lparr>br_label = label, br_operations = operations, br_elapsed = elapsed, br_average = average,
          br_p50 = latencies ! (n div 2), br_p95 = latencies ! (n * 95 div 100), br_p99 = latencies ! (n * 99 div 100)\<rparr>)"

definition render_result :: "bytes \<Rightarrow> nat \<Rightarrow> nat \<Rightarrow> nat list \<Rightarrow> (('d, 'r) bench, unit) op" where
  "render_result label operations elapsed latencies =
     (if latencies = [] then op_panic else report (Result (result_of label operations elapsed latencies)))"

definition timed :: "('s, 'a) op \<Rightarrow> (('d, 'r) bench \<times> 's, nat \<times> 'a) op" where
  "timed m =
     op_bind (on_run bench_now) (\<lambda>t.
     op_bind (on_store m) (\<lambda>x.
     op_bind (on_run bench_now) (\<lambda>t'. op_ret (t' - t, x))))"

text \<open>
  The loop of every benchmark, for the calls with the numbers below \<open>count\<close>. What the calls return is
  the value of the operation; the code drops it.
\<close>

definition measured :: "bytes \<Rightarrow> nat \<Rightarrow> (nat \<Rightarrow> ('s, 'a) op) \<Rightarrow> (('d, 'r) bench \<times> 's, 'a list) op" where
  "measured label count step =
     op_bind (on_run bench_now) (\<lambda>start.
     op_bind (op_map (\<lambda>index. timed (step index)) [0..<count]) (\<lambda>timings.
     op_bind (on_run bench_now) (\<lambda>finish.
     op_bind (on_run (render_result label count (finish - start) (map fst timings))) (\<lambda>_.
     op_ret (map snd timings)))))"

section \<open>The engine\<close>

definition pad8 :: "nat \<Rightarrow> bytes" where
  "pad8 n = replicate (8 - length (dec_nat n)) 48 @ dec_nat n"

definition create_key :: "nat \<Rightarrow> bytes" where
  "create_key index = str ''bench:'' @ pad8 index"

definition create_value :: "nat \<Rightarrow> bytes" where
  "create_value n = replicate n 0x42"

text \<open>The loop that fills a store before its reads are measured.\<close>

definition fill :: "'st data_bus \<Rightarrow> (nat \<Rightarrow> bytes) \<Rightarrow> bytes \<Rightarrow> nat \<Rightarrow> ('st, unit) op" where
  "fill bus key value count = op_each (\<lambda>index. bus_write_value bus (key index) value) [0..<count]"

definition transient_count :: nat where
  "transient_count = 100000"

definition check_transient_write :: "(nat \<Rightarrow> instant) \<Rightarrow> (('d, 'r) bench, unit list) op" where
  "check_transient_write clock =
     with_store (create_tric clock)
       (measured (str ''transient write (128B)'') transient_count (\<lambda>index. tric_write_value (create_key index) (create_value 128)))"

definition check_transient_read :: "(nat \<Rightarrow> instant) \<Rightarrow> (('d, 'r) bench, bytes option list) op" where
  "check_transient_read clock =
     with_store (create_tric clock)
       (op_bind (on_store (fill tric_bus create_key (create_value 128) transient_count)) (\<lambda>_.
        measured (str ''transient read (128B)'') transient_count (\<lambda>index. tric_read_value (create_key index))))"

definition check_transient_mixed :: "(nat \<Rightarrow> instant) \<Rightarrow> (('d, 'r) bench, unit list) op" where
  "check_transient_mixed clock =
     with_store (create_tric clock)
       (measured (str ''transient mixed 50/50 (128B)'') transient_count (\<lambda>index.
          if index mod 2 = 0 then tric_write_value (create_key index) (create_value 128)
          else op_bind (tric_read_value (create_key (index - 1))) (\<lambda>_. op_ret ())))"

definition scan_key :: "nat \<Rightarrow> bytes" where
  "scan_key index = str ''scan:'' @ pad8 index"

definition check_scan :: "(nat \<Rightarrow> instant) \<Rightarrow> (('d, 'r) bench, (bytes \<times> bytes) list list) op" where
  "check_scan clock =
     with_store (create_tric clock)
       (op_bind (on_store (fill tric_bus scan_key (create_value 64) 10000)) (\<lambda>_.
        measured (str ''scan (10k entries)'') 1000 (\<lambda>_. tric_find_by_prefix (str ''scan:''))))"

text \<open>The writers of \<open>check_concurrent_write\<close>: each call of the shared handle is one critical section.\<close>

definition concurrent_key :: "nat \<Rightarrow> nat \<Rightarrow> bytes" where
  "concurrent_key thread_id index = str ''conc:'' @ dec_nat thread_id @ str '':'' @ pad8 index"

primrec concurrent_writer :: "nat \<Rightarrow> nat list \<Rightarrow> (tric, unit) thread" where
  "concurrent_writer thread_id [] = Halt (Ret ())"
| "concurrent_writer thread_id (index # rest) =
     atomic (tric_write_value (concurrent_key thread_id index) (create_value 128)) (\<lambda>_. concurrent_writer thread_id rest)"

definition concurrent_writers :: "nat \<Rightarrow> nat \<Rightarrow> (tric, unit) thread list" where
  "concurrent_writers thread_count operations_per_thread =
     map (\<lambda>thread_id. concurrent_writer thread_id [0..<operations_per_thread]) [0..<thread_count]"

section \<open>The two-tier bus\<close>

text \<open>\<open>bm_remove_dir\<close> is \<open>remove_dir_all\<close>, whose errors are ignored.\<close>

record ('d, 'r) bench_machine =
  bm_machine :: "'d machine"
  bm_remove_dir :: "bytes \<Rightarrow> 'd \<Rightarrow> 'd"
  bm_socket :: "'r admin_socket"
  bm_timeout_set :: bool

definition bench_dir :: "('d, 'r) bench_machine \<Rightarrow> bytes" where
  "bench_dir bm = str ''/tmp/tric-benchmark-run-'' @ dec_nat (ma_pid (bm_machine bm))"

definition remove_bench_dir :: "('d, 'r) bench_machine \<Rightarrow> (('d, 'r) bench, unit) op" where
  "remove_bench_dir bm = op_modify (\<lambda>b. b\<lparr>be_disk := bm_remove_dir bm (bench_dir bm) (be_disk b)\<rparr>)"

text \<open>A benchmark on a new bus: the disk is part of the bus while it is open.\<close>

definition with_bench_bus ::
  "('d, 'r) bench_machine \<Rightarrow> (nat \<Rightarrow> instant) \<Rightarrow> (('d, 'r) bench \<times> 'd permutive, 'a) op \<Rightarrow> (('d, 'r) bench, 'a) op" where
  "with_bench_bus bm clock m =
     op_bind (remove_bench_dir bm) (\<lambda>_.
     op_bind (\<lambda>b.
       case create_permutive_bus (ma_engine (bm_machine bm)) clock (bench_dir bm) (str ''bench'') 0 (be_disk b) of
         Ret bus \<Rightarrow> (case m (b, bus) of (r, (b, bus)) \<Rightarrow> (r, b\<lparr>be_disk := sb_disk (pm_persistent bus)\<rparr>))
       | Panicked \<Rightarrow> (Panicked, b)
       | Exited c \<Rightarrow> (Exited c, b)) (\<lambda>x.
     op_bind (remove_bench_dir bm) (\<lambda>_. op_ret x)))"

definition persistent_count :: nat where
  "persistent_count = 10000"

definition bench_bus :: "('d, 'r) bench_machine \<Rightarrow> 'd permutive data_bus" where
  "bench_bus bm = permutive_bus (ma_engine (bm_machine bm))"

definition check_persistent_write :: "('d, 'r) bench_machine \<Rightarrow> (nat \<Rightarrow> instant) \<Rightarrow> (('d, 'r) bench, unit list) op" where
  "check_persistent_write bm clock =
     with_bench_bus bm clock
       (measured (str ''persistent write (128B, SQLite WAL)'') persistent_count
         (\<lambda>index. bus_write_value (bench_bus bm) (create_key index) (create_value 128)))"

definition check_persistent_read :: "('d, 'r) bench_machine \<Rightarrow> (nat \<Rightarrow> instant) \<Rightarrow> (('d, 'r) bench, bytes option list) op" where
  "check_persistent_read bm clock =
     with_bench_bus bm clock
       (op_bind (on_store (fill (bench_bus bm) create_key (create_value 128) persistent_count)) (\<lambda>_.
        measured (str ''persistent read (128B, SQLite)'') persistent_count (\<lambda>index. bus_read_value (bench_bus bm) (create_key index))))"

definition check_cache_promoted_read :: "('d, 'r) bench_machine \<Rightarrow> (nat \<Rightarrow> instant) \<Rightarrow> (('d, 'r) bench, bytes option list) op" where
  "check_cache_promoted_read bm clock =
     with_bench_bus bm clock
       (op_bind (on_store (fill (bench_bus bm) create_key (create_value 128) persistent_count)) (\<lambda>_.
        op_bind (on_store (op_map (\<lambda>index. bus_read_value (bench_bus bm) (create_key index)) [0..<persistent_count])) (\<lambda>_.
        measured (str ''cache-promoted read (128B)'') persistent_count (\<lambda>index. bus_read_value (bench_bus bm) (create_key index)))))"

section \<open>A running server\<close>

text \<open>The world outside, with the server and Redis in it, as the store of a benchmark.\<close>

definition with_remote :: "(('d, 'r) bench \<times> 'r, 'a) op \<Rightarrow> (('d, 'r) bench, 'a) op" where
  "with_remote m = (\<lambda>b. case m (b, be_remote b) of (r, (b, remote)) \<Rightarrow> (r, b\<lparr>be_remote := remote\<rparr>))"

text \<open>Sending a datagram and receiving one into \<open>n\<close> bytes; errors of both are ignored.\<close>

definition exchange :: "'r admin_socket \<Rightarrow> nat \<Rightarrow> bytes \<Rightarrow> ('r, bytes option) op" where
  "exchange sk n datagram =
     (\<lambda>r. case as_recv sk (snd (as_send sk datagram r)) of
        (Inr received, r) \<Rightarrow> (Ret (Some (take n received)), r)
      | (Inl _, r) \<Rightarrow> (Ret None, r))"

definition server_write_datagram :: "nat \<Rightarrow> bytes" where
  "server_write_datagram index =
     (let key = create_key index; value = create_value 128
      in u32_to_be_bytes (of_nat index) @ [0x02] @ u32_to_be_bytes (len_u32 key) @ key
         @ u32_to_be_bytes (len_u32 value) @ value)"

definition server_read_datagram :: "nat \<Rightarrow> bytes" where
  "server_read_datagram index =
     (let key = create_key index in u32_to_be_bytes (of_nat index) @ [0x01] @ u32_to_be_bytes (len_u32 key) @ key)"

definition server_count :: nat where
  "server_count = 50000"

fun report_lines :: "bytes list \<Rightarrow> (('d, 'r) bench, unit) op" where
  "report_lines [] = op_ret ()"
| "report_lines (line # lines) = op_bind (report (Line line)) (\<lambda>_. report_lines lines)"

definition check_tric_server :: "('d, 'r) bench_machine \<Rightarrow> (('d, 'r) bench, unit) op" where
  "check_tric_server bm =
     (let sk = bm_socket bm; ma = bm_machine bm
      in if as_bind sk (str ''/tmp/tric-bench-srv-'' @ dec_nat (ma_pid ma) @ str ''.sock'') \<noteq> None then
           report_lines [str ''  Cannot bind client socket. Skipping server benchmark.'']
         else if \<not> as_connect sk (socket_dir ma @ str ''/server.sock'') then
           report_lines [str ''  TRIC+ server is not running. To include server benchmark:'', [],
             str ''    Start the server first:  tric server &'', str ''    Then re-run:             tric benchmark'']
         else if \<not> bm_timeout_set bm then op_panic
         else
           op_bind (with_remote (measured (str ''server write (128B, UDS DGRAM)'') server_count
             (\<lambda>index. exchange sk 64 (server_write_datagram index)))) (\<lambda>_.
           op_bind (with_remote (measured (str ''server read (128B, UDS DGRAM)'') server_count
             (\<lambda>index. exchange sk 256 (server_read_datagram index)))) (\<lambda>_. op_ret ())))"

text \<open>Redis: opening a connection, and the two commands, whose results are ignored.\<close>

record 'r redis =
  rd_open :: "bytes \<Rightarrow> 'r \<Rightarrow> bool \<times> 'r"
  rd_set :: "bytes \<Rightarrow> bytes \<Rightarrow> 'r \<Rightarrow> 'r"
  rd_get :: "bytes \<Rightarrow> 'r \<Rightarrow> 'r"

definition redis_url :: "'d machine \<Rightarrow> bytes" where
  "redis_url ma = var_or ma (str ''REDIS_URL'') (str ''redis://127.0.0.1/'')"

definition try_redis_connection :: "'r redis \<Rightarrow> bytes \<Rightarrow> (('d, 'r) bench, bool) op" where
  "try_redis_connection rd url = (\<lambda>b. case rd_open rd url (be_remote b) of (ok, r) \<Rightarrow> (Ret ok, b\<lparr>be_remote := r\<rparr>))"

definition check_redis_write :: "'r redis \<Rightarrow> (('d, 'r) bench, unit) op" where
  "check_redis_write rd =
     op_bind (with_remote (measured (str ''redis write (128B, TCP localhost)'') transient_count
       (\<lambda>index. op_modify (rd_set rd (create_key index) (create_value 128))))) (\<lambda>_. op_ret ())"

definition check_redis_read :: "'r redis \<Rightarrow> (('d, 'r) bench, unit) op" where
  "check_redis_read rd =
     op_bind (with_remote (measured (str ''redis read (128B, TCP localhost)'') transient_count
       (\<lambda>index. op_modify (rd_get rd (create_key index))))) (\<lambda>_. op_ret ())"

definition redis_missing :: "bytes list" where
  "redis_missing =
     [str ''  Redis is not running. To include Redis comparison:'', [],
      str ''    macOS:    brew install redis && redis-server --daemonize yes'',
      str ''    FreeBSD:  pkg install redis && redis-server --daemonize yes --bind 127.0.0.1 --protected-mode no'',
      str ''    Linux:    apt install redis-server && redis-server --daemonize yes'', [],
      str ''  Then re-run:  tric benchmark'',
      str ''  With auth:    REDIS_URL='' @ [34] @ str ''redis://:password@host/'' @ [34] @ str '' tric benchmark'']"

definition check_redis :: "'d machine \<Rightarrow> 'r redis \<Rightarrow> (('d, 'r) bench, unit) op" where
  "check_redis ma rd =
     op_bind (try_redis_connection rd (redis_url ma)) (\<lambda>connected.
     if \<not> connected then report_lines redis_missing
     else
       op_bind (check_redis_write rd) (\<lambda>_.
       op_bind (try_redis_connection rd (redis_url ma)) (\<lambda>connected.
       if \<not> connected then op_panic else check_redis_read rd)))"

section \<open>The whole run\<close>

text \<open>
  \<open>check_concurrent_write\<close>: the system runs the threads in some order, and then the code waits for each
  of them; a panic of a thread is a panic of \<open>unwrap\<close>. A schedule is the threads that take a step, in
  order; every interleaving has one.
\<close>

fun scheduled :: "nat list \<Rightarrow> 's \<times> ('s, 'a) thread list \<Rightarrow> 's \<times> ('s, 'a) thread list" where
  "scheduled [] c = c"
| "scheduled (i # is) (s, ts) =
     (if i < length ts then
        (case ts ! i of
           Step f \<Rightarrow> (case f s of (t, s) \<Rightarrow> scheduled is (s, ts[i := t]))
         | Halt _ \<Rightarrow> scheduled is (s, ts))
      else scheduled is (s, ts))"

lemma scheduled_interleaves: "interleave\<^sup>*\<^sup>* c (scheduled is c)"
proof (induction "is" c rule: scheduled.induct)
  case (2 i "is" s ts)
  show ?case
  proof (cases "i < length ts \<and> (\<exists>f. ts ! i = Step f)")
    case True
    then obtain f where f: "i < length ts" "ts ! i = Step f" by blast
    obtain t s' where t: "f s = (t, s')" by (cases "f s")
    have "interleave\<^sup>*\<^sup>* (s', ts[i := t]) (scheduled is (s', ts[i := t]))"
      by (rule "2.IH"(2)[OF f t[symmetric]])
    with interleave_step[OF f t] show ?thesis using f t by (simp add: converse_rtranclp_into_rtranclp)
  next
    case False
    then show ?thesis using 2 by (cases "ts ! i") auto
  qed
qed simp

definition run_concurrent_writers :: "nat list \<Rightarrow> (tric, unit) op" where
  "run_concurrent_writers schedule =
     (\<lambda>s. case scheduled schedule (s, concurrent_writers 4 25000) of (s, threads) \<Rightarrow> op_each run_thread threads s)"

definition check_concurrent_write :: "nat list \<Rightarrow> (nat \<Rightarrow> instant) \<Rightarrow> (('d, 'r) bench, unit) op" where
  "check_concurrent_write schedule clock =
     with_store (create_tric clock)
       (op_bind (on_run bench_now) (\<lambda>start.
        op_bind (on_store (run_concurrent_writers schedule)) (\<lambda>_.
        op_bind (on_run bench_now) (\<lambda>finish.
        on_run (report (Rate (str ''concurrent write (4T, 128B)'') (4 * 25000) (finish - start)))))))"

definition run_benchmark ::
  "('d, 'r) bench_machine \<Rightarrow> 'r redis \<Rightarrow> nat list \<Rightarrow> (nat \<Rightarrow> instant) \<Rightarrow> (('d, 'r) bench, unit) op" where
  "run_benchmark bm rd schedule clock =
     op_bind (report_lines [str ''TRIC+ Performance Benchmark'', str ''==========================='', [],
       str ''  Layer 1: In-process (library, no transport overhead)'',
       str ''  Layer 2: Server (UDS DGRAM, kernel context switch per operation)'',
       str ''  Layer 3: Redis (TCP localhost, full network stack per operation)'', [],
       str ''--- Layer 1: TRIC+ In-Process (library API, no transport) ---'', []]) (\<lambda>_.
     op_bind (check_transient_write clock) (\<lambda>_.
     op_bind (check_transient_read clock) (\<lambda>_.
     op_bind (check_transient_mixed clock) (\<lambda>_.
     op_bind (check_concurrent_write schedule clock) (\<lambda>_.
     op_bind (check_persistent_write bm clock) (\<lambda>_.
     op_bind (check_persistent_read bm clock) (\<lambda>_.
     op_bind (check_cache_promoted_read bm clock) (\<lambda>_.
     op_bind (check_scan clock) (\<lambda>_.
     op_bind (report_lines [[], str ''--- Layer 2: TRIC+ Server (UDS DGRAM, per-datagram roundtrip) ---'', []]) (\<lambda>_.
     op_bind (check_tric_server bm) (\<lambda>_.
     op_bind (report_lines [[], str ''--- Layer 3: Redis (TCP localhost, per-command roundtrip) ---'', []]) (\<lambda>_.
     op_bind (check_redis (bm_machine bm) rd) (\<lambda>_.
     report_lines [[], str ''Methodology: Each operation is a synchronous roundtrip (send + wait for'',
       str ''response). No pipelining, no batching. 128-byte values. Single client thread.'',
       str ''Layer 1 measures raw engine speed. Layers 2 and 3 measure real-world server'',
       str ''throughput including transport overhead. All three layers on the same machine.''])))))))))))))"

section \<open>The figures\<close>

text \<open>The figures of a benchmark are in order, whatever the latencies are: the median is at most the 95th
  percentile, that at most the 99th, every percentile is one of the latencies, and the average lies
  between the least and the greatest latency. A benchmark without a call has no figures: it panics.\<close>

theorem benchmark_figures_ordered:
  assumes "latencies \<noteq> []"
  shows "let r = result_of label operations elapsed latencies
    in br_p50 r \<le> br_p95 r \<and> br_p95 r \<le> br_p99 r \<and> {br_p50 r, br_p95 r, br_p99 r} \<subseteq> set latencies \<and>
      Min (set latencies) \<le> br_average r \<and> br_average r \<le> Max (set latencies)"
proof -
  let ?l = "sort latencies" and ?n = "length latencies"
  have n: "0 < ?n" using assms by simp
  have ordered: "?l ! i \<le> ?l ! j" if "i \<le> j" "j < ?n" for i j using that by (intro sorted_nth_mono) simp_all
  have index: "?n div 2 \<le> ?n * 95 div 100" "?n * 95 div 100 \<le> ?n * 99 div 100" "?n * 99 div 100 < ?n" using n by linarith+
  have members: "?l ! i \<in> set latencies" if "i < ?n" for i using that nth_mem[of i ?l] by simp
  have "?n * Min (set latencies) \<le> sum_list latencies \<and> sum_list latencies \<le> ?n * Max (set latencies)"
  proof -
    have "length xs * Min (set latencies) \<le> sum_list xs \<and> sum_list xs \<le> length xs * Max (set latencies)"
      if "set xs \<subseteq> set latencies" for xs
      using that by (induction xs) (auto intro: add_mono)
    then show ?thesis by simp
  qed
  then have "Min (set latencies) \<le> sum_list latencies div ?n \<and> sum_list latencies div ?n \<le> Max (set latencies)"
    using n by (metis div_le_mono mult.commute nonzero_mult_div_cancel_right less_numeral_extra(3))
  then show ?thesis
    using ordered index members by (simp add: result_of_def Let_def)
qed

lemma benchmark_figures_ordered_witness:
  "let r = result_of [] 3 60 [30, 10, 20]
    in br_p50 r \<le> br_p95 r \<and> br_p95 r \<le> br_p99 r \<and> {br_p50 r, br_p95 r, br_p99 r} \<subseteq> set [30, 10, 20] \<and>
      Min (set [30, 10, 20]) \<le> br_average r \<and> br_average r \<le> Max (set [30, 10, 20])"
  by (rule benchmark_figures_ordered) simp

section \<open>What the reads find\<close>

text \<open>Timing changes neither what the calls do nor the disk and the world outside.\<close>

definition same_world :: "('d, 'r) bench \<Rightarrow> ('d, 'r) bench \<Rightarrow> bool" where
  "same_world b b' \<longleftrightarrow> be_disk b' = be_disk b \<and> be_remote b' = be_remote b \<and> be_clock b' = be_clock b"

lemma returns_timed:
  assumes "returns m s Q"
  shows "returns (timed m) (b, s) (\<lambda>x (b', s'). Q (snd x) s' \<and> same_world b b')"
  using assms
  by (auto simp: timed_def on_run_def on_store_def bench_now_def op_on_def same_world_def returns_def op_bind_def op_simps
      split: prod.splits outcome.splits)

lemma returns_timed_map:
  fixes step :: "'i \<Rightarrow> ('s, 'a) op" and b :: "('d, 'r) bench"
  assumes "returns (op_map step is) s Q"
  shows "returns (op_map (\<lambda>i. timed (step i)) is) (b, s) (\<lambda>xs (b', s'). length xs = length is \<and> Q (map snd xs) s' \<and> same_world b b')"
  using assms
proof (induction "is" arbitrary: b s Q)
  case Nil
  then show ?case by (simp add: wp same_world_def)
next
  case (Cons i "is")
  from Cons.prems have "returns (step i) s (\<lambda>x s'. returns (op_map step is) s' (\<lambda>xs s''. Q (x # xs) s''))"
    by (simp add: wp)
  from returns_timed[OF this, of b] show ?case
    unfolding op_map.simps returns_bind
  proof (rule returns_mono)
    fix x :: "nat \<times> 'a" and bs
    assume "case bs of (b', s') \<Rightarrow> returns (op_map step is) s' (\<lambda>xs s''. Q (snd x # xs) s'') \<and> same_world b b'"
    then obtain b' s' where bs: "bs = (b', s')" "same_world b b'"
      and rest: "returns (op_map step is) s' (\<lambda>xs s''. Q (snd x # xs) s'')" by (cases bs) auto
    show "returns (op_map (\<lambda>i. timed (step i)) is) bs (\<lambda>xs bs. returns (op_ret (x # xs)) bs
        (\<lambda>xs (b', s'). length xs = length (i # is) \<and> Q (map snd xs) s' \<and> same_world b b'))"
      unfolding bs(1) by (rule returns_mono[OF Cons.IH[OF rest]]) (use bs(2) in \<open>auto simp: wp same_world_def\<close>)
  qed
qed

lemma returns_measured:
  fixes step :: "nat \<Rightarrow> ('s, 'a) op" and b :: "('d, 'r) bench"
  assumes count: "0 < count" and run: "returns (op_map step [0..<count]) s Q"
  shows "returns (measured label count step) (b, s) (\<lambda>values (b', s'). Q values s' \<and> same_world b b')"
proof -
  let ?b = "b\<lparr>be_ticks := Suc (be_ticks b)\<rparr>"
  have clock: "returns (on_run bench_now) (c, t) (\<lambda>_ x. x = (c\<lparr>be_ticks := Suc (be_ticks c)\<rparr>, t))" for c :: "('d, 'r) bench" and t :: 's
    by (simp add: on_run_def bench_now_def op_on_def returns_def)
  show ?thesis
    unfolding measured_def returns_bind
  proof (rule returns_mono[OF clock], elim ssubst, rule returns_mono[OF returns_timed_map[OF run]], elim case_prodE conjE)
    fix start and xs :: "(nat \<times> 'a) list" and bs b' s'
    assume xs: "length xs = length [0..<count]" "Q (map snd xs) s'" and same: "same_world ?b b'" and bs: "bs = (b', s')"
    have "xs \<noteq> []" using xs(1) count by auto
    then have report: "returns (on_run (render_result label count d (map fst xs))) (c, s')
        (\<lambda>_ x. same_world c (fst x) \<and> snd x = s')" for d and c :: "('d, 'r) bench"
      by (simp add: render_result_def report_def on_run_def op_on_def returns_def op_simps same_world_def)
    show "returns (on_run bench_now) bs (\<lambda>finish s''. returns (on_run (render_result label count (finish - start) (map fst xs))) s''
        (\<lambda>_ s''. returns (op_ret (map snd xs)) s'' (\<lambda>values (b', s'). Q values s' \<and> same_world b b')))"
      unfolding bs
      by (rule returns_mono[OF clock], elim ssubst, rule returns_mono[OF report])
        (use same xs(2) in \<open>auto simp: wp same_world_def\<close>)
  qed
qed

text \<open>A bus holds a value under some keys, now and at every later time.\<close>

definition holds ::
  "('st \<Rightarrow> bool) \<Rightarrow> ('st \<Rightarrow> instant) \<Rightarrow> ('st \<Rightarrow> instant \<Rightarrow> bytes \<Rightarrow> bytes option) \<Rightarrow> bytes set \<Rightarrow> bytes \<Rightarrow> 'st \<Rightarrow> bool" where
  "holds good now view K v s \<longleftrightarrow> good s \<and> (\<forall>t k. now s \<le> t \<longrightarrow> k \<in> K \<longrightarrow> view s t k = Some v)"

context kv_bus begin

lemma write_holds:
  assumes "holds good now view K v s" and "storable k"
  shows "returns (bus_write_value bus k v) s (\<lambda>_. holds good now view (insert k K) v)"
  by (rule returns_mono[OF write_law]) (use assms in \<open>auto simp: holds_def bus_step_def\<close>)

lemma read_holds:
  assumes "holds good now view K v s" and "k \<in> K"
  shows "returns (bus_read_value bus k) s (\<lambda>r s'. r = Some v \<and> holds good now view K v s')"
  by (rule returns_mono[OF read_law]) (use assms in \<open>auto simp: holds_def bus_step_def\<close>)

lemma fill_holds:
  assumes "good s" and "\<And>i. storable (key i)"
  shows "returns (fill bus key v count) s (\<lambda>_. holds good now view (key ` {..<count}) v)"
proof -
  have "returns (op_each (\<lambda>i. bus_write_value bus (key i) v) [0..<count]) s (\<lambda>_ s'. holds good now view (key ` set [0..<count]) v s')"
  proof (rule returns_each[where I = "\<lambda>xs s. holds good now view (key ` set xs) v s"])
    show "holds good now view (key ` set []) v s" using assms(1) by (simp add: holds_def)
    show "returns (bus_write_value bus (key i) v) s' (\<lambda>_. holds good now view (key ` set (xs @ [i])) v)"
      if "holds good now view (key ` set xs) v s'" for xs i s'
      using write_holds[OF that assms(2)[of i]] by simp
  qed
  then show ?thesis by (simp add: fill_def lessThan_atLeast0)
qed

lemma reads_hit:
  assumes "holds good now view K v s" and "\<And>i. i \<in> set is \<Longrightarrow> key i \<in> K"
  shows "returns (op_map (\<lambda>i. bus_read_value bus (key i)) is) s
    (\<lambda>rs s'. rs = replicate (length is) (Some v) \<and> holds good now view K v s')"
  using assms
proof (induction "is" arbitrary: s)
  case Nil
  then show ?case by (simp add: wp)
next
  case (Cons i "is")
  have "key i \<in> K" using Cons.prems(2) by simp
  from read_holds[OF Cons.prems(1) this] show ?case
    unfolding op_map.simps returns_bind
    by (rule returns_mono, elim conjE, intro returns_mono[OF Cons.IH]) (use Cons.prems(2) in \<open>auto simp: wp\<close>)
qed

lemma measured_reads_hit:
  assumes "holds good now view (key ` {..<count}) v s" and "0 < count"
  shows "returns (measured label count (\<lambda>i. bus_read_value bus (key i))) (b, s)
    (\<lambda>values (b', s'). values = replicate count (Some v) \<and> same_world b b')"
  by (rule returns_mono[OF returns_measured[OF assms(2) reads_hit[OF assms(1)]]]) auto

end

lemma bench_key_storable: "storable_key (create_key i)"
proof -
  have ascii: "b \<le> 0x7F \<and> b \<noteq> 58" if "b \<in> set (pad8 i)" for b
    using that dec_nat_digits[of b i] by (auto simp: pad8_def word_le_nat_alt)
  have bench: "b \<le> 0x7F" if "b \<in> set (str ''bench:'')" for b using that by (auto simp: str_def word_le_nat_alt)
  have "utf8_valid (create_key i)"
    using ascii bench by (intro utf8_valid_ascii) (auto simp: create_key_def simp del: str_simps)
  then have "parse_namespace (create_key i) = str ''bench''"
    by (simp add: parse_namespace_def from_utf8_def create_key_def)
  moreover have "utf8_valid (str ''bench'')" by (rule utf8_valid_ascii) (auto simp: str_def word_le_nat_alt)
  ultimately show ?thesis by (simp add: storable_key_def plain_namespace_def)
qed

lemma returns_with_store: "returns m (b, s) (\<lambda>x (b', _). Q x b') \<Longrightarrow> returns (with_store s m) b Q"
  by (auto simp: with_store_def returns_def split: prod.splits outcome.splits)

lemma returns_on_store: "returns m s Q \<Longrightarrow> returns (on_store m) (b, s) (\<lambda>x (b', s'). b' = b \<and> Q x s')"
  by (auto simp: on_store_def op_on_def returns_def split: prod.splits outcome.splits)

lemma counts_positive: "0 < transient_count" "0 < persistent_count"
  by (simp_all add: transient_count_def persistent_count_def)

lemma transient_reads_hit:
  assumes "clock_ok clock"
  shows "returns (check_transient_read clock) b (\<lambda>values b'. values = replicate transient_count (Some (create_value 128)) \<and> same_world b b')"
proof -
  have start: "tric_inv (create_tric clock)" using assms by (simp add: create_tric_inv)
  show ?thesis
    unfolding check_transient_read_def
  proof (rule returns_with_store, unfold returns_bind,
      rule returns_mono[OF returns_on_store[OF tb.fill_holds[OF start TrueI]]], elim case_prodE conjE)
    fix u bs b' s'
    assume "bs = (b', s')" "b' = b" and "holds tric_inv tric_now tric_view (create_key ` {..<transient_count}) (create_value 128) s'"
    from tb.measured_reads_hit[OF this(3) counts_positive(1), of "str ''transient read (128B)''" b] this(1,2)
    show "returns (measured (str ''transient read (128B)'') transient_count (\<lambda>index. tric_read_value (create_key index))) bs
        (\<lambda>x (b', _). x = replicate transient_count (Some (create_value 128)) \<and> same_world b b')"
      by (simp add: tric_bus_def)
  qed
qed

text \<open>On a new bus of the benchmark a run leaves the directory removed.\<close>

lemma returns_with_bench_bus:
  assumes "create_permutive_bus (ma_engine (bm_machine bm)) clock (bench_dir bm) (str ''bench'') 0
      (bm_remove_dir bm (bench_dir bm) (be_disk b)) = Ret P"
    and "\<And>b'. returns m (b', P) (\<lambda>x _. Q x)"
  shows "returns (with_bench_bus bm clock m) b (\<lambda>x _. Q x)"
proof -
  obtain x bs where "m (b\<lparr>be_disk := bm_remove_dir bm (bench_dir bm) (be_disk b)\<rparr>, P) = (Ret x, bs)" "Q x"
    by (rule returnsE[OF assms(2)])
  moreover obtain b' P' where "bs = (b', P')" by (cases bs)
  ultimately have "m (b\<lparr>be_disk := bm_remove_dir bm (bench_dir bm) (be_disk b)\<rparr>, P) = (Ret x, (b', P'))" "Q x" by simp_all
  with assms(1) show ?thesis
    by (simp add: with_bench_bus_def remove_bench_dir_def returns_def op_bind_def op_simps del: str_simps)
qed

lemma persistent_reads_hit:
  fixes bm :: "('d, 'r) bench_machine" and b :: "('d, 'r) bench"
  assumes P: "create_permutive_bus (ma_engine (bm_machine bm)) clock (bench_dir bm) (str ''bench'') 0
      (bm_remove_dir bm (bench_dir bm) (be_disk b)) = Ret P" "permutive_inv (ma_engine (bm_machine bm)) P"
  shows "returns (check_persistent_read bm clock) b (\<lambda>values _. values = replicate persistent_count (Some (create_value 128)))"
    and "returns (check_cache_promoted_read bm clock) b (\<lambda>values _. values = replicate persistent_count (Some (create_value 128)))"
proof -
  let ?bus = "bench_bus bm" and ?v = "create_value 128" and ?K = "create_key ` {..<persistent_count}"
  let ?holds = "holds (permutive_inv (ma_engine (bm_machine bm))) permutive_now (permutive_view (ma_engine (bm_machine bm))) ?K ?v"
  note fill = returns_on_store[OF pb.fill_holds[where key = create_key, OF P(2) bench_key_storable]]
  have reads: "returns (measured label persistent_count (\<lambda>i. bus_read_value ?bus (create_key i))) bs
      (\<lambda>values _. values = replicate persistent_count (Some ?v))" if "?holds s'" "bs = (b', s')" for label bs b' s'
    unfolding that(2) bench_bus_def
    by (rule returns_mono[OF pb.measured_reads_hit[OF that(1) counts_positive(2)]]) auto
  show "returns (check_persistent_read bm clock) b (\<lambda>values _. values = replicate persistent_count (Some ?v))"
    unfolding check_persistent_read_def bench_bus_def
    by (rule returns_with_bench_bus[OF P(1)], unfold returns_bind, rule returns_mono[OF fill])
      (auto intro: reads[unfolded bench_bus_def] simp del: permutive_bus_simps str_simps)
  show "returns (check_cache_promoted_read bm clock) b (\<lambda>values _. values = replicate persistent_count (Some ?v))"
    unfolding check_cache_promoted_read_def bench_bus_def
  proof (rule returns_with_bench_bus[OF P(1)], unfold returns_bind, rule returns_mono[OF fill], elim case_prodE conjE)
    fix b' u and bs :: "('d, 'r) bench \<times> 'd permutive" and b1 s1
    assume bs: "bs = (b1, s1)" and held: "?holds s1"
    have member: "create_key i \<in> ?K" if "i \<in> set [0..<persistent_count]" for i using that by simp
    show "returns (on_store (op_map (\<lambda>index. bus_read_value (permutive_bus (ma_engine (bm_machine bm))) (create_key index))
          [0..<persistent_count])) bs (\<lambda>_ s'. returns (measured (str ''cache-promoted read (128B)'') persistent_count
          (\<lambda>index. bus_read_value (permutive_bus (ma_engine (bm_machine bm))) (create_key index))) s'
          (\<lambda>values _. values = replicate persistent_count (Some ?v)))"
      unfolding bs
      by (rule returns_mono[OF returns_on_store[OF pb.reads_hit[OF held member]]]) (auto intro: reads[unfolded bench_bus_def] simp del: permutive_bus_simps str_simps)
  qed
qed

text \<open>The read benchmarks measure what they say: every read of the transient store, of the new two-tier bus
  and of the bus whose cache has been filled finds the value that was written, and none of the
  calls panics, so each benchmark comes to its figures.\<close>

theorem benchmark_reads_hit:
  assumes clock: "clock_ok clock" and "create_permutive_bus (ma_engine (bm_machine bm)) clock (bench_dir bm) (str ''bench'') 0
      (bm_remove_dir bm (bench_dir bm) (be_disk b)) = Ret P" and "permutive_inv (ma_engine (bm_machine bm)) P"
  shows "returns (check_transient_read clock) b (\<lambda>values _. values = replicate transient_count (Some (create_value 128))) \<and>
    returns (check_persistent_read bm clock) b (\<lambda>values _. values = replicate persistent_count (Some (create_value 128))) \<and>
    returns (check_cache_promoted_read bm clock) b (\<lambda>values _. values = replicate persistent_count (Some (create_value 128)))"
  using persistent_reads_hit[OF assms(2,3)] returns_mono[OF transient_reads_hit[OF clock]] by fast

definition sample_bench_machine :: "(mem_disk, unit) bench_machine" where
  "sample_bench_machine = \<lparr>bm_machine = sample_machine, bm_remove_dir = (\<lambda>_ _. []), bm_socket = no_socket, bm_timeout_set = True\<rparr>"

definition sample_bench :: "(mem_disk, unit) bench" where
  "sample_bench = \<lparr>be_clock = (\<lambda>_. 7), be_ticks = 0, be_out = [], be_disk = [], be_remote = ()\<rparr>"

lemma sample_bench_bus:
  "\<exists>P. create_permutive_bus mem_sqlite (\<lambda>_. 7) dir (str ''bench'') 0 [] = Ret P \<and> permutive_inv mem_sqlite P"
proof -
  let ?S = "\<lparr>sb_directory = instance_dir dir (str ''bench'') 0, sb_databases = [], sb_poisoned = False, sb_disk = []\<rparr> :: mem_disk sqlite_bus"
  have empty: "sq_select mem_sqlite p k [] = None" "db_listing mem_sqlite d [] = {}" for p k d
    by (simp_all add: mem_sqlite_def mem_table_def db_listing_def)
  have inv: "sqlite_inv mem_sqlite ?S" by (simp add: sqlite_inv_def mem_sqlite_laws empty)
  have laws: "sqlite_restart_laws mem_sqlite (sb_directory ?S) (sb_disk ?S)"
    by (rule mem_restart) (simp add: empty)
  have dir: "instance_dir dir (str ''bench'') 0 = sb_directory ?S" by (simp del: str_simps)
  have free: "\<forall>k. prefix (str ''_instance:'') k \<or> parse_namespace k = [] \<longrightarrow> sqlite_view mem_sqlite ?S 0 k = None"
    by (simp add: sqlite_view_def)
  obtain P where "create_permutive_bus mem_sqlite (\<lambda>_. 7) dir (str ''bench'') 0 (sb_disk ?S) = Ret P" "permutive_inv mem_sqlite P"
    by (rule restart_bus[OF inv laws dir const_clock free]) (rule that)
  then show ?thesis by (simp del: str_simps)
qed

lemma benchmark_reads_hit_witness:
  "returns (check_transient_read (\<lambda>_. 7)) sample_bench (\<lambda>values _. values = replicate transient_count (Some (create_value 128))) \<and>
    returns (check_persistent_read sample_bench_machine (\<lambda>_. 7)) sample_bench
      (\<lambda>values _. values = replicate persistent_count (Some (create_value 128))) \<and>
    returns (check_cache_promoted_read sample_bench_machine (\<lambda>_. 7)) sample_bench
      (\<lambda>values _. values = replicate persistent_count (Some (create_value 128)))"
proof -
  obtain P where P: "create_permutive_bus mem_sqlite (\<lambda>_. 7) (bench_dir sample_bench_machine) (str ''bench'') 0 [] = Ret P"
    "permutive_inv mem_sqlite P" using sample_bench_bus by metis
  have "ma_engine (bm_machine sample_bench_machine) = mem_sqlite" by (simp add: sample_bench_machine_def sample_vars)
  moreover have "bm_remove_dir sample_bench_machine (bench_dir sample_bench_machine) (be_disk sample_bench) = []"
    by (simp add: sample_bench_machine_def)
  ultimately show ?thesis
    using P by (intro benchmark_reads_hit[where P = P] const_clock) (simp_all del: str_simps)
qed

section \<open>What the server answers to the write benchmark\<close>

lemma dec_nat_length: "n < 10 ^ k \<Longrightarrow> 0 < k \<Longrightarrow> length (dec_nat n) \<le> k"
proof (induction n arbitrary: k rule: dec_nat.induct)
  case (1 n)
  show ?case
  proof (cases "n < 10")
    case True
    with 1 show ?thesis by (simp add: dec_nat.simps[of n])
  next
    case False
    obtain j where k: "k = Suc j" "0 < j"
    proof (cases k)
      case (Suc j)
      with 1(2) False that show thesis by (cases j) auto
    qed (use 1(3) in simp)
    then have "n div 10 < 10 ^ j" using 1 by (simp add: less_mult_imp_div_less mult.commute)
    from 1(1)[OF False this k(2)] False k show ?thesis by (simp add: dec_nat.simps[of n])
  qed
qed

lemma pad8_length: "n < 10 ^ 8 \<Longrightarrow> length (pad8 n) = 8"
  using dec_nat_length[of n 8] by (simp add: pad8_def)

text \<open>The server write benchmark writes nothing: its datagrams end after the value and lack the lifetime
  that the router reads, so the server answers every one of them with the malformed error and leaves
  its storage as it is.\<close>

theorem server_write_benchmark_rejected:
  assumes "tric_inv (sv_core_bus s)" and "index < server_count"
  shows "returns (local_pass lib bus (Some (server_write_datagram index, peer)) start finish request) s (\<lambda>_ s'.
    sv_sent s' = sv_sent s @ [(peer, encode_local (create_error (of_nat index) 0xA1))] \<and> sv_storage s' = sv_storage s)"
proof -
  let ?k = "create_key index" and ?v = "create_value 128"
  let ?call = "Wire_Write ?k ?v 0" and ?payload = "field ?k @ field ?v"
  have k: "length ?k = 14" using assms(2) by (simp add: create_key_def pad8_length server_count_def)
  have datagram: "server_write_datagram index = u32_to_be_bytes (of_nat index) @ [wire_opcode ?call] @ ?payload"
    by (simp add: server_write_datagram_def Let_def field_def)
  have "length (server_write_datagram index) \<le> max_datagram"
    unfolding datagram by (simp add: k create_value_def max_datagram_def)
  then have decoded: "decode_local (take max_datagram (server_write_datagram index)) =
      Some \<lparr>rq_request_id = of_nat index, rq_opcode = wire_opcode ?call, rq_payload = ?payload, rq_is_local = True\<rparr>"
    unfolding datagram using datagram_parts[of "of_nat index" "wire_opcode ?call" ?payload] by (simp add: decode_local_def)
  have ok: "wire_call_ok ?call" by (simp add: wire_call_ok_def k create_value_def)
  have cut: "strict_prefix ?payload (wire_payload ?call)"
    using u64_to_be_bytes_nonempty by (simp add: strict_prefix_def)
  show ?thesis
    unfolding local_pass_def returns_bind option.case prod.case decode_into decoded bool.case dispatch_truncated[OF ok cut]
      count_metric_def on_storage_def returns_modify returns_get returns_on returns_ret encode_buffer
    by (rule returns_mono[OF returns_heartbeat[OF assms(1)]])
      (auto simp: wp send_to_def dest: arg_cong[of _ _ sv_sent] arg_cong[of _ _ sv_storage])
qed

lemma server_write_benchmark_rejected_witness:
  "returns (local_pass plain_sql (permutive_bus mem_sqlite) (Some (server_write_datagram 3, ())) 5 9 initial_request) sample_server
    (\<lambda>_ s'. sv_sent s' = sv_sent sample_server @ [((), encode_local (create_error (of_nat 3) 0xA1))] \<and>
      sv_storage s' = sv_storage sample_server)"
  by (rule server_write_benchmark_rejected)
    (simp_all add: sample_server_def create_tric_inv const_clock server_count_def)

section \<open>The concurrent writers\<close>

text \<open>
  In every state of a run: each thread has written the keys before those that are left, and they are
  there. All threads write the same value, so no step takes a key away.
\<close>

definition writers_at :: "nat \<Rightarrow> nat list \<Rightarrow> tric \<times> (tric, unit) thread list \<Rightarrow> bool" where
  "writers_at n ps c \<longleftrightarrow> length ps = length (snd c) \<and>
     (\<forall>i < length ps. ps ! i \<le> n \<and> snd c ! i = concurrent_writer i [ps ! i..<n]) \<and>
     holds tric_inv tric_now tric_view {concurrent_key i j | i j. i < length ps \<and> j < ps ! i} (create_value 128) (fst c)"

lemma writers_at_step:
  assumes at: "writers_at n ps c" and step: "interleave c c'"
  shows "\<exists>i < length ps. writers_at n (ps[i := Suc (ps ! i)]) c'"
proof -
  obtain s ts where c: "c = (s, ts)" by (cases c)
  obtain i f t s' where i: "i < length ts" "ts ! i = Step f" "f s = (t, s')" "c' = (s', ts[i := t])"
    using step unfolding c by (rule interleave_cases) auto
  let ?K = "{concurrent_key i j | i j. i < length ps \<and> j < ps ! i}" and ?v = "create_value 128"
  have at': "length ps = length ts" "i < length ps" "ps ! i \<le> n" "ts ! i = concurrent_writer i [ps ! i..<n]"
    using at i(1) by (simp_all add: writers_at_def c)
  have held: "holds tric_inv tric_now tric_view ?K ?v s"
    using at unfolding writers_at_def c fst_conv snd_conv by blast
  have less: "ps ! i < n"
  proof (rule ccontr)
    assume "\<not> ps ! i < n"
    with at'(4) i(2) show False by simp
  qed
  then have writer: "ts ! i = atomic (tric_write_value (concurrent_key i (ps ! i)) ?v) (\<lambda>_. concurrent_writer i [Suc (ps ! i)..<n])"
    using at'(4) by (simp add: upt_rec[of "ps ! i"])
  have "returns (tric_write_value (concurrent_key i (ps ! i)) ?v) s
      (\<lambda>_. holds tric_inv tric_now tric_view (insert (concurrent_key i (ps ! i)) ?K) ?v)"
    using tb.write_holds[OF held TrueI, of "concurrent_key i (ps ! i)"] by (simp add: tric_bus_def)
  then obtain u s1 where s1: "tric_write_value (concurrent_key i (ps ! i)) ?v s = (Ret u, s1)"
    "holds tric_inv tric_now tric_view (insert (concurrent_key i (ps ! i)) ?K) ?v s1" by (rule returnsE)
  have t: "t = concurrent_writer i [Suc (ps ! i)..<n]" "s' = s1"
    using i(2,3) s1(1) unfolding writer atomic_def by auto
  have "{concurrent_key a b | a b. a < length ps \<and> b < ps[i := Suc (ps ! i)] ! a} \<subseteq> insert (concurrent_key i (ps ! i)) ?K"
    using at'(2) by (auto simp: nth_list_update less_Suc_eq)
  with s1(2) have "holds tric_inv tric_now tric_view {concurrent_key a b | a b. a < length ps \<and> b < ps[i := Suc (ps ! i)] ! a} ?v s1"
    unfolding holds_def by blast
  then have "writers_at n (ps[i := Suc (ps ! i)]) c'"
    using at less i(4) t at'(1,2) by (auto simp: writers_at_def c nth_list_update)
  with at'(2) show ?thesis by blast
qed

lemma writers_at_run:
  assumes "clock_ok clock" and "(interleave ^^ steps) (create_tric clock, concurrent_writers t n) c"
  shows "\<exists>ps. writers_at n ps c \<and> length ps = t \<and> sum_list ps = steps"
  using assms(2)
proof (induction steps arbitrary: c)
  case 0
  have "holds tric_inv tric_now tric_view {} v (create_tric clock)" for v
    using assms(1) by (simp add: holds_def create_tric_inv)
  moreover have none: "{concurrent_key i j | i j. i < t \<and> j < replicate t 0 ! i} = {}" by auto
  have "c = (create_tric clock, concurrent_writers t n)" using 0 by simp
  ultimately have "writers_at n (replicate t 0) c"
    unfolding writers_at_def length_replicate none by (simp add: concurrent_writers_def)
  then show ?case by (intro exI[of _ "replicate t 0"]) (simp add: sum_list_replicate)
next
  case (Suc steps)
  then obtain c' where "(interleave ^^ steps) (create_tric clock, concurrent_writers t n) c'" "interleave c' c"
    by (auto elim!: relpowp_Suc_E)
  with Suc.IH obtain ps i where ps: "length ps = t" "sum_list ps = steps" "i < length ps" "writers_at n (ps[i := Suc (ps ! i)]) c"
    using writers_at_step by metis
  then show ?case
    using elem_le_sum_list[OF ps(3)] by (intro exI[of _ "ps[i := Suc (ps ! i)]"]) (simp add: sum_list_update)
qed

lemma sum_list_full:
  "(\<forall>x \<in> set xs. x \<le> n) \<Longrightarrow> sum_list xs \<le> length xs * n \<and> (sum_list xs = length xs * n \<longrightarrow> (\<forall>x \<in> set xs. x = n))" for n :: nat
  by (induction xs) fastforce+

text \<open>C32: No write is lost under concurrency: threads that write their keys through one handle of the
  transient store, in any interleaving, are done after exactly as many steps as there are keys and
  can always go on before, no call panics, and then the store holds every key of every thread.\<close>

theorem concurrent_writers_lose_nothing:
  assumes "clock_ok clock" and "(interleave ^^ steps) (create_tric clock, concurrent_writers t n) (s, threads)"
  shows "steps \<le> t * n \<and> (steps < t * n \<longrightarrow> (\<exists>c. interleave (s, threads) c)) \<and>
    (steps = t * n \<longrightarrow> threads = replicate t (Halt (Ret ())) \<and>
      (\<forall>i < t. \<forall>j < n. \<forall>time \<ge> tric_now s. tric_view s time (concurrent_key i j) = Some (create_value 128)))"
proof -
  obtain ps where at: "writers_at n ps (s, threads)" and ps: "length ps = t" "sum_list ps = steps"
    using writers_at_run[OF assms] by blast
  have len: "length threads = t" and thread: "\<And>i. i < t \<Longrightarrow> ps ! i \<le> n \<and> threads ! i = concurrent_writer i [ps ! i..<n]"
    using at ps(1) by (simp_all add: writers_at_def)
  have "\<forall>x \<in> set ps. x \<le> n" using thread ps(1) by (auto simp: in_set_conv_nth)
  note sums = sum_list_full[OF this, unfolded ps]
  have "\<exists>c. interleave (s, threads) c" if "steps < t * n"
  proof -
    obtain i where i: "i < t" "ps ! i < n"
    proof (rule ccontr)
      assume "\<not> thesis"
      then have "\<forall>i < t. ps ! i = n" using that thread by (meson le_neq_implies_less)
      then have "ps = replicate t n" using ps(1) by (simp add: list_eq_iff_nth_eq)
      with ps(2) \<open>steps < t * n\<close> show False by (simp add: sum_list_replicate)
    qed
    obtain f where f: "threads ! i = Step f" using thread[OF i(1)] i(2) by (auto simp: upt_rec[of "ps ! i"] atomic_def)
    obtain u s' where "f s = (u, s')" by (cases "f s")
    from interleave_step[OF _ f this] i(1) len show ?thesis by auto
  qed
  moreover have "threads = replicate t (Halt (Ret ()))" "ps ! i = n" if "steps = t * n" "i < t" for i
  proof -
    have full: "ps ! j = n" if "j < t" for j using sums \<open>steps = t * n\<close> that ps(1) by auto
    then show "ps ! i = n" using that(2) by simp
    show "threads = replicate t (Halt (Ret ()))" using len thread full by (intro nth_equalityI) auto
  qed
  moreover have "threads = replicate t (Halt (Ret ()))" if "t = 0" using that len by simp
  moreover have "holds tric_inv tric_now tric_view {concurrent_key i j | i j. i < length ps \<and> j < ps ! i} (create_value 128) s"
    using at unfolding writers_at_def fst_conv by blast
  then have "tric_view s time (concurrent_key i j) = Some (create_value 128)" if "tric_now s \<le> time" "i < t" "j < ps ! i" for time i j
    using that ps(1) unfolding holds_def by blast
  ultimately show ?thesis using sums by (cases "t = 0") auto
qed

lemma concurrent_writers_lose_nothing_witness:
  "\<exists>s threads. (interleave ^^ 1) (create_tric (\<lambda>_. 7), concurrent_writers 1 1) (s, threads) \<and>
    threads = [Halt (Ret ())] \<and> tric_view s (tric_now s) (concurrent_key 0 0) = Some (create_value 128)"
proof -
  have "tric_inv (create_tric (\<lambda>_. 7))" using const_clock by (simp add: create_tric_inv)
  then obtain u T where T: "tric_write_value (concurrent_key 0 0) (create_value 128) (create_tric (\<lambda>_. 7)) = (Ret u, T)"
    using tb_write by (metis returnsE)
  have start: "concurrent_writers 1 1 = [atomic (tric_write_value (concurrent_key 0 0) (create_value 128)) (\<lambda>_. Halt (Ret ()))]"
    by (simp add: concurrent_writers_def)
  have run: "(interleave ^^ 1) (create_tric (\<lambda>_. 7), concurrent_writers 1 1) (T, [Halt (Ret ())])"
    unfolding start using interleave_atomic[of 0 "[atomic (tric_write_value (concurrent_key 0 0) (create_value 128)) (\<lambda>_. Halt (Ret ()))]"
        "tric_write_value (concurrent_key 0 0) (create_value 128)" "\<lambda>_. Halt (Ret ())" "create_tric (\<lambda>_. 7)"] T by (simp add: eq_OO)
  from concurrent_writers_lose_nothing[OF const_clock run] show ?thesis using run by auto
qed

end
