(* ===== verification/Concurrent_Bus.thy ===== *)
theory Concurrent_Bus
  imports Interleave Timed_Map Permutive_Bus
begin

text \<open>
  The calls of the two-tier bus by several threads at once (\<open>src/core/permutive_bus.rs\<close>, shared by the
  workers of \<open>src/modules/server.rs\<close>). Each tier has a lock of its own. A method of the transient tier holds
  its lock throughout; a method of the persistent tier takes its lock twice, to find or open the
  connection and to run the statement. So a call of the bus is a sequence of up to six atomic steps
  and other threads may run between them. \<open>call_thread\<close> cuts the calls into these steps; alone, it is the call
  as defined in \<open>Permutive_Bus\<close>.
\<close>

section \<open>The critical sections\<close>

text \<open>What the methods of the persistent tier do under their second lock.\<close>

definition select_row :: "'d sqlite \<Rightarrow> bytes \<Rightarrow> ('d sqlite_bus, bytes option) op" where
  "select_row eng key =
     op_bind sqlite_lock (\<lambda>_.
     op_bind (sqlite_connection (parse_namespace key)) (\<lambda>c.
     case c of
       None \<Rightarrow> op_ret None
     | Some path \<Rightarrow> op_get (\<lambda>s. sq_select eng path key (sb_disk s))))"

definition replace_row :: "'d sqlite \<Rightarrow> bytes \<Rightarrow> bytes \<Rightarrow> ('d sqlite_bus, unit) op" where
  "replace_row eng key value =
     op_bind sqlite_lock (\<lambda>_.
     op_bind (sqlite_connection (parse_namespace key)) (\<lambda>c.
     case c of
       None \<Rightarrow> op_ret ()
     | Some path \<Rightarrow> op_modify (\<lambda>s. s\<lparr>sb_disk := sq_replace eng path key value (sb_disk s)\<rparr>)))"

definition remove_row :: "'d sqlite \<Rightarrow> bytes \<Rightarrow> ('d sqlite_bus, unit) op" where
  "remove_row eng key =
     op_bind sqlite_lock (\<lambda>_.
     op_bind (sqlite_connection (parse_namespace key)) (\<lambda>c.
     case c of
       None \<Rightarrow> op_ret ()
     | Some path \<Rightarrow> op_modify (\<lambda>s. s\<lparr>sb_disk := sq_delete eng path key (sb_disk s)\<rparr>)))"

definition remove_row_if_match :: "'d sqlite \<Rightarrow> bytes \<Rightarrow> bytes \<Rightarrow> ('d sqlite_bus, bool) op" where
  "remove_row_if_match eng key expected =
     op_bind sqlite_lock (\<lambda>_.
     op_bind (sqlite_connection (parse_namespace key)) (\<lambda>c.
     case c of
       None \<Rightarrow> op_ret False
     | Some path \<Rightarrow>
         op_bind (op_get (\<lambda>s. sq_select eng path key (sb_disk s))) (\<lambda>current.
         if current = Some expected then
           op_bind (op_modify (\<lambda>s. s\<lparr>sb_disk := sq_delete eng path key (sb_disk s)\<rparr>)) (\<lambda>_.
           op_ret True)
         else op_ret False)))"

text \<open>The methods of the persistent tier, as steps in front of what follows.\<close>

definition read_steps ::
  "'d sqlite \<Rightarrow> bytes \<Rightarrow> (bytes option \<Rightarrow> ('d permutive, 'a) thread) \<Rightarrow> ('d permutive, 'a) thread" where
  "read_steps eng key rest =
     atomic (on_persistent (sqlite_read_connection (parse_namespace key))) (\<lambda>found.
     if \<not> found then rest None else atomic (on_persistent (select_row eng key)) rest)"

definition write_steps ::
  "'d sqlite \<Rightarrow> bytes \<Rightarrow> bytes \<Rightarrow> (unit \<Rightarrow> ('d permutive, 'a) thread) \<Rightarrow> ('d permutive, 'a) thread" where
  "write_steps eng key value rest =
     atomic (on_persistent (sqlite_write_connection eng (parse_namespace key))) (\<lambda>_.
     atomic (on_persistent (replace_row eng key value)) rest)"

definition delete_steps ::
  "'d sqlite \<Rightarrow> bytes \<Rightarrow> (unit \<Rightarrow> ('d permutive, 'a) thread) \<Rightarrow> ('d permutive, 'a) thread" where
  "delete_steps eng key rest =
     atomic (on_persistent (sqlite_read_connection (parse_namespace key))) (\<lambda>found.
     if \<not> found then rest () else atomic (on_persistent (remove_row eng key)) rest)"

definition match_steps ::
  "'d sqlite \<Rightarrow> bytes \<Rightarrow> bytes \<Rightarrow> (bool \<Rightarrow> ('d permutive, 'a) thread) \<Rightarrow> ('d permutive, 'a) thread" where
  "match_steps eng key expected rest =
     atomic (on_persistent (sqlite_read_connection (parse_namespace key))) (\<lambda>found.
     if \<not> found then rest False else atomic (on_persistent (remove_row_if_match eng key expected)) rest)"

abbreviation finish :: "'a \<Rightarrow> ('s, 'a) thread" where
  "finish x \<equiv> Halt (Ret x)"

fun call_thread :: "'d sqlite \<Rightarrow> bus_call \<Rightarrow> ('d permutive, bus_result) thread" where
  "call_thread eng (Read_Value key) =
     atomic (on_transient (tric_read_value key)) (\<lambda>cached.
     case cached of
       Some value \<Rightarrow> finish (Found (Some value))
     | None \<Rightarrow>
         read_steps eng key (\<lambda>stored.
         case stored of
           None \<Rightarrow> finish (Found None)
         | Some value \<Rightarrow>
             atomic (on_transient (tric_write_value key value)) (\<lambda>_.
             atomic (on_transient (tric_write_ttl key (from_secs cache_promotion_seconds))) (\<lambda>_.
             finish (Found (Some value))))))"
| "call_thread eng (Write_Value key value) =
     write_steps eng key value (\<lambda>_.
     atomic (on_transient (tric_delete_value key)) (\<lambda>_. finish Done))"
| "call_thread eng (Delete_Value key) =
     atomic (on_transient (tric_delete_value key)) (\<lambda>_.
     delete_steps eng key (\<lambda>_. finish Done))"
| "call_thread eng (Delete_If_Match key expected) =
     atomic (on_transient (tric_delete_value_if_match key expected)) (\<lambda>transient_match.
     match_steps eng key expected (\<lambda>persistent_match.
     finish (Matched (transient_match \<or> persistent_match))))"
| "call_thread eng (Write_Ttl key duration) =
     read_steps eng key (\<lambda>stored.
     let set_ttl = atomic (on_transient (tric_write_ttl key duration)) (\<lambda>_. finish Done)
     in case stored of
          Some value \<Rightarrow>
            delete_steps eng key (\<lambda>_.
            atomic (on_transient (tric_write_value key value)) (\<lambda>_. set_ttl))
        | None \<Rightarrow> set_ttl)"
| "call_thread eng (Write_With_Ttl key value duration) =
     delete_steps eng key (\<lambda>_.
     atomic (on_transient (tric_write_value_with_ttl key value duration)) (\<lambda>_. finish Done))"
| "call_thread eng (Find_By_Prefix pre) =
     atomic (on_transient (tric_find_by_prefix pre)) (\<lambda>transient_results.
     atomic (on_persistent (sqlite_find_by_prefix eng pre)) (\<lambda>persistent_results.
     finish (Pairs (merge_tiers transient_results persistent_results))))"

text \<open>Without other threads, the steps are the methods.\<close>

lemma on_persistent_bind: "on_persistent (op_bind m f) = op_bind (on_persistent m) (\<lambda>x. on_persistent (f x))"
  by (rule ext) (simp add: on_persistent_def op_on_def op_bind_def split: prod.split outcome.split)

lemma on_persistent_ret: "on_persistent (op_ret x) = op_ret x"
  by (rule ext) (simp add: on_persistent_def op_on_def op_ret_def)

lemma sqlite_sections:
  "sqlite_read_value eng key =
    op_bind (sqlite_read_connection (parse_namespace key)) (\<lambda>found. if \<not> found then op_ret None else select_row eng key)"
  "sqlite_write_value eng key v =
    op_bind (sqlite_write_connection eng (parse_namespace key)) (\<lambda>_. replace_row eng key v)"
  "sqlite_delete_value eng key =
    op_bind (sqlite_read_connection (parse_namespace key)) (\<lambda>found. if \<not> found then op_ret () else remove_row eng key)"
  "sqlite_delete_value_if_match eng key e =
    op_bind (sqlite_read_connection (parse_namespace key)) (\<lambda>found. if \<not> found then op_ret False else remove_row_if_match eng key e)"
  unfolding sqlite_read_value_def sqlite_write_value_def sqlite_delete_value_def sqlite_delete_value_if_match_def
    select_row_def replace_row_def remove_row_def remove_row_if_match_def Let_def by (rule refl)+

lemma two_sections: "op_bind (on_persistent m) (\<lambda>found. run_thread (if \<not> found then rest x else atomic (on_persistent n) rest)) =
    op_bind (on_persistent (op_bind m (\<lambda>found. if \<not> found then op_ret x else n))) (\<lambda>y. run_thread (rest y))"
  unfolding on_persistent_bind op_bind_assoc
  by (rule arg_cong[where f = "op_bind (on_persistent m)"]) (auto simp: run_atomic on_persistent_ret)

lemma run_persistent_steps:
  "run_thread (read_steps eng key rest) = op_bind (on_persistent (sqlite_read_value eng key)) (\<lambda>x. run_thread (rest x))"
  "run_thread (write_steps eng key v after) = op_bind (on_persistent (sqlite_write_value eng key v)) (\<lambda>u. run_thread (after u))"
  "run_thread (delete_steps eng key after) = op_bind (on_persistent (sqlite_delete_value eng key)) (\<lambda>u. run_thread (after u))"
  "run_thread (match_steps eng key e decide) =
    op_bind (on_persistent (sqlite_delete_value_if_match eng key e)) (\<lambda>b. run_thread (decide b))"
  unfolding read_steps_def write_steps_def delete_steps_def match_steps_def run_atomic two_sections sqlite_sections
  by (simp_all add: on_persistent_bind op_bind_assoc)

lemma run_call_thread: "run_thread (call_thread eng c) = exec_call (permutive_bus eng) c"
  by (cases c)
    (auto simp: run_atomic run_persistent_steps exec_call_def permutive_read_value_def permutive_write_value_def permutive_delete_value_def
      permutive_delete_value_if_match_def permutive_write_ttl_def permutive_write_value_with_ttl_def
      permutive_find_by_prefix_def op_bind_assoc Let_def run_halt fun_eq_iff op_bind_def op_ret_def
      split: option.split prod.split outcome.split)

section \<open>What no interleaving can break\<close>

text \<open>Both tiers are consistent by themselves and hold only pairs of \<open>W\<close>.\<close>

definition tiers_in :: "'d sqlite \<Rightarrow> (bytes \<times> bytes) set \<Rightarrow> 'd permutive \<Rightarrow> bool" where
  "tiers_in eng W P \<longleftrightarrow> tric_inv (pm_transient P) \<and> sqlite_inv eng (pm_persistent P) \<and>
     (\<forall>k v. tric_view (pm_transient P) (tric_now (pm_transient P)) k = Some v \<longrightarrow> (k, v) \<in> W) \<and>
     (\<forall>k v. sqlite_view eng (pm_persistent P) 0 k = Some v \<longrightarrow> (k, v) \<in> W)"

fun call_writes :: "bus_call \<Rightarrow> (bytes \<times> bytes) set" where
  "call_writes (Write_Value k v) = {(k, v)}"
| "call_writes (Write_With_Ttl k v d) = {(k, v)}"
| "call_writes _ = {}"

fun result_in :: "(bytes \<times> bytes) set \<Rightarrow> bus_call \<Rightarrow> bus_result \<Rightarrow> bool" where
  "result_in W (Read_Value k) r \<longleftrightarrow> (\<exists>x. r = Found x \<and> (\<forall>v. x = Some v \<longrightarrow> (k, v) \<in> W))"
| "result_in W (Delete_If_Match k e) r \<longleftrightarrow> (\<exists>b. r = Matched b)"
| "result_in W (Find_By_Prefix p) r \<longleftrightarrow> (\<exists>ps. r = Pairs ps \<and> sorted (map fst ps) \<and>
     (\<forall>(k, v) \<in> set ps. prefix p k \<and> (k, v) \<in> W))"
| "result_in W _ r \<longleftrightarrow> r = Done"

fun call_steps :: "bus_call \<Rightarrow> nat" where
  "call_steps (Read_Value k) = 5"
| "call_steps (Write_Ttl k d) = 6"
| "call_steps (Find_By_Prefix p) = 2"
| "call_steps _ = 3"

definition closed_in :: "(bytes \<times> bytes) set \<Rightarrow> (instant \<Rightarrow> (bytes \<Rightarrow> bytes option) \<Rightarrow> bytes \<Rightarrow> bytes option) \<Rightarrow> bool" where
  "closed_in W f \<longleftrightarrow> (\<forall>t m. (\<forall>k v. m k = Some v \<longrightarrow> (k, v) \<in> W) \<longrightarrow> (\<forall>k v. f t m k = Some v \<longrightarrow> (k, v) \<in> W))"

lemma closed_in_simps [simp]:
  "closed_in W (\<lambda>t m. m)"
  "closed_in W (\<lambda>t m. m(k := None))"
  "closed_in W (\<lambda>t m. if b then m(k := None) else m)"
  "(k, v) \<in> W \<Longrightarrow> closed_in W (\<lambda>t m. m(k \<mapsto> v))"
  "(k, v) \<in> W \<Longrightarrow> closed_in W (\<lambda>t m. m(k := if c t then Some v else None))"
  by (auto simp: closed_in_def)

lemma transient_in:
  assumes s: "tiers_in eng W P"
    and m: "returns m (pm_transient P) (\<lambda>x T'. Q x \<and> (\<exists>f. tric_stepped (pm_transient P) T' f \<and> closed_in W f))"
  shows "returns (on_transient m) P (\<lambda>x P'. tiers_in eng W P' \<and> Q x)"
  unfolding on_transient_def returns_on
proof (rule returns_mono[OF m], elim conjE exE)
  let ?T = "pm_transient P"
  fix x T' f
  assume Q: "Q x" and step: "tric_stepped ?T T' f" and closed: "closed_in W f"
  have "(k, v) \<in> W" if v: "tric_view T' (tric_now T') k = Some v" for k v
  proof -
    have "tric_view ?T (tric_now T') j = Some w \<Longrightarrow> (j, w) \<in> W" for j w
      using s step tric_view_antimono[of "tric_now ?T" "tric_now T'" ?T j w] by (auto simp: tiers_in_def bus_step_def)
    moreover have "f (tric_now T') (tric_view ?T (tric_now T')) k = Some v" using v step by (auto simp: bus_step_def)
    ultimately show ?thesis using closed unfolding closed_in_def by blast
  qed
  with s Q step show "tiers_in eng W (P\<lparr>pm_transient := T'\<rparr>) \<and> Q x"
    by (auto simp: tiers_in_def bus_step_def)
qed

lemma persistent_in:
  assumes s: "tiers_in eng W P"
    and m: "returns m (pm_persistent P) (\<lambda>x S'. Q x \<and> (\<exists>f. sqlite_stepped eng (pm_persistent P) S' f \<and> closed_in W f))"
  shows "returns (on_persistent m) P (\<lambda>x P'. tiers_in eng W P' \<and> Q x)"
  unfolding on_persistent_def returns_on
proof (rule returns_mono[OF m], elim conjE exE)
  let ?S = "pm_persistent P"
  fix x S' f
  assume Q: "Q x" and step: "sqlite_stepped eng ?S S' f" and closed: "closed_in W f"
  have "f 0 (sqlite_view eng ?S 0) = sqlite_view eng S' 0" using step by (simp add: bus_step_def sqlite_now_def)
  with s closed have "sqlite_view eng S' 0 k = Some v \<Longrightarrow> (k, v) \<in> W" for k v
    unfolding closed_in_def tiers_in_def by metis
  with s Q step show "tiers_in eng W (P\<lparr>pm_persistent := S'\<rparr>) \<and> Q x"
    by (auto simp: tiers_in_def bus_step_def)
qed

lemma transient_ops_in:
  assumes P: "tiers_in eng W P"
  shows "returns (on_transient (tric_read_value k)) P (\<lambda>x P'. tiers_in eng W P' \<and> (\<forall>v. x = Some v \<longrightarrow> (k, v) \<in> W))"
    and "returns (on_transient (tric_delete_value k)) P (\<lambda>x P'. tiers_in eng W P' \<and> True)"
    and "returns (on_transient (tric_delete_value_if_match k e)) P (\<lambda>x P'. tiers_in eng W P' \<and> True)"
    and "(k, v) \<in> W \<Longrightarrow> returns (on_transient (tric_write_value k v)) P (\<lambda>x P'. tiers_in eng W P' \<and> True)"
    and "wire_duration d \<Longrightarrow> returns (on_transient (tric_write_ttl k d)) P (\<lambda>x P'. tiers_in eng W P' \<and> True)"
    and "wire_duration d \<Longrightarrow> (k, v) \<in> W \<Longrightarrow>
      returns (on_transient (tric_write_value_with_ttl k v d)) P (\<lambda>x P'. tiers_in eng W P' \<and> True)"
    and "returns (on_transient (tric_find_by_prefix p)) P
      (\<lambda>x P'. tiers_in eng W P' \<and> (\<forall>(k, v) \<in> set x. prefix p k \<and> (k, v) \<in> W))"
proof -
  have T: "tric_inv (pm_transient P)" using P by (simp add: tiers_in_def)
  have held: "tric_view (pm_transient P) (tric_now (pm_transient P)) k = Some v \<Longrightarrow> (k, v) \<in> W" for k v
    using P by (simp add: tiers_in_def)
  show "returns (on_transient (tric_read_value k)) P (\<lambda>x P'. tiers_in eng W P' \<and> (\<forall>v. x = Some v \<longrightarrow> (k, v) \<in> W))"
    by (rule transient_in[OF P], rule returns_mono[OF tb_read[OF T]])
      (auto intro!: held exI[of _ "\<lambda>t m. m"])
  show "returns (on_transient (tric_delete_value k)) P (\<lambda>x P'. tiers_in eng W P' \<and> True)"
    by (rule transient_in[OF P], rule returns_mono[OF tb_delete[OF T]]) (use closed_in_simps(2) in blast)
  show "returns (on_transient (tric_delete_value_if_match k e)) P (\<lambda>x P'. tiers_in eng W P' \<and> True)"
    by (rule transient_in[OF P], rule returns_mono[OF tb_cas[OF T]]) (use closed_in_simps(3) in blast)
  show "returns (on_transient (tric_write_value k v)) P (\<lambda>x P'. tiers_in eng W P' \<and> True)" if "(k, v) \<in> W"
    by (rule transient_in[OF P], rule returns_mono[OF tb_write[OF T]]) (use closed_in_simps(4)[OF that] in blast)
  show "returns (on_transient (tric_write_ttl k d)) P (\<lambda>x P'. tiers_in eng W P' \<and> True)" if d: "wire_duration d"
  proof (rule transient_in[OF P], rule returns_mono[OF tb_write_ttl[OF T d]], elim exE conjE, intro conjI exI)
    fix x T' b
    let ?v = "tric_view (pm_transient P) (tric_now (pm_transient P)) k"
    show "closed_in W (\<lambda>t m. m(k := if t < b + d then ?v else None))"
      using held[of k] by (auto simp: closed_in_def)
  qed simp_all
  show "returns (on_transient (tric_write_value_with_ttl k v d)) P (\<lambda>x P'. tiers_in eng W P' \<and> True)"
    if "wire_duration d" "(k, v) \<in> W"
    by (rule transient_in[OF P], rule returns_mono[OF tb_write_with_ttl[OF T that(1)]], elim exE conjE, intro conjI exI)
      (use that(2) in \<open>auto simp: closed_in_def split: if_splits\<close>)
  show "returns (on_transient (tric_find_by_prefix p)) P
      (\<lambda>x P'. tiers_in eng W P' \<and> (\<forall>(k, v) \<in> set x. prefix p k \<and> (k, v) \<in> W))"
    by (rule transient_in[OF P], rule returns_mono[OF tb_find[OF T]]) (use held closed_in_simps(1) in \<open>fastforce simp: is_scan_def\<close>)
qed

text \<open>The second sections, from any state: the connection may be there or not.\<close>

lemma sqlite_inv_lock: "sqlite_inv eng S \<Longrightarrow> sqlite_lock S = (Ret (), S)"
  using sqlite_invD(2) by (simp add: sqlite_lock_def)

lemma row_sections:
  assumes S: "sqlite_inv eng S" and m: "map_of (sb_databases S) (parse_namespace k) = Some p"
  shows "select_row eng k S = sqlite_read_value eng k S"
    and "replace_row eng k v S = sqlite_write_value eng k v S"
    and "remove_row eng k S = sqlite_delete_value eng k S"
    and "remove_row_if_match eng k e S = sqlite_delete_value_if_match eng k e S"
  using sqlite_invD(2)[OF S] m
  by (simp_all add: sqlite_read_value_def sqlite_write_value_def sqlite_delete_value_def sqlite_delete_value_if_match_def
      sqlite_write_connection_def select_row_def replace_row_def remove_row_def remove_row_if_match_def sqlite_run_defs)

lemma row_sections_none:
  assumes S: "sqlite_inv eng S" and m: "map_of (sb_databases S) (parse_namespace k) = None"
  shows "select_row eng k S = (Ret None, S)" and "replace_row eng k v S = (Ret (), S)"
    and "remove_row eng k S = (Ret (), S)" and "remove_row_if_match eng k e S = (Ret False, S)"
  using sqlite_invD(2)[OF S] m
  by (simp_all add: select_row_def replace_row_def remove_row_def remove_row_if_match_def sqlite_run_defs)

lemma section_in:
  assumes P: "tiers_in eng W P"
    and none: "map_of (sb_databases (pm_persistent P)) ns = None \<Longrightarrow> m (pm_persistent P) = (Ret x, pm_persistent P)" "Q x"
    and some: "\<And>c. map_of (sb_databases (pm_persistent P)) ns = Some c \<Longrightarrow> m (pm_persistent P) = n (pm_persistent P) \<and>
      returns n (pm_persistent P) (\<lambda>x S'. Q x \<and> (\<exists>f. sqlite_stepped eng (pm_persistent P) S' f \<and> closed_in W f))"
  shows "returns (on_persistent m) P (\<lambda>x P'. tiers_in eng W P' \<and> Q x)"
proof (rule persistent_in[OF P], cases "map_of (sb_databases (pm_persistent P)) ns")
  case None
  have "sqlite_inv eng (pm_persistent P)" using P by (simp add: tiers_in_def)
  from sqlite_quiet[OF this] show "returns m (pm_persistent P) (\<lambda>x S'. Q x \<and>
      (\<exists>f. sqlite_stepped eng (pm_persistent P) S' f \<and> closed_in W f))"
    using none(1)[OF None] none(2) closed_in_simps(1) by (auto simp: returns_def)
next
  case (Some c)
  from some[OF Some] show "returns m (pm_persistent P) (\<lambda>x S'. Q x \<and>
      (\<exists>f. sqlite_stepped eng (pm_persistent P) S' f \<and> closed_in W f))"
    by (simp add: returns_def)
qed

lemma persistent_sections_in:
  assumes P: "tiers_in eng W P"
  shows "returns (on_persistent (sqlite_read_connection ns)) P (\<lambda>x P'. tiers_in eng W P' \<and> True)"
    and "plain_namespace ns \<Longrightarrow> returns (on_persistent (sqlite_write_connection eng ns)) P (\<lambda>x P'. tiers_in eng W P' \<and> True)"
    and "returns (on_persistent (select_row eng k)) P (\<lambda>x P'. tiers_in eng W P' \<and> (\<forall>v. x = Some v \<longrightarrow> (k, v) \<in> W))"
    and "returns (on_persistent (remove_row eng k)) P (\<lambda>x P'. tiers_in eng W P' \<and> True)"
    and "returns (on_persistent (remove_row_if_match eng k e)) P (\<lambda>x P'. tiers_in eng W P' \<and> True)"
    and "(k, v) \<in> W \<Longrightarrow> returns (on_persistent (replace_row eng k v)) P (\<lambda>x P'. tiers_in eng W P' \<and> True)"
    and "returns (on_persistent (sqlite_find_by_prefix eng p)) P
      (\<lambda>x P'. tiers_in eng W P' \<and> (\<forall>(k, v) \<in> set x. prefix p k \<and> (k, v) \<in> W))"
proof -
  have S: "sqlite_inv eng (pm_persistent P)" using P by (simp add: tiers_in_def)
  note quiet = sqlite_quiet[OF S] and lock = sqlite_inv_lock[OF S]
  have held: "sqlite_view eng (pm_persistent P) t k = Some v \<Longrightarrow> (k, v) \<in> W" for t k v
    using P sqlite_view_time[of eng "pm_persistent P" t] by (simp add: tiers_in_def)
  show "returns (on_persistent (sqlite_read_connection ns)) P (\<lambda>x P'. tiers_in eng W P' \<and> True)"
    by (rule persistent_in[OF P])
      (use quiet closed_in_simps(1) in \<open>auto simp: returns_def sqlite_read_connection_def sqlite_connection_def lock op_bind_def op_simps\<close>)
  show "returns (on_persistent (sqlite_write_connection eng ns)) P (\<lambda>x P'. tiers_in eng W P' \<and> True)" if ns: "plain_namespace ns"
  proof (rule persistent_in[OF P], rule returns_mono[OF sqlite_write_connection_spec[OF S ns]], elim conjE, intro conjI exI)
    fix u S'
    let ?S = "pm_persistent P"
    assume S': "sqlite_inv eng S'" "sb_directory S' = sb_directory ?S"
      and rows: "\<forall>ns' k. plain_namespace ns' \<longrightarrow> sq_select eng (db_path (sb_directory ?S) ns') k (sb_disk S') =
        sq_select eng (db_path (sb_directory ?S) ns') k (sb_disk ?S)"
    have "sqlite_view eng S' t k = sqlite_view eng ?S t k" for t k
    proof (cases "storable_key k")
      case True
      then show ?thesis
        using rows by (simp add: sqlite_view_storable[OF S True] sqlite_view_storable[OF S'(1) True] S'(2) storable_key_def)
    next
      case False
      then show ?thesis by (simp add: sqlite_view_unstorable[OF S] sqlite_view_unstorable[OF S'(1)])
    qed
    then show "sqlite_stepped eng ?S S' (\<lambda>t m. m)" using S'(1) by (simp add: bus_step_def sqlite_now_def fun_eq_iff)
  qed simp_all
  note sec = section_in[OF P, where ns = "parse_namespace k"] and none = row_sections_none[OF S] and same = row_sections[OF S]
  show "returns (on_persistent (select_row eng k)) P (\<lambda>x P'. tiers_in eng W P' \<and> (\<forall>v. x = Some v \<longrightarrow> (k, v) \<in> W))"
    by (rule sec[where m = "select_row eng k" and x = "None" and n = "sqlite_read_value eng k"], rule none(1), assumption, simp, rule conjI, rule same(1), assumption,
      rule returns_mono[OF sq_read[OF S]]) (auto intro!: held exI[of _ "\<lambda>t m. m"])
  show "returns (on_persistent (remove_row eng k)) P (\<lambda>x P'. tiers_in eng W P' \<and> True)"
    by (rule sec[where m = "remove_row eng k" and x = "()" and n = "sqlite_delete_value eng k"], rule none(3), assumption, simp, rule conjI, rule same(3), assumption,
      rule returns_mono[OF sq_delete[OF S]]) (use closed_in_simps(2) in blast)
  show "returns (on_persistent (remove_row_if_match eng k e)) P (\<lambda>x P'. tiers_in eng W P' \<and> True)"
    by (rule sec[where m = "remove_row_if_match eng k e" and x = "False" and n = "sqlite_delete_value_if_match eng k e"], rule none(4), assumption, simp, rule conjI, rule same(4), assumption,
      rule returns_mono[OF sq_cas[OF S]]) (use closed_in_simps(3) in blast)
  show "returns (on_persistent (replace_row eng k v)) P (\<lambda>x P'. tiers_in eng W P' \<and> True)" if W: "(k, v) \<in> W"
  proof (rule sec[where m = "replace_row eng k v" and x = "()" and n = "sqlite_write_value eng k v"], rule none(2), assumption, simp, rule conjI, rule same(2), assumption)
    fix c assume "map_of (sb_databases (pm_persistent P)) (parse_namespace k) = Some c"
    then have "storable_key k" using sqlite_invD(4)[OF S] by (simp add: storable_key_def)
    from sq_write[OF S this, of v] show "returns (sqlite_write_value eng k v) (pm_persistent P) (\<lambda>x S'. True \<and>
        (\<exists>f. sqlite_stepped eng (pm_persistent P) S' f \<and> closed_in W f))"
      by (rule returns_mono) (use closed_in_simps(4)[OF W] in blast)
  qed
  show "returns (on_persistent (sqlite_find_by_prefix eng p)) P
      (\<lambda>x P'. tiers_in eng W P' \<and> (\<forall>(k, v) \<in> set x. prefix p k \<and> (k, v) \<in> W))"
    by (rule persistent_in[OF P], rule returns_mono[OF sq_find[OF S]]) (use held closed_in_simps(1) in \<open>fastforce simp: is_scan_def\<close>)
qed

lemma merge_tiers_in: "set (merge_tiers r q) \<subseteq> set r \<union> set q" "sorted (map fst (merge_tiers r q))"
  by (auto simp: merge_tiers_def Let_def)

lemma atomic_in:
  assumes "\<And>P. tiers_in eng W P \<Longrightarrow> returns m P (\<lambda>x P'. tiers_in eng W P' \<and> Q x)"
    and "\<And>x. Q x \<Longrightarrow> thread_ok (tiers_in eng W) R n (f x)"
  shows "thread_ok (tiers_in eng W) R (Suc n) (atomic m f)"
  by (rule thread_ok_atomic, rule returns_mono[OF assms(1)]) (use assms(2) in auto)

lemmas sections_in = transient_ops_in[THEN atomic_in] persistent_sections_in[THEN atomic_in]

lemma found_in: "thread_ok I R (Suc n) t \<Longrightarrow> thread_ok I R n u \<Longrightarrow> thread_ok I R (Suc n) (if \<not> found then u else t)"
  using thread_ok_mono[of I R n u "Suc n"] by simp

lemma persistent_steps_in:
  "(\<And>x. (\<forall>v. x = Some v \<longrightarrow> (k, v) \<in> W) \<Longrightarrow> thread_ok (tiers_in eng W) R n (f x)) \<Longrightarrow>
    thread_ok (tiers_in eng W) R (Suc (Suc n)) (read_steps eng k f)"
  "storable_key k \<Longrightarrow> (k, v) \<in> W \<Longrightarrow> thread_ok (tiers_in eng W) R n (g ()) \<Longrightarrow>
    thread_ok (tiers_in eng W) R (Suc (Suc n)) (write_steps eng k v g)"
  "thread_ok (tiers_in eng W) R n (g ()) \<Longrightarrow> thread_ok (tiers_in eng W) R (Suc (Suc n)) (delete_steps eng k g)"
  "(\<And>b. thread_ok (tiers_in eng W) R n (h b)) \<Longrightarrow> thread_ok (tiers_in eng W) R (Suc (Suc n)) (match_steps eng k e h)"
  unfolding read_steps_def write_steps_def delete_steps_def match_steps_def storable_key_def
  by (auto intro!: sections_in found_in)

lemmas steps_in = sections_in persistent_steps_in

lemma steps_Suc: "(2 :: nat) = Suc (Suc 0)" "(3 :: nat) = Suc (Suc (Suc 0))" "(5 :: nat) = Suc (Suc (Suc (Suc (Suc 0))))"
    "(6 :: nat) = Suc (Suc (Suc (Suc (Suc (Suc 0)))))"
  by simp_all

lemma call_thread_ok:
  assumes ok: "call_ok storable_key c" and W: "call_writes c \<subseteq> W"
  shows "thread_ok (tiers_in eng W) (result_in W c) (call_steps c) (call_thread eng c)"
proof (cases c)
  case (Read_Value k)
  show ?thesis
    unfolding Read_Value call_thread.simps call_steps.simps steps_Suc
    by (auto intro!: steps_in ok_halt wire_cache_promotion split: option.split)
next
  case (Write_Value k v)
  with assms show ?thesis
    by (auto simp: steps_Suc intro!: steps_in ok_halt)
next
  case (Delete_Value k)
  show ?thesis
    unfolding Delete_Value call_thread.simps call_steps.simps steps_Suc by (auto intro!: steps_in ok_halt)
next
  case (Delete_If_Match k e)
  show ?thesis
    unfolding Delete_If_Match call_thread.simps call_steps.simps steps_Suc by (auto intro!: steps_in ok_halt)
next
  case (Write_Ttl k d)
  with ok have "wire_duration d" by simp
  then show ?thesis
    unfolding Write_Ttl call_thread.simps call_steps.simps steps_Suc Let_def
    by (auto intro!: steps_in ok_halt split: option.split)
next
  case (Write_With_Ttl k v d)
  with assms show ?thesis
    by (auto simp: steps_Suc intro!: steps_in ok_halt)
next
  case (Find_By_Prefix p)
  show ?thesis
    unfolding Find_By_Prefix call_thread.simps call_steps.simps steps_Suc
    by (auto intro!: steps_in ok_halt merge_tiers_in(2) dest!: subsetD[OF merge_tiers_in(1)])
qed

text \<open>The pairs that are there at the beginning, and those that the calls write.\<close>

definition origin :: "'d sqlite \<Rightarrow> 'd permutive \<Rightarrow> bus_call list \<Rightarrow> (bytes \<times> bytes) set" where
  "origin eng P calls =
     {(k, v). tric_view (pm_transient P) (permutive_now P) k = Some v \<or> sqlite_view eng (pm_persistent P) 0 k = Some v}
     \<union> \<Union> (call_writes ` set calls)"

text \<open>C7: Any number of calls of the bus by different threads, interleaved at their critical sections in
  any way: no call panics or blocks for ever (there are at most as many steps as the calls have, and
  while one has not returned there is a next step), each tier stays consistent, and every value
  that a read or a scan returns was there at the beginning or was written to that very key by one
  of the calls.\<close>

theorem concurrent_calls_safe:
  assumes P: "permutive_inv eng P" and calls: "\<forall>c \<in> set calls. call_ok storable_key c"
    and run: "(interleave ^^ n) (P, map (call_thread eng) calls) (P', threads)"
  shows "tric_inv (pm_transient P') \<and> sqlite_inv eng (pm_persistent P') \<and> length threads = length calls \<and>
    n \<le> sum_list (map call_steps calls) \<and>
    (\<forall>i < length calls. (\<exists>r. threads ! i = Halt (Ret r) \<and> result_in (origin eng P calls) (calls ! i) r) \<or>
      (\<exists>next_state. interleave (P', threads) next_state))"
proof -
  let ?W = "origin eng P calls"
  have start: "tiers_in eng ?W P"
    using permutive_invD[OF P] by (auto simp: tiers_in_def origin_def permutive_now_def)
  have "thread_ok (tiers_in eng ?W) (result_in ?W c) (call_steps c) (call_thread eng c)" if "c \<in> set calls" for c
    by (rule call_thread_ok) (use that calls in \<open>auto simp: origin_def\<close>)
  then have "threads_ok (tiers_in eng ?W) (map (result_in ?W) calls) (map call_steps calls) (map (call_thread eng) calls)"
    by (simp add: threads_ok_def)
  from interleaving_safe[OF start this run] show ?thesis by (simp add: tiers_in_def)
qed

section \<open>What an interleaving can break\<close>

lemma six_steps:
  assumes "r c0 c1" "r c1 c2" "r c2 c3" "r c3 c4" "r c4 c5" "r c5 c6"
  shows "(r ^^ 6) c0 c6"
proof -
  note start = relpowp_0_I[of r c0] and more = relpowp_Suc_I[where P = r]
  have "(r ^^ Suc (Suc (Suc (Suc (Suc (Suc 0)))))) c0 c6"
    by (rule more[OF more[OF more[OF more[OF more[OF more[OF start assms(1)] assms(2)] assms(3)] assms(4)] assms(5)] assms(6)])
  then show ?thesis by (simp add: numeral_eq_Suc)
qed

lemma eight_steps:
  assumes "r c0 c1" "r c1 c2" "r c2 c3" "r c3 c4" "r c4 c5" "r c5 c6" "r c6 c7" "r c7 c8"
  shows "(r ^^ 8) c0 c8"
  using relpowp_Suc_I[OF relpowp_Suc_I[OF six_steps[of r] assms(7)] assms(8)] assms by simp

lemma step_first: "m s = (Ret x, s') \<Longrightarrow> t = f x \<Longrightarrow> interleave (s, [atomic m f, u]) (s', [t, u])"
  using interleave_atomic[of 0 "[atomic m f, u]" m f s x s'] by simp

lemma step_second: "m s = (Ret x, s') \<Longrightarrow> t = f x \<Longrightarrow> interleave (s, [u, atomic m f]) (s', [u, t])"
  using interleave_atomic[of 1 "[u, atomic m f]" m f s x s'] by simp

text \<open>
  A reader misses the cache and reads the persistent tier; a writer of the same key then runs to its
  end, and the reader puts what it has read into the cache.
\<close>

lemma stale_schedule:
  assumes inv: "permutive_inv eng P" and key: "storable_key k"
    and old: "sqlite_view eng (pm_persistent P) 0 k = Some v"
    and uncached: "tric_view (pm_transient P) (permutive_now P) k = None"
    and soon: "tr_clock (pm_transient P) 4 < tr_clock (pm_transient P) 3 + from_secs cache_promotion_seconds"
  shows "\<exists>P'. (interleave ^^ 8) (P, [call_thread eng (Read_Value k), call_thread eng (Write_Value k w)])
      (P', [finish (Found (Some v)), finish Done]) \<and> sqlite_view eng (pm_persistent P') 0 k = Some w \<and>
    tric_inv (pm_transient P') \<and> tric_view (pm_transient P') (tric_now (pm_transient P')) k = Some v"
proof -
  let ?T = "pm_transient P" and ?S = "pm_persistent P"
  note T = permutive_invD(1)[OF inv] and S = permutive_invD(2)[OF inv]
  obtain T1 where T1: "tric_read_value k ?T = (Ret None, T1)" and t1: "tric_stepped ?T T1 (\<lambda>t m. m)" and c1: "clock_used ?T T1"
    using tric_read_clock[OF T tb_read[OF T, of k]] uncached by (auto elim!: returnsE simp: permutive_now_def)
  obtain c where conn: "map_of (sb_databases ?S) (parse_namespace k) = Some c"
    using old by (auto simp: sqlite_view_def split: option.splits)
  have S1: "sqlite_read_connection (parse_namespace k) ?S = (Ret True, ?S)"
      "sqlite_write_connection eng (parse_namespace k) ?S = (Ret (), ?S)"
    using sqlite_inv_lock[OF S] conn by (simp_all add: sqlite_read_connection_def sqlite_write_connection_def
      sqlite_connection_def op_bind_def op_simps)
  have row: "select_row eng k ?S = (Ret (Some v), ?S)"
    using sqlite_read_value_run[OF S, of k 0] old row_sections(1)[OF S conn] by simp
  obtain S2 where S2: "replace_row eng k w ?S = (Ret (), S2)" and s2: "sqlite_stepped eng ?S S2 (\<lambda>t m. m(k \<mapsto> w))"
    using sq_write[OF S key, of w] unfolding row_sections(2)[OF S conn, symmetric] by (auto elim!: returnsE simp: row_sections(2)[OF S conn])
  obtain T2 where T2: "tric_delete_value k T1 = (Ret (), T2)" and t2: "tric_stepped T1 T2 (\<lambda>t m. m(k := None))" and c2: "clock_used T1 T2"
    using tric_delete_clock[OF stepped_inv(1)[OF t1] tb_delete[OF stepped_inv(1)[OF t1], of k]] by (auto elim!: returnsE)
  obtain T3 where T3: "tric_write_value k v T2 = (Ret (), T3)" and t3: "tric_stepped T2 T3 (\<lambda>t m. m(k \<mapsto> v))" and c3: "clock_used T2 T3"
    using tric_write_clock[OF stepped_inv(1)[OF t2] tb_write[OF stepped_inv(1)[OF t2], of k v]] by (auto elim!: returnsE)
  have v3: "tric_view T3 (tric_now T3) k = Some v" using t3 by (simp add: bus_step_def)
  let ?ttl = "from_secs cache_promotion_seconds"
  obtain T4 b where T4: "tric_write_ttl k ?ttl T3 = (Ret (), T4)" and b: "tric_now T3 \<le> b"
      and t4: "tric_stepped T3 T4 (\<lambda>t m. m(k := if t < b + ?ttl then Some v else None))" and c4: "clock_used T3 T4"
  proof -
    have "tric_view T3 (tric_now T3) k \<noteq> None" by (simp add: v3)
    from returns_conj[OF tb_write_ttl_value[OF stepped_inv(1)[OF t3] wire_cache_promotion v3]
        tric_write_ttl_deadline[OF stepped_inv(1)[OF t3] wire_cache_promotion this]]
    show thesis using that by (auto elim!: returnsE)
  qed
  have "tric_now T3 = tr_clock ?T 3" "tric_now T4 = tr_clock ?T 4"
    using c1 c2 c3 c4 by (simp_all add: tric_now_def clock_used_def numeral_eq_Suc)
  then have "tric_now T4 < b + ?ttl" using soon b by simp
  with t4 have v4: "tric_view T4 (tric_now T4) k = Some v" by (simp add: bus_step_def)
  have view: "sqlite_view eng S2 0 k = Some w" using s2 by (simp add: bus_step_def sqlite_now_def)
  let ?Lease = "atomic (on_transient (tric_write_ttl k ?ttl)) (\<lambda>_. finish (Found (Some v)))"
  let ?Fill = "atomic (on_transient (tric_write_value k v)) (\<lambda>_. ?Lease)"
  let ?Rest = "\<lambda>stored. case stored of None \<Rightarrow> finish (Found None)
      | Some value \<Rightarrow> atomic (on_transient (tric_write_value k value)) (\<lambda>_.
          atomic (on_transient (tric_write_ttl k ?ttl)) (\<lambda>_. finish (Found (Some value))))"
  let ?Look = "atomic (on_persistent (select_row eng k)) ?Rest"
  let ?Find = "read_steps eng k ?Rest"
  let ?Drop = "atomic (on_transient (tric_delete_value k)) (\<lambda>_. finish Done)"
  let ?Row = "atomic (on_persistent (replace_row eng k w)) (\<lambda>_. ?Drop)"
  let ?W = "write_steps eng k w (\<lambda>_. ?Drop)"
  let ?Start = "atomic (on_transient (tric_read_value k)) (\<lambda>cached. case cached of
      Some value \<Rightarrow> finish (Found (Some value)) | None \<Rightarrow> ?Find)"
  note on = on_transient_def on_persistent_def op_on_def
  let ?P = "\<lambda>T S. P\<lparr>pm_transient := T, pm_persistent := S\<rparr>"
  have "(interleave ^^ 8) (?P ?T ?S, [?Start, ?W]) (?P T4 S2, [finish (Found (Some v)), finish Done])"
  proof (rule eight_steps)
    show "interleave (?P ?T ?S, [?Start, ?W]) (?P T1 ?S, [?Find, ?W])"
      by (rule step_first[where x = None]) (simp add: on T1, simp)
    show "interleave (?P T1 ?S, [?Find, ?W]) (?P T1 ?S, [?Look, ?W])"
      unfolding read_steps_def by (rule step_first[where x = True]) (simp add: on S1, simp)
    show "interleave (?P T1 ?S, [?Look, ?W]) (?P T1 ?S, [?Fill, ?W])"
      by (rule step_first[where x = "Some v"]) (simp add: on row, simp)
    show "interleave (?P T1 ?S, [?Fill, ?W]) (?P T1 ?S, [?Fill, ?Row])"
      unfolding write_steps_def by (rule step_second[where x = "()"]) (simp add: on S1, simp)
    show "interleave (?P T1 ?S, [?Fill, ?Row]) (?P T1 S2, [?Fill, ?Drop])"
      by (rule step_second[where x = "()"]) (simp add: on S2, simp)
    show "interleave (?P T1 S2, [?Fill, ?Drop]) (?P T2 S2, [?Fill, finish Done])"
      by (rule step_second[where x = "()"]) (simp add: on T2, simp)
    show "interleave (?P T2 S2, [?Fill, finish Done]) (?P T3 S2, [?Lease, finish Done])"
      by (rule step_first[where x = "()"]) (simp add: on T3, simp)
    show "interleave (?P T3 S2, [?Lease, finish Done]) (?P T4 S2, [finish (Found (Some v)), finish Done])"
      by (rule step_first[where x = "()"]) (simp add: on T4, simp)
  qed
  then show ?thesis
    unfolding call_thread.simps
    using view v4 stepped_inv(1)[OF t4] by (intro exI[of _ "P\<lparr>pm_transient := T4, pm_persistent := S2\<rparr>"]) simp
qed

text \<open>C8: A write that has returned can be invisible: while a reader of the key is between its look at the
  persistent tier and the filling of the cache, a whole write of the key can run, and the reader
  then caches the old value. From then on every read finds the old value for up to sixty seconds,
  though the new one is in the database.\<close>

theorem completed_write_hidden_by_cache:
  assumes inv: "permutive_inv eng P" and key: "storable_key k"
    and old: "sqlite_view eng (pm_persistent P) 0 k = Some v"
    and uncached: "tric_view (pm_transient P) (permutive_now P) k = None"
    and soon: "tr_clock (pm_transient P) 4 < tr_clock (pm_transient P) 3 + from_secs cache_promotion_seconds"
  shows "\<exists>P'. (interleave ^^ 8) (P, [call_thread eng (Read_Value k), call_thread eng (Write_Value k w)])
      (P', [finish (Found (Some v)), finish Done]) \<and> sqlite_view eng (pm_persistent P') 0 k = Some w \<and>
    returns (exec_call (permutive_bus eng) (Read_Value k)) P' (\<lambda>r _. r = Found (Some v))"
proof -
  obtain P' where P': "(interleave ^^ 8) (P, [call_thread eng (Read_Value k), call_thread eng (Write_Value k w)])
      (P', [finish (Found (Some v)), finish Done])" "sqlite_view eng (pm_persistent P') 0 k = Some w"
    and T: "tric_inv (pm_transient P')" "tric_view (pm_transient P') (tric_now (pm_transient P')) k = Some v"
    using stale_schedule[OF assms] by blast
  have "returns (exec_call (permutive_bus eng) (Read_Value k)) P' (\<lambda>r _. r = Found (Some v))"
    using T by (auto simp: exec_call_def permutive_read_value_def on_transient_def wp intro!: returns_mono[OF tb_read])
  with P' show ?thesis by blast
qed

lemma sample_uncached:
  "sqlite_view mem_sqlite (pm_persistent sample_permutive) 0 (str ''a:k'') = Some [7]"
  "tric_view (pm_transient sample_permutive) t (str ''a:k'') = None"
  "tr_clock (pm_transient sample_permutive) 4 < tr_clock (pm_transient sample_permutive) 3 + from_secs cache_promotion_seconds"
proof -
  show "sqlite_view mem_sqlite (pm_persistent sample_permutive) 0 (str ''a:k'') = Some [7]"
    "tric_view (pm_transient sample_permutive) t (str ''a:k'') = None"
    by (simp_all add: sample_permutive_def fresh_permutive_def sample_sqlite_view del: str_simps)
  show "tr_clock (pm_transient sample_permutive) 4 < tr_clock (pm_transient sample_permutive) 3 + from_secs cache_promotion_seconds"
    by (simp add: sample_permutive_def fresh_permutive_def create_tric_def from_secs_def cache_promotion_seconds_def)
qed

lemma completed_write_hidden_by_cache_witness:
  "\<exists>P'. (interleave ^^ 8) (sample_permutive, [call_thread mem_sqlite (Read_Value (str ''a:k'')),
        call_thread mem_sqlite (Write_Value (str ''a:k'') [9])]) (P', [finish (Found (Some [7])), finish Done]) \<and>
    sqlite_view mem_sqlite (pm_persistent P') 0 (str ''a:k'') = Some [9] \<and>
    returns (exec_call (permutive_bus mem_sqlite) (Read_Value (str ''a:k''))) P' (\<lambda>r _. r = Found (Some [7]))"
  by (rule completed_write_hidden_by_cache[OF sample_permutive_inv _ sample_uncached]) (auto intro!: ascii_storable)

lemma concurrent_calls_safe_witness:
  "\<exists>P' threads. (interleave ^^ 8) (sample_permutive, map (call_thread mem_sqlite)
        [Read_Value (str ''a:k''), Write_Value (str ''a:k'') [9]]) (P', threads) \<and>
    tric_inv (pm_transient P') \<and> sqlite_inv mem_sqlite (pm_persistent P') \<and> length threads = 2"
proof -
  let ?calls = "[Read_Value (str ''a:k''), Write_Value (str ''a:k'') [9]]"
  have key: "storable_key (str ''a:k'')" by (auto intro!: ascii_storable)
  obtain P' threads where run: "(interleave ^^ 8) (sample_permutive, map (call_thread mem_sqlite) ?calls) (P', threads)"
    using stale_schedule[OF sample_permutive_inv key sample_uncached, of "[9]"] unfolding list.map by blast
  have "\<forall>c \<in> set ?calls. call_ok storable_key c" using key by simp
  from concurrent_calls_safe[OF sample_permutive_inv this run]
  have "tric_inv (pm_transient P') \<and> sqlite_inv mem_sqlite (pm_persistent P') \<and> length threads = 2" by simp
  with run show ?thesis by blast
qed

end
