(* ===== verification/Job_Claims.thy ===== *)
theory Job_Claims
  imports Concurrent_Bus
begin

text \<open>
  Claiming a job by compare-and-delete, the use that the documentation names for it, by several
  threads at once. \<open>delete_value_if_match\<close> of the two-tier bus (\<open>src/core/permutive_bus.rs\<close>) asks the two
  tiers one after the other, each under its own lock, and answers true if either had the value. A
  value that is in both tiers, as every value is that was read within the last sixty seconds, can
  therefore be claimed by two threads; a value in one tier is claimed by one thread at most.
\<close>

section \<open>Compare-and-delete, section by section\<close>

abbreviation claim :: "'d sqlite \<Rightarrow> bytes \<Rightarrow> bytes \<Rightarrow> ('d permutive, bus_result) thread" where
  "claim eng k e \<equiv> call_thread eng (Delete_If_Match k e)"

definition held :: "'d sqlite \<Rightarrow> bytes \<Rightarrow> bytes \<Rightarrow> 'd permutive \<Rightarrow> bool" where
  "held eng k e P \<longleftrightarrow> sqlite_view eng (pm_persistent P) 0 k = Some e"

definition cached :: "bytes \<Rightarrow> bytes \<Rightarrow> 'd permutive \<Rightarrow> bool" where
  "cached k e P \<longleftrightarrow> tric_view (pm_transient P) (permutive_now P) k = Some e"

definition copies :: "'d sqlite \<Rightarrow> bytes \<Rightarrow> bytes \<Rightarrow> 'd permutive \<Rightarrow> nat" where
  "copies eng k e P = of_bool (cached k e P) + of_bool (held eng k e P)"

lemma read_connection_quiet:
  assumes "sqlite_inv eng S"
  shows "returns (sqlite_read_connection ns) S (\<lambda>b S'. S' = S \<and> b = (map_of (sb_databases S) ns \<noteq> None))"
  using sqlite_inv_lock[OF assms] by (auto simp: returns_def sqlite_read_connection_def sqlite_connection_def op_bind_def op_simps)

lemma unconnected_view: "map_of (sb_databases S) (parse_namespace k) = None \<Longrightarrow> sqlite_view eng S t k = None"
  by (simp add: sqlite_view_def)

lemma remove_row_if_match_law:
  assumes S: "sqlite_inv eng S"
  shows "returns (remove_row_if_match eng k e) S (\<lambda>b S'. b = (sqlite_view eng S 0 k = Some e) \<and>
    sqlite_stepped eng S S' (\<lambda>t m. if b then m(k := None) else m))"
proof (cases "map_of (sb_databases S) (parse_namespace k)")
  case None
  with sqlite_quiet[OF S] show ?thesis by (simp add: returns_def row_sections_none(4)[OF S None] unconnected_view)
next
  case (Some c)
  from sq_cas[OF S, of k e] show ?thesis
    by (simp add: returns_def row_sections(4)[OF S Some] sqlite_now_def)
qed

text \<open>What is left of a claim after each of its steps, and whether it has won.\<close>

datatype phase = Fresh | Tried bool | Looked bool | Over bool

primrec claim_at :: "'d sqlite \<Rightarrow> bytes \<Rightarrow> bytes \<Rightarrow> phase \<Rightarrow> ('d permutive, bus_result) thread" where
  "claim_at eng k e Fresh = claim eng k e"
| "claim_at eng k e (Tried b) = match_steps eng k e (\<lambda>p. finish (Matched (b \<or> p)))"
| "claim_at eng k e (Looked b) =
     atomic (on_persistent (remove_row_if_match eng k e)) (\<lambda>p. finish (Matched (b \<or> p)))"
| "claim_at eng k e (Over b) = finish (Matched b)"

primrec won :: "phase \<Rightarrow> bool" where
  "won Fresh = False"
| "won (Tried b) = b"
| "won (Looked b) = b"
| "won (Over b) = b"

definition claim_moves :: "'d sqlite \<Rightarrow> bytes \<Rightarrow> bytes \<Rightarrow> phase \<Rightarrow> 'd permutive \<Rightarrow> phase \<Rightarrow> 'd permutive \<Rightarrow> bool" where
  "claim_moves eng k e p P q P' \<longleftrightarrow> tric_inv (pm_transient P') \<and> sqlite_inv eng (pm_persistent P') \<and>
     (won p \<longrightarrow> won q) \<and> of_bool (won q) + copies eng k e P' \<le> of_bool (won p) + copies eng k e P \<and>
     (held eng k e P' \<longrightarrow> held eng k e P) \<and> (held eng k e P \<longrightarrow> held eng k e P' \<or> won q) \<and>
     (q = Over False \<longrightarrow> \<not> held eng k e P')"

lemma atomic_moves:
  assumes "atomic m f = Step g" and "g P = (t, P')"
    and "returns m P (\<lambda>x P'. claim_moves eng k e p P (q x) P')" and "\<And>x. f x = claim_at eng k e (q x)"
  shows "\<exists>q'. t = claim_at eng k e q' \<and> claim_moves eng k e p P q' P'"
  using assms by (auto simp: atomic_def returns_def split: prod.splits outcome.splits)

lemma try_moves:
  assumes T: "tric_inv (pm_transient P)" and S: "sqlite_inv eng (pm_persistent P)"
  shows "returns (on_transient (tric_delete_value_if_match k e)) P (\<lambda>b P'. claim_moves eng k e Fresh P (Tried b) P')"
  unfolding on_transient_def returns_on
proof (rule returns_mono[OF tb_cas[OF T]], elim conjE)
  fix b T'
  let ?T = "pm_transient P"
  assume b: "b = (tric_view ?T (tric_now ?T) k = Some e)"
    and step: "tric_stepped ?T T' (\<lambda>t m. if b then m(k := None) else m)"
  have "tric_view T' (tric_now T') k = Some e \<Longrightarrow> \<not> b \<and> tric_view ?T (tric_now ?T) k = Some e"
    using step tric_view_antimono[of "tric_now ?T" "tric_now T'" ?T k e] by (auto simp: bus_step_def split: if_splits)
  then show "claim_moves eng k e Fresh P (Tried b) (P\<lparr>pm_transient := T'\<rparr>)"
    using b stepped_inv(1)[OF step] S
    by (auto simp: claim_moves_def copies_def cached_def held_def permutive_now_def)
qed

lemma look_moves:
  assumes T: "tric_inv (pm_transient P)" and S: "sqlite_inv eng (pm_persistent P)"
  shows "returns (on_persistent (sqlite_read_connection (parse_namespace k))) P
    (\<lambda>found P'. claim_moves eng k e (Tried b) P (if found then Looked b else Over b) P')"
  unfolding on_persistent_def returns_on
  by (rule returns_mono[OF read_connection_quiet[OF S]])
    (use T S unconnected_view[of "pm_persistent P" k eng 0] in \<open>auto simp: claim_moves_def held_def split: option.splits\<close>)

lemma remove_moves:
  assumes T: "tric_inv (pm_transient P)" and S: "sqlite_inv eng (pm_persistent P)"
  shows "returns (on_persistent (remove_row_if_match eng k e)) P
    (\<lambda>p P'. claim_moves eng k e (Looked b) P (Over (b \<or> p)) P')"
  unfolding on_persistent_def returns_on
proof (rule returns_mono[OF remove_row_if_match_law[OF S]], elim conjE)
  fix p S'
  let ?S = "pm_persistent P"
  assume p: "p = (sqlite_view eng ?S 0 k = Some e)" and step: "sqlite_stepped eng ?S S' (\<lambda>t m. if p then m(k := None) else m)"
  have "sqlite_view eng S' 0 k = (if p then None else sqlite_view eng ?S 0 k)"
    using step by (simp add: bus_step_def sqlite_now_def)
  then show "claim_moves eng k e (Looked b) P (Over (b \<or> p)) (P\<lparr>pm_persistent := S'\<rparr>)"
    using p stepped_inv(2)[OF step] T
    by (auto simp: claim_moves_def copies_def cached_def held_def permutive_now_def)
qed

lemma claim_step:
  assumes T: "tric_inv (pm_transient P)" and S: "sqlite_inv eng (pm_persistent P)"
    and f: "claim_at eng k e p = Step f" and t: "f P = (t, P')"
  shows "\<exists>q. t = claim_at eng k e q \<and> claim_moves eng k e p P q P'"
proof (cases p)
  case Fresh
  show ?thesis
    unfolding Fresh by (rule atomic_moves[OF f[unfolded Fresh claim_at.simps call_thread.simps] t try_moves[OF T S]]) simp
next
  case (Tried b)
  show ?thesis
    unfolding Tried by (rule atomic_moves[OF f[unfolded Tried claim_at.simps match_steps_def] t look_moves[OF T S]]) simp
next
  case (Looked b)
  show ?thesis
    unfolding Looked by (rule atomic_moves[OF f[unfolded Looked claim_at.simps] t remove_moves[OF T S]]) simp
next
  case (Over b)
  with f show ?thesis by simp
qed

section \<open>Any number of claims\<close>

text \<open>The threads \<open>c\<close> have come to the phases \<open>ps\<close>: what is won and what can still be won is within the budget.\<close>

definition claims_at ::
  "'d sqlite \<Rightarrow> bytes \<Rightarrow> bytes \<Rightarrow> nat \<Rightarrow> bool \<Rightarrow> phase list \<Rightarrow> 'd permutive \<times> ('d permutive, bus_result) thread list \<Rightarrow> bool" where
  "claims_at eng k e budget stored ps c \<longleftrightarrow> snd c = map (claim_at eng k e) ps \<and>
     tric_inv (pm_transient (fst c)) \<and> sqlite_inv eng (pm_persistent (fst c)) \<and>
     length (filter won ps) + copies eng k e (fst c) \<le> budget \<and>
     (stored \<longrightarrow> held eng k e (fst c) \<or> (\<exists>p \<in> set ps. won p)) \<and>
     (Over False \<in> set ps \<longrightarrow> \<not> held eng k e (fst c))"

lemma filter_update_length:
  "i < length xs \<Longrightarrow> length (filter P (xs[i := x])) + of_bool (P (xs ! i)) = length (filter P xs) + of_bool (P x)"
proof (induction xs arbitrary: i)
  case (Cons y ys)
  then show ?case using Cons.IH[of "i - 1"] by (cases i) auto
qed simp

lemma claims_at_step:
  assumes at: "claims_at eng k e budget stored ps c" and step: "interleave c c'"
  shows "\<exists>ps'. length ps' = length ps \<and> claims_at eng k e budget stored ps' c'"
proof -
  obtain P ts where c: "c = (P, ts)" by (cases c)
  obtain i f t P' where i: "i < length ts" "ts ! i = Step f" "f P = (t, P')" "c' = (P', ts[i := t])"
    using step unfolding c by (rule interleave_cases) auto
  have ts: "ts = map (claim_at eng k e) ps" and P: "tric_inv (pm_transient P)" "sqlite_inv eng (pm_persistent P)"
    using at by (simp_all add: claims_at_def c)
  have len: "i < length ps" using i(1) ts by simp
  have "claim_at eng k e (ps ! i) = Step f" using i(2) ts len by simp
  from claim_step[OF P this i(3)] obtain q where t: "t = claim_at eng k e q" and q: "claim_moves eng k e (ps ! i) P q P'"
    by blast
  have mono: "(\<exists>p \<in> set ps. won p) \<Longrightarrow> (\<exists>p \<in> set (ps[i := q]). won p)"
    using q len by (fastforce simp: claim_moves_def in_set_conv_nth nth_list_update)
  have new: "q \<in> set (ps[i := q])" using len by (rule set_update_memI)
  have "Over False \<in> set (ps[i := q]) \<Longrightarrow> Over False \<in> set ps \<or> q = Over False"
    using set_update_subset_insert[of ps i q] by auto
  then have "claims_at eng k e budget stored (ps[i := q]) c'"
    using at q i(4) t ts new mono filter_update_length[OF len, of won q]
    by (auto simp: claims_at_def c claim_moves_def map_update)
  then show ?thesis by (intro exI[of _ "ps[i := q]"]) simp
qed

lemma claims_at_run:
  assumes "claims_at eng k e budget stored ps c" and "(interleave ^^ m) c c'"
  shows "\<exists>ps'. length ps' = length ps \<and> claims_at eng k e budget stored ps' c'"
  using assms(2)
proof (induction m arbitrary: c')
  case 0
  then show ?case using assms(1) by auto
next
  case (Suc m)
  then obtain c1 where "(interleave ^^ m) c c1" "interleave c1 c'" by (auto elim!: relpowp_Suc_E)
  with Suc.IH claims_at_step show ?case by metis
qed

definition winners :: "('d permutive, bus_result) thread list \<Rightarrow> nat" where
  "winners threads = length (filter (\<lambda>t. t = finish (Matched True)) threads)"

lemma claim_at_halted:
  "claim_at eng k e p = Halt r \<longleftrightarrow> (\<exists>b. p = Over b \<and> r = Ret (Matched b))"
  by (cases p) (auto simp: atomic_def match_steps_def)

lemma winners_le_won: "winners (map (claim_at eng k e) ps) \<le> length (filter won ps)"
  by (induction ps) (auto simp: winners_def claim_at_halted)

text \<open>C9: Of any number of threads that claim the same value by compare-and-delete at the same time, no
  more win than there are tiers that hold the value: one, if it is in one tier. If the database
  holds it, then once all have answered one of them has won.\<close>

theorem concurrent_claims_bounded:
  assumes inv: "permutive_inv eng P" and run: "(interleave ^^ m) (P, replicate n (call_thread eng (Delete_If_Match k e))) (P', threads)"
  shows "winners threads \<le> copies eng k e P \<and>
    (0 < n \<and> sqlite_view eng (pm_persistent P) 0 k = Some e \<and> (\<forall>t \<in> set threads. \<exists>r. t = Halt r) \<longrightarrow> 0 < winners threads)"
proof -
  let ?stored = "held eng k e P"
  have "claims_at eng k e (copies eng k e P) ?stored (replicate n Fresh) (P, replicate n (claim eng k e))"
    using permutive_invD[OF inv] by (simp add: claims_at_def)
  from claims_at_run[OF this run] obtain ps where len: "length ps = n"
    and at: "claims_at eng k e (copies eng k e P) ?stored ps (P', threads)" by auto
  have threads: "threads = map (claim_at eng k e) ps" using at by (simp add: claims_at_def)
  have "winners threads \<le> copies eng k e P"
    using winners_le_won[of eng k e ps] at by (simp add: claims_at_def)
  moreover have "0 < winners threads" if n: "0 < n" and stored: ?stored and all: "\<forall>t \<in> set threads. \<exists>r. t = Halt r"
  proof -
    have over: "\<exists>b. p = Over b" if "p \<in> set ps" for p
      using all that unfolding threads by (auto simp: claim_at_halted)
    obtain p where "p \<in> set ps" "won p"
    proof (cases "\<exists>p \<in> set ps. won p")
      case False
      moreover obtain p where "p \<in> set ps" using n len by (cases ps) auto
      ultimately have "Over False \<in> set ps" using over[of p] by auto
      with at stored False show thesis by (auto simp: claims_at_def)
    qed (use that in blast)
    with over[of p] have "Over True \<in> set ps" by auto
    then have "finish (Matched True) \<in> set threads" unfolding threads by force
    then show ?thesis by (auto simp: winners_def filter_empty_conv)
  qed
  ultimately show ?thesis by (auto simp: held_def)
qed

section \<open>A value in both tiers\<close>

text \<open>A read leaves the value in both tiers, and does not touch the persistent one.\<close>

lemma read_fills_cache:
  assumes inv: "permutive_inv eng P" and stored: "held eng k v P"
    and uncached: "tric_view (pm_transient P) (permutive_now P) k = None"
    and soon: "tr_clock (pm_transient P) 3 < tr_clock (pm_transient P) 2 + from_secs cache_promotion_seconds"
  obtains P' where "permutive_read_value eng k P = (Ret (Some v), P')" and "permutive_inv eng P'"
    and "held eng k v P'" and "cached k v P'"
proof -
  let ?T = "pm_transient P" and ?ttl = "from_secs cache_promotion_seconds"
  note T = permutive_invD(1)[OF inv]
  obtain T1 where T1: "tric_read_value k ?T = (Ret None, T1)" and t1: "tric_stepped ?T T1 (\<lambda>t m. m)" and c1: "clock_used ?T T1"
    using tric_read_clock[OF T tb_read[OF T, of k]] uncached by (auto elim!: returnsE simp: permutive_now_def)
  obtain S1 where S1: "sqlite_read_value eng k (pm_persistent P) = (Ret (Some v), S1)"
      and s1: "sqlite_stepped eng (pm_persistent P) S1 (\<lambda>t m. m)"
    using sq_read[OF permutive_invD(2)[OF inv], of k] stored by (auto elim!: returnsE simp: held_def sqlite_now_def)
  obtain T2 where T2: "tric_write_value k v T1 = (Ret (), T2)" and t2: "tric_stepped T1 T2 (\<lambda>t m. m(k \<mapsto> v))" and c2: "clock_used T1 T2"
    using tric_write_clock[OF stepped_inv(1)[OF t1] tb_write[OF stepped_inv(1)[OF t1], of k v]] by (auto elim!: returnsE)
  have v2: "tric_view T2 (tric_now T2) k = Some v" using t2 by (simp add: bus_step_def)
  then have "tric_view T2 (tric_now T2) k \<noteq> None" by simp
  from returns_conj[OF tb_write_ttl_value[OF stepped_inv(1)[OF t2] wire_cache_promotion v2]
      tric_write_ttl_deadline[OF stepped_inv(1)[OF t2] wire_cache_promotion this]]
  obtain T3 b where T3: "tric_write_ttl k ?ttl T2 = (Ret (), T3)" and b: "tric_now T2 \<le> b"
      and t3: "tric_stepped T2 T3 (\<lambda>t m. m(k := if t < b + ?ttl then Some v else None))" and c3: "clock_used T2 T3"
    by (auto elim!: returnsE)
  have "tric_now T2 = tr_clock ?T 2" "tric_now T3 = tr_clock ?T 3"
    using c1 c2 c3 by (simp_all add: tric_now_def clock_used_def numeral_eq_Suc)
  then have "tric_now T3 < b + ?ttl" using soon b by simp
  with t3 have v3: "tric_view T3 (tric_now T3) k = Some v" by (simp add: bus_step_def)
  let ?P = "P\<lparr>pm_transient := T3, pm_persistent := S1\<rparr>"
  have run: "permutive_read_value eng k P = (Ret (Some v), ?P)"
    using T1 S1 T2 T3 by (simp add: permutive_read_value_def on_transient_def on_persistent_def op_on_def op_bind_def op_ret_def)
  have "permutive_inv eng ?P" using permutive_read_value_spec[OF inv, of k] by (simp add: returns_def run bus_step_def)
  moreover have "held eng k v ?P" using s1 stored by (simp add: held_def bus_step_def sqlite_now_def)
  ultimately show thesis using that run v3 by (simp add: cached_def permutive_now_def)
qed

text \<open>Both ask the transient tier before either asks the persistent one.\<close>

lemma both_claim:
  assumes inv: "permutive_inv eng P" and stored: "held eng k v P" and hot: "cached k v P"
  shows "\<exists>P'. (interleave ^^ 6) (P, [claim eng k v, claim eng k v]) (P', [finish (Matched True), finish (Matched True)])"
proof -
  let ?T = "pm_transient P" and ?S = "pm_persistent P"
  note T = permutive_invD(1)[OF inv] and S = permutive_invD(2)[OF inv]
  obtain T1 where T1: "tric_delete_value_if_match k v ?T = (Ret True, T1)" and t1: "tric_stepped ?T T1 (\<lambda>t m. m(k := None))"
    using tb_cas[OF T, of k v] hot by (auto elim!: returnsE simp: cached_def permutive_now_def)
  have gone: "tric_view T1 (tric_now T1) k = None" using t1 by (simp add: bus_step_def)
  obtain T2 where T2: "tric_delete_value_if_match k v T1 = (Ret False, T2)"
    using tb_cas[OF stepped_inv(1)[OF t1], of k v] gone by (auto elim!: returnsE)
  have conn: "sqlite_read_connection (parse_namespace k) ?S = (Ret True, ?S)"
    using read_connection_quiet[OF S, of "parse_namespace k"] stored unconnected_view[of ?S k eng 0]
    by (cases "map_of (sb_databases ?S) (parse_namespace k)") (auto elim!: returnsE simp: held_def)
  obtain S1 where S1: "remove_row_if_match eng k v ?S = (Ret True, S1)" and s1: "sqlite_stepped eng ?S S1 (\<lambda>t m. m(k := None))"
    using remove_row_if_match_law[OF S, of k v] stored by (auto elim!: returnsE simp: held_def)
  have "sqlite_view eng S1 0 k = None" using s1 by (simp add: bus_step_def sqlite_now_def)
  then obtain S2 where S2: "remove_row_if_match eng k v S1 = (Ret False, S2)"
    using remove_row_if_match_law[OF stepped_inv(2)[OF s1], of k v] by (auto elim!: returnsE)
  let ?P = "\<lambda>T S. P\<lparr>pm_transient := T, pm_persistent := S\<rparr>"
  let ?Start = "atomic (on_transient (tric_delete_value_if_match k v)) (\<lambda>b. match_steps eng k v (\<lambda>p. finish (Matched (b \<or> p))))"
  let ?Find = "\<lambda>b. match_steps eng k v (\<lambda>p. finish (Matched (b \<or> p)))"
  let ?Row = "\<lambda>b. atomic (on_persistent (remove_row_if_match eng k v)) (\<lambda>p. finish (Matched (b \<or> p)))"
  let ?Won = "finish (Matched True)"
  note on = on_transient_def on_persistent_def op_on_def
  have "(interleave ^^ 6) (?P ?T ?S, [?Start, ?Start]) (?P T2 S2, [?Won, ?Won])"
  proof (rule six_steps)
    show "interleave (?P ?T ?S, [?Start, ?Start]) (?P T1 ?S, [?Find True, ?Start])"
      by (rule step_first[where x = True]) (simp add: on T1, rule refl)
    show "interleave (?P T1 ?S, [?Find True, ?Start]) (?P T2 ?S, [?Find True, ?Find False])"
      by (rule step_second[where x = False]) (simp add: on T2, rule refl)
    show "interleave (?P T2 ?S, [?Find True, ?Find False]) (?P T2 ?S, [?Row True, ?Find False])"
      unfolding match_steps_def by (rule step_first[where x = True]) (simp add: on conn, simp)
    show "interleave (?P T2 ?S, [?Row True, ?Find False]) (?P T2 ?S, [?Row True, ?Row False])"
      unfolding match_steps_def by (rule step_second[where x = True]) (simp add: on conn, simp)
    show "interleave (?P T2 ?S, [?Row True, ?Row False]) (?P T2 S1, [?Row True, ?Won])"
      by (rule step_second[where x = True]) (simp add: on S1, simp)
    show "interleave (?P T2 S1, [?Row True, ?Won]) (?P T2 S2, [?Won, ?Won])"
      by (rule step_first[where x = False]) (simp add: on S2, simp)
  qed
  then show ?thesis unfolding call_thread.simps by auto
qed

text \<open>C10: A job that has been looked at can be claimed twice: after a read of a persistent value, two
  threads that compare and delete it at the same time are both told that they had it, one by the
  cache and one by the database.\<close>

theorem read_job_claimed_twice:
  assumes inv: "permutive_inv eng P" and stored: "sqlite_view eng (pm_persistent P) 0 k = Some v"
    and uncached: "tric_view (pm_transient P) (permutive_now P) k = None"
    and soon: "tr_clock (pm_transient P) 3 < tr_clock (pm_transient P) 2 + from_secs cache_promotion_seconds"
  shows "\<exists>P1 P2. permutive_read_value eng k P = (Ret (Some v), P1) \<and>
    (interleave ^^ 6) (P1, [call_thread eng (Delete_If_Match k v), call_thread eng (Delete_If_Match k v)])
      (P2, [finish (Matched True), finish (Matched True)])"
proof -
  have "held eng k v P" using stored by (simp add: held_def)
  from read_fills_cache[OF inv this uncached soon] obtain P1 where "permutive_read_value eng k P = (Ret (Some v), P1)"
    and "permutive_inv eng P1" "held eng k v P1" "cached k v P1" .
  with both_claim show ?thesis by blast
qed

lemma sample_soon:
  "tr_clock (pm_transient sample_permutive) 3 < tr_clock (pm_transient sample_permutive) 2 + from_secs cache_promotion_seconds"
  by (simp add: sample_permutive_def fresh_permutive_def create_tric_def from_secs_def cache_promotion_seconds_def)

lemma read_job_claimed_twice_witness:
  "\<exists>P1 P2. permutive_read_value mem_sqlite (str ''a:k'') sample_permutive = (Ret (Some [7]), P1) \<and>
    (interleave ^^ 6) (P1, [call_thread mem_sqlite (Delete_If_Match (str ''a:k'') [7]),
        call_thread mem_sqlite (Delete_If_Match (str ''a:k'') [7])])
      (P2, [finish (Matched True), finish (Matched True)])"
  by (rule read_job_claimed_twice[OF sample_permutive_inv sample_uncached(1,2) sample_soon])

lemma concurrent_claims_bounded_witness:
  "\<exists>P P' threads. permutive_inv mem_sqlite P \<and>
    (interleave ^^ 6) (P, replicate 2 (call_thread mem_sqlite (Delete_If_Match (str ''a:k'') [7]))) (P', threads) \<and>
    winners threads = 2 \<and> winners threads \<le> copies mem_sqlite (str ''a:k'') [7] P"
proof -
  have "held mem_sqlite (str ''a:k'') [7] sample_permutive" unfolding held_def by (rule sample_uncached)
  from read_fills_cache[OF sample_permutive_inv this sample_uncached(2) sample_soon] obtain P1 where
    P1: "permutive_inv mem_sqlite P1" "held mem_sqlite (str ''a:k'') [7] P1" "cached (str ''a:k'') [7] P1" .
  let ?Won = "finish (Matched True)"
  obtain P' where "(interleave ^^ 6) (P1, [claim mem_sqlite (str ''a:k'') [7], claim mem_sqlite (str ''a:k'') [7]]) (P', [?Won, ?Won])"
    using both_claim[OF P1] by blast
  then have run: "(interleave ^^ 6) (P1, replicate 2 (claim mem_sqlite (str ''a:k'') [7])) (P', [?Won, ?Won])"
    by (simp only: numeral_2_eq_2 replicate_Suc replicate_0)
  have two: "winners [?Won, ?Won] = 2" by (simp add: winners_def)
  from concurrent_claims_bounded[OF P1(1) run] P1(1) run two show ?thesis by blast
qed

end
