(* ===== verification/Logger.thy ===== *)
theory Logger
  imports Utf8 Prelude
begin

text \<open>
  \<open>src/modules/logger.rs\<close>: the datagrams sent to the system log. The clock reading is an argument,
  in seconds since the epoch, and so is what the system says to a connection attempt. The calendar arithmetic of the source is on \<open>u64\<close>; the lemmas
  show that no subtraction in it goes below zero, so the naturals are the same.
\<close>

section \<open>Dates\<close>

definition day_of_era :: "nat \<Rightarrow> nat" where
  "day_of_era days_since_epoch =
     (let z = days_since_epoch + 719468; era = z div 146097 in z - era * 146097)"

definition year_of_era :: "nat \<Rightarrow> nat" where
  "year_of_era doe = (doe - doe div 1460 + doe div 36524 - doe div 146096) div 365"

definition month_and_day :: "nat \<Rightarrow> nat \<times> nat" where
  "month_and_day day_of_year =
     (let month = (5 * day_of_year + 2) div 153;
          day = day_of_year - (153 * month + 2) div 5 + 1;
          month = (if month < 10 then month + 3 else month - 9)
      in (month, day))"

definition days_to_date :: "nat \<Rightarrow> nat \<times> nat \<times> nat" where
  "days_to_date days_since_epoch =
     (let z = days_since_epoch + 719468;
          era = z div 146097;
          doe = day_of_era days_since_epoch;
          yoe = year_of_era doe;
          year = yoe + era * 400;
          day_of_year = doe - (365 * yoe + yoe div 4 - yoe div 100);
          (month, day) = month_and_day day_of_year;
          year = (if month \<le> 2 then year + 1 else year)
      in (year, month, day))"

section \<open>Log lines\<close>

definition month_name :: "nat \<Rightarrow> bytes" where
  "month_name month =
     (if month = 1 then str ''Jan'' else if month = 2 then str ''Feb'' else if month = 3 then str ''Mar''
      else if month = 4 then str ''Apr'' else if month = 5 then str ''May'' else if month = 6 then str ''Jun''
      else if month = 7 then str ''Jul'' else if month = 8 then str ''Aug'' else if month = 9 then str ''Sep''
      else if month = 10 then str ''Oct'' else if month = 11 then str ''Nov'' else if month = 12 then str ''Dec''
      else str ''???'')"

text \<open>\<open>{:>2}\<close> and \<open>{:02}\<close>: a number filled up on the left to two bytes.\<close>

definition pad2 :: "byte \<Rightarrow> nat \<Rightarrow> bytes" where
  "pad2 fill n = replicate (2 - length (dec_nat n)) fill @ dec_nat n"

definition format_timestamp :: "nat \<Rightarrow> bytes" where
  "format_timestamp secs =
     (let days = secs div 86400;
          time_of_day = secs mod 86400;
          hours = time_of_day div 3600;
          minutes = (time_of_day mod 3600) div 60;
          seconds = time_of_day mod 60
      in case days_to_date days of (year, month, day) \<Rightarrow>
           month_name month @ str '' '' @ pad2 32 day @ str '' '' @ pad2 48 hours @ str '':'' @ pad2 48 minutes
             @ str '':'' @ pad2 48 seconds)"

datatype severity = Info | Warning | Error_Severity

fun severity_code :: "severity \<Rightarrow> nat" where
  "severity_code Info = 6"
| "severity_code Warning = 4"
| "severity_code Error_Severity = 3"

definition syslog_datagram :: "severity \<Rightarrow> nat \<Rightarrow> bytes \<Rightarrow> bytes" where
  "syslog_datagram severity secs message =
     (let priority = 3 * 8 + severity_code severity
      in str ''<'' @ dec_nat priority @ str ''>'' @ format_timestamp secs @ str '' tric-server: '' @ message)"

text \<open>
  The connection: the first of three paths that can be connected to. It is tried once, at the first
  message, and its outcome is kept for the life of the process. \<open>connects\<close> is whether an unbound
  socket can be had and connected to a path at the time of the call.
\<close>

record logger =
  lg_socket :: "bytes option option"
  lg_sent :: "(bytes \<times> bytes) list"

definition syslog_paths :: "bytes list" where
  "syslog_paths = [str ''/dev/log'', str ''/var/run/log'', str ''/var/run/syslog'']"

definition create_syslog_connection :: "(bytes \<Rightarrow> bool) \<Rightarrow> bytes option" where
  "create_syslog_connection connects = find connects syslog_paths"

definition write_syslog :: "(bytes \<Rightarrow> bool) \<Rightarrow> nat \<Rightarrow> severity \<Rightarrow> bytes \<Rightarrow> logger \<Rightarrow> logger" where
  "write_syslog connects secs severity message lg =
     (let socket = (case lg_socket lg of Some socket \<Rightarrow> socket | None \<Rightarrow> create_syslog_connection connects);
          lg = lg\<lparr>lg_socket := Some socket\<rparr>
      in case socket of
           None \<Rightarrow> lg
         | Some path \<Rightarrow> lg\<lparr>lg_sent := lg_sent lg @ [(path, syslog_datagram severity secs message)]\<rparr>)"

definition log_info :: "(bytes \<Rightarrow> bool) \<Rightarrow> nat \<Rightarrow> bytes \<Rightarrow> logger \<Rightarrow> logger" where
  "log_info connects secs = write_syslog connects secs Info"

definition log_warning :: "(bytes \<Rightarrow> bool) \<Rightarrow> nat \<Rightarrow> bytes \<Rightarrow> logger \<Rightarrow> logger" where
  "log_warning connects secs = write_syslog connects secs Warning"

definition log_error :: "(bytes \<Rightarrow> bool) \<Rightarrow> nat \<Rightarrow> bytes \<Rightarrow> logger \<Rightarrow> logger" where
  "log_error connects secs = write_syslog connects secs Error_Severity"

text \<open>A process whose first message finds no log never logs, though the log may come up later.\<close>

lemma write_syslog_decided:
  "lg_socket lg = Some None \<Longrightarrow> write_syslog connects secs severity message lg = lg"
  "lg_socket lg = Some (Some path) \<Longrightarrow> write_syslog connects secs severity message lg =
    lg\<lparr>lg_sent := lg_sent lg @ [(path, syslog_datagram severity secs message)]\<rparr>"
  by (simp_all add: write_syslog_def)

lemma first_message_decides:
  assumes "\<And>path. path \<in> set syslog_paths \<Longrightarrow> \<not> connects path"
  shows "fold (\<lambda>(connects, secs, severity, message). write_syslog connects secs severity message) later
      (write_syslog connects secs severity message \<lparr>lg_socket = None, lg_sent = []\<rparr>) = \<lparr>lg_socket = Some None, lg_sent = []\<rparr>"
proof -
  have "find connects syslog_paths = None" using assms by (auto simp: find_None_iff)
  then have first: "write_syslog connects secs severity message \<lparr>lg_socket = None, lg_sent = []\<rparr> = \<lparr>lg_socket = Some None, lg_sent = []\<rparr>"
    by (simp add: write_syslog_def create_syslog_connection_def)
  have "fold (\<lambda>(connects, secs, severity, message). write_syslog connects secs severity message) later
      \<lparr>lg_socket = Some None, lg_sent = []\<rparr> = \<lparr>lg_socket = Some None, lg_sent = []\<rparr>"
    by (induction later) (auto simp: write_syslog_decided)
  then show ?thesis by (simp add: first)
qed

section \<open>The calendar\<close>

definition leap_year :: "nat \<Rightarrow> bool" where
  "leap_year y \<longleftrightarrow> 4 dvd y \<and> (\<not> 100 dvd y \<or> 400 dvd y)"

definition month_length :: "nat \<Rightarrow> nat \<Rightarrow> nat" where
  "month_length y m =
     (if m = 2 then (if leap_year y then 29 else 28) else if m \<in> {4, 6, 9, 11} then 30 else 31)"

definition next_date :: "nat \<times> nat \<times> nat \<Rightarrow> nat \<times> nat \<times> nat" where
  "next_date d = (case d of (y, m, d) \<Rightarrow>
     if d < month_length y m then (y, m, d + 1) else if m < 12 then (y, m + 1, 1) else (y + 1, 1, 1))"

text \<open>
  A day of an era of 400 years, which begins on the first of March: the century \<open>a\<close>, the group of four
  years \<open>c\<close> in it, the year \<open>e\<close> in the group and the day \<open>t\<close> in the year. The last year of a group has
  a leap day at its end, except at the end of the first three centuries.
\<close>

definition era_day :: "nat \<Rightarrow> nat \<Rightarrow> nat \<Rightarrow> nat \<Rightarrow> nat" where
  "era_day a c e t = 36524 * a + 1461 * c + 365 * e + t"

definition long_year :: "nat \<Rightarrow> nat \<Rightarrow> nat \<Rightarrow> bool" where
  "long_year a c e \<longleftrightarrow> e = 3 \<and> (c < 24 \<or> a = 3)"

definition era_ok :: "nat \<Rightarrow> nat \<Rightarrow> nat \<Rightarrow> nat \<Rightarrow> bool" where
  "era_ok a c e t \<longleftrightarrow> a \<le> 3 \<and> c \<le> 24 \<and> e \<le> 3 \<and> t < (if long_year a c e then 366 else 365)"

lemma era_day_exists:
  assumes "d < 146097"
  obtains a c e t where "era_ok a c e t" and "d = era_day a c e t"
proof -
  define a where "a = min 3 (d div 36524)"
  define r where "r = d - 36524 * a"
  define c where "c = r div 1461"
  define r' where "r' = r - 1461 * c"
  define e where "e = min 3 (r' div 365)"
  define t where "t = r' - 365 * e"
  have a: "a \<le> 3" "36524 * a \<le> d" "d < 36524 * a + (if a = 3 then 36525 else 36524)"
    using assms by (auto simp: a_def min_def)
  then have r: "d = 36524 * a + r" "r < (if a = 3 then 36525 else 36524)" by (auto simp: r_def split: if_splits)
  have c: "r = 1461 * c + r'" "r' < 1461" by (auto simp: c_def r'_def mult.commute minus_mult_div_eq_mod)
  have "c \<le> 24" using r(2) by (auto simp: c_def split: if_splits)
  have e: "e \<le> 3" "r' = 365 * e + t" "t < (if e = 3 then 366 else 365)"
    using c(2) by (auto simp: e_def t_def min_def split: if_splits)
  have "t < (if long_year a c e then 366 else 365)"
  proof (cases "e = 3 \<and> c = 24 \<and> a \<noteq> 3")
    case True
    with r c e show ?thesis by (auto simp: long_year_def split: if_splits)
  next
    case False
    with e \<open>c \<le> 24\<close> show ?thesis by (auto simp: long_year_def)
  qed
  with a(1) \<open>c \<le> 24\<close> e(1) have "era_ok a c e t" by (simp add: era_ok_def)
  moreover have "d = era_day a c e t" using r(1) c(1) e(2) by (simp add: era_day_def)
  ultimately show thesis by (rule that)
qed

lemma year_of_era_day:
  assumes "era_ok a c e t"
  shows "year_of_era (era_day a c e t) = 100 * a + 4 * c + e"
proof -
  let ?d = "era_day a c e t"
  have lim: "a \<le> 3" "c \<le> 24" "e \<le> 3" "t \<le> 365" "t = 365 \<Longrightarrow> e = 3 \<and> (c = 24 \<longrightarrow> a = 3)"
    using assms by (auto simp: era_ok_def long_year_def split: if_splits)
  then have tlast: "t < 365 \<or> t = 365 \<and> e = 3 \<and> c < 24 \<or> t = 365 \<and> e = 3 \<and> c = 24 \<and> a = 3" by linarith
  let ?x = "24 * a + c + 365 * e + t"
  have "?d = 1460 * (25 * a + c) + ?x" by (simp add: era_day_def)
  then have d1: "?d div 1460 = 25 * a + c + ?x div 1460" by simp
  have x: "?x div 1460 = (if 1460 \<le> ?x then 1 else 0)" using lim by auto
  let ?y = "1461 * c + 365 * e + t"
  have "?d = 36524 * a + ?y" by (simp add: era_day_def)
  then have d2: "?d div 36524 = a + ?y div 36524" by simp
  have y: "?y div 36524 = (if 36524 \<le> ?y then 1 else 0)" using lim by auto
  have d3: "?d div 146096 = (if 146096 \<le> ?d then 1 else 0)" using lim by (auto simp: era_day_def)
  let ?n = "?d - ?d div 1460 + ?d div 36524 - ?d div 146096" and ?q = "100 * a + 4 * c + e"
  have "365 * ?q \<le> ?n \<and> ?n < 365 * Suc ?q"
    unfolding d1 d2 d3 x y using lim(1-4) tlast by (auto simp: era_day_def)
  then show ?thesis
    unfolding year_of_era_def by (intro div_nat_eqI) (simp_all add: mult.commute)
qed

lemma day_of_year_era_day:
  assumes "era_ok a c e t"
  shows "era_day a c e t - (365 * (100 * a + 4 * c + e) + (100 * a + 4 * c + e) div 4 - (100 * a + 4 * c + e) div 100) = t"
proof -
  have lim: "a \<le> 3" "c \<le> 24" "e \<le> 3" using assms by (auto simp: era_ok_def)
  then have "(100 * a + 4 * c + e) div 4 = 25 * a + c" "(100 * a + 4 * c + e) div 100 = a" by auto
  then show ?thesis by (simp add: era_day_def)
qed

text \<open>No subtraction of the source goes below zero.\<close>

lemma days_to_date_no_underflow:
  assumes "d < 146097"
  shows "d div 1460 \<le> d" and "d div 146096 \<le> d - d div 1460 + d div 36524"
    and "365 * year_of_era d + year_of_era d div 4 - year_of_era d div 100 \<le> d"
    and "year_of_era d div 100 \<le> 365 * year_of_era d + year_of_era d div 4"
    and "(153 * ((5 * t + 2) div 153) + 2) div 5 \<le> (t::nat)"
proof -
  obtain a c e u where ok: "era_ok a c e u" and d: "d = era_day a c e u" by (rule era_day_exists[OF assms])
  have lim: "a \<le> 3" "c \<le> 24" "e \<le> 3" using ok by (auto simp: era_ok_def)
  then have "(100 * a + 4 * c + e) div 4 = 25 * a + c" "(100 * a + 4 * c + e) div 100 = a" by auto
  then show "365 * year_of_era d + year_of_era d div 4 - year_of_era d div 100 \<le> d"
    unfolding d year_of_era_day[OF ok] by (simp add: era_day_def)
  show "d div 146096 \<le> d - d div 1460 + d div 36524"
    using assms by (cases "d < 146096") auto
  have "(153 * m + 2) div 5 \<le> t" if "153 * m \<le> 5 * t + 2" for m using that by linarith
  from this[of "(5 * t + 2) div 153"] show "(153 * ((5 * t + 2) div 153) + 2) div 5 \<le> t"
    using times_div_less_eq_dividend[of 153 "5 * t + 2"] by simp
qed simp_all

text \<open>The date of day \<open>t\<close> of the year \<open>y\<close> that begins in March.\<close>

definition march_date :: "nat \<Rightarrow> nat \<Rightarrow> nat \<times> nat \<times> nat" where
  "march_date y t = (case month_and_day t of (m, d) \<Rightarrow> (if m \<le> 2 then y + 1 else y, m, d))"

lemma days_to_date_era:
  assumes "era_ok a c e t" and "n + 719468 = 146097 * era + era_day a c e t"
  shows "days_to_date n = march_date (400 * era + 100 * a + 4 * c + e) t"
proof -
  have "era_day a c e t < 146097"
    using assms(1) by (auto simp: era_ok_def era_day_def long_year_def split: if_splits)
  then have "(n + 719468) div 146097 = era" and "day_of_era n = era_day a c e t"
    by (simp_all add: assms(2) day_of_era_def Let_def)
  then show ?thesis
    unfolding days_to_date_def Let_def year_of_era_day[OF assms(1)] day_of_year_era_day[OF assms(1)] march_date_def
    by (simp only: year_of_era_day[OF assms(1)] day_of_year_era_day[OF assms(1)]) (simp add: algebra_simps split: prod.split)
qed

lemma month_and_day_table:
  assumes "t < 366"
  shows "month_and_day t =
    (if t < 31 then (3, t + 1) else if t < 61 then (4, t - 30) else if t < 92 then (5, t - 60)
     else if t < 122 then (6, t - 91) else if t < 153 then (7, t - 121) else if t < 184 then (8, t - 152)
     else if t < 214 then (9, t - 183) else if t < 245 then (10, t - 213) else if t < 275 then (11, t - 244)
     else if t < 306 then (12, t - 274) else if t < 337 then (1, t - 305) else (2, t - 336))"
proof -
  have "(5 * t + 2) div 153 =
    (if t < 31 then 0 else if t < 61 then 1 else if t < 92 then 2 else if t < 122 then 3 else if t < 153 then 4
     else if t < 184 then 5 else if t < 214 then 6 else if t < 245 then 7 else if t < 275 then 8
     else if t < 306 then 9 else if t < 337 then 10 else 11)"
    using assms by (auto intro!: div_nat_eqI)
  then show ?thesis by (auto simp: month_and_day_def)
qed

lemma march_date_next:
  assumes "t < (if leap_year (y + 1) then 366 else 365)"
  shows "next_date (march_date y t) =
    (if Suc t < (if leap_year (y + 1) then 366 else 365) then march_date y (Suc t) else march_date (y + 1) 0)"
proof -
  have "t < 366" using assms by (auto split: if_splits)
  then have "t < 30 \<or> t = 30 \<or> 31 \<le> t \<and> t < 60 \<or> t = 60 \<or> 61 \<le> t \<and> t < 91 \<or>
      t = 91 \<or> 92 \<le> t \<and> t < 121 \<or> t = 121 \<or> 122 \<le> t \<and> t < 152 \<or> t = 152
      \<or> 153 \<le> t \<and> t < 183 \<or> t = 183 \<or> 184 \<le> t \<and> t < 213 \<or> t = 213 \<or>
      214 \<le> t \<and> t < 244 \<or> t = 244 \<or> 245 \<le> t \<and> t < 274 \<or> t = 274 \<or> 275
      \<le> t \<and> t < 305 \<or> t = 305 \<or> 306 \<le> t \<and> t < 336 \<or> t = 336 \<or> 337 \<le>
      t \<and> t < 364 \<or> t = 364 \<or> t = 365"
    by presburger
  then show ?thesis
    using assms
    by (elim disjE) (simp_all add: march_date_def month_and_day_table next_date_def month_length_def, linarith+)
qed

lemma leap_year_era:
  assumes "era_ok a c e t"
  shows "leap_year (400 * era + 100 * a + 4 * c + e + 1) = long_year a c e"
proof -
  have lim: "a \<le> 3" "c \<le> 24" "e \<le> 3" using assms by (auto simp: era_ok_def)
  let ?y = "400 * era + 100 * a + 4 * c + e + 1"
  have whole: "k dvd k * q + r \<longleftrightarrow> r = k" if "0 < r" "r \<le> k" for k q r :: nat
    using that dvd_imp_le[of k r] dvd_add_right_iff[of k "k * q" r] by fastforce
  have "4 dvd ?y \<longleftrightarrow> e = 3"
    using whole[of "e + 1" 4 "100 * era + 25 * a + c"] lim by (simp add: algebra_simps)
  moreover have "100 dvd ?y \<longleftrightarrow> c = 24" if "e = 3"
    using whole[of "4 * c + 4" 100 "4 * era + a"] lim that by (simp add: algebra_simps)
  moreover have "400 dvd ?y \<longleftrightarrow> a = 3" if "e = 3" "c = 24"
    using whole[of "100 * a + 100" 400 era] lim that by (simp add: algebra_simps)
  ultimately show ?thesis
    using lim by (auto simp: leap_year_def long_year_def)
qed

lemma days_to_date_Suc: "days_to_date (Suc n) = next_date (days_to_date n)"
proof -
  define era where "era = (n + 719468) div 146097"
  have "(n + 719468) mod 146097 < 146097" by simp
  then obtain a c e t where ok: "era_ok a c e t" and "(n + 719468) mod 146097 = era_day a c e t"
    by (rule era_day_exists)
  then have n: "n + 719468 = 146097 * era + era_day a c e t"
    using div_mult_mod_eq[of "n + 719468" 146097] by (simp add: era_def)
  define y where "y = 400 * era + 100 * a + 4 * c + e"
  have len: "(if leap_year (y + 1) then 366 else 365) = (if long_year a c e then 366 else 365 :: nat)"
    unfolding y_def leap_year_era[OF ok] ..
  have t: "t < (if leap_year (y + 1) then 366 else 365)" using ok unfolding len by (simp add: era_ok_def)
  have today: "days_to_date n = march_date y t" unfolding y_def by (rule days_to_date_era[OF ok n])
  have lim: "a \<le> 3" "c \<le> 24" "e \<le> 3" using ok by (auto simp: era_ok_def)
  have first: "days_to_date (Suc n) = march_date (y + 1) 0" if "Suc t = (if long_year a c e then 366 else 365)"
  proof -
    consider "e < 3" | "e = 3" "c < 24" | "e = 3" "c = 24" "a < 3" | "e = 3" "c = 24" "a = 3"
      using lim by linarith
    then show ?thesis
    proof cases
      case 1
      then have "Suc n + 719468 = 146097 * era + era_day a c (e + 1) 0" using n that by (simp add: era_day_def long_year_def)
      moreover have "era_ok a c (e + 1) 0" using 1 lim by (simp add: era_ok_def)
      ultimately show ?thesis using days_to_date_era[of a c "e + 1" 0 "Suc n" era] by (simp add: y_def)
    next
      case 2
      then have "Suc n + 719468 = 146097 * era + era_day a (c + 1) 0 0" using n that by (simp add: era_day_def long_year_def)
      moreover have "era_ok a (c + 1) 0 0" using 2 lim by (simp add: era_ok_def)
      ultimately show ?thesis using days_to_date_era[of a "c + 1" 0 0 "Suc n" era] 2 by (simp add: y_def algebra_simps)
    next
      case 3
      then have "Suc n + 719468 = 146097 * era + era_day (a + 1) 0 0 0" using n that by (simp add: era_day_def long_year_def)
      moreover have "era_ok (a + 1) 0 0 0" using 3 lim by (simp add: era_ok_def)
      ultimately show ?thesis using days_to_date_era[of "a + 1" 0 0 0 "Suc n" era] 3 by (simp add: y_def algebra_simps)
    next
      case 4
      then have "Suc n + 719468 = 146097 * (era + 1) + era_day 0 0 0 0" using n that by (simp add: era_day_def long_year_def)
      moreover have "era_ok 0 0 0 0" by (simp add: era_ok_def)
      ultimately show ?thesis using days_to_date_era[of 0 0 0 0 "Suc n" "era + 1"] 4 by (simp add: y_def algebra_simps)
    qed
  qed
  show ?thesis
  proof (cases "Suc t < (if long_year a c e then 366 else 365)")
    case True
    then have "era_ok a c e (Suc t)" using ok by (simp add: era_ok_def)
    moreover have "Suc n + 719468 = 146097 * era + era_day a c e (Suc t)" using n by (simp add: era_day_def)
    ultimately have "days_to_date (Suc n) = march_date y (Suc t)" unfolding y_def by (rule days_to_date_era)
    with True show ?thesis unfolding today march_date_next[OF t] len by simp
  next
    case False
    with t have "Suc t = (if long_year a c e then 366 else 365)" unfolding len by linarith
    from first[OF this] False show ?thesis unfolding today march_date_next[OF t] len by simp
  qed
qed

lemma days_to_date_0: "days_to_date 0 = (1970, 1, 1)"
  by (simp add: days_to_date_def day_of_era_def year_of_era_def month_and_day_def)

lemma days_to_date_valid:
  "case days_to_date n of (y, m, d) \<Rightarrow> 1 \<le> m \<and> m \<le> 12 \<and> 1 \<le> d \<and> d \<le> month_length y m"
proof (induction n)
  case 0
  show ?case by (simp add: days_to_date_0 month_length_def)
next
  case (Suc n)
  then show ?case
    by (auto simp: days_to_date_Suc next_date_def month_length_def split: prod.splits if_splits)
qed

lemma length_dec_nat: "n < 100 \<Longrightarrow> length (dec_nat n) = (if n < 10 then 1 else 2)"
  by (simp add: dec_nat.simps[of n] dec_nat.simps[of "n div 10"])

lemma length_pad2: "n < 100 \<Longrightarrow> length (pad2 fill n) = 2"
  by (simp add: pad2_def length_dec_nat)

lemma length_month_name: "length (month_name m) = 3"
  by (simp add: month_name_def)

section \<open>Properties\<close>

text \<open>C37: The date of a log line is the right one: the closed formula counts the days from the first of
  January 1970 in the Gregorian calendar, leap years included, for every number of days.\<close>

theorem days_to_date_calendar: "days_to_date n = (next_date ^^ n) (1970, 1, 1)"
  by (induction n) (simp_all add: days_to_date_0 days_to_date_Suc)

text \<open>Every log line begins with a priority of the daemon facility and a timestamp of fifteen bytes
  with the name of a month, whatever the clock says.\<close>

theorem timestamp_shape:
  "length (format_timestamp secs) = 15 \<and> take 3 (format_timestamp secs) \<noteq> str ''???'' \<and>
   take 4 (syslog_datagram severity secs message) \<in> {str ''<30>'', str ''<28>'', str ''<27>''}"
proof -
  obtain y m d where date: "days_to_date (secs div 86400) = (y, m, d)" by (cases "days_to_date (secs div 86400)")
  have m: "1 \<le> m" "m \<le> 12" and d: "d < 100"
    using days_to_date_valid[of "secs div 86400"] by (auto simp: date month_length_def split: if_splits)
  have "secs mod 86400 mod 3600 div 60 < 100" "secs mod 86400 div 3600 < 100" "secs mod 86400 mod 60 < 100"
    by (simp_all add: less_mult_imp_div_less)
  then have "length (format_timestamp secs) = 15"
    using d by (simp add: format_timestamp_def Let_def date length_pad2 length_month_name)
  moreover have "take 3 (format_timestamp secs) = month_name m"
    by (simp add: format_timestamp_def Let_def date length_month_name)
  moreover have "month_name m \<noteq> str ''???''"
  proof -
    have "m = 1 \<or> m = 2 \<or> m = 3 \<or> m = 4 \<or> m = 5 \<or> m = 6 \<or> m = 7 \<or> m = 8 \<or> m = 9 \<or> m = 10 \<or> m = 11 \<or> m = 12"
      using m by presburger
    then show ?thesis by (elim disjE) (simp_all add: month_name_def)
  qed
  moreover have "dec_nat 30 = [51, 48]" "dec_nat 28 = [50, 56]" "dec_nat 27 = [50, 55]"
    by (simp_all add: dec_nat.simps)
  ultimately show ?thesis
    by (cases severity) (simp_all add: syslog_datagram_def)
qed

end
