(* ===== verification/Placeholder.thy ===== *)
theory Placeholder
  imports Server
begin

text \<open>
  \<open>src/modules/placeholder.rs\<close>: the module that does nothing but read one key and renew its lease, every
  five seconds, for ever. Its run is modelled up to its \<open>n\<close>-th heartbeat; the time that passes between two
  heartbeats shows in the readings of the clock of the core bus.
\<close>

definition placeholder_key :: bytes where
  "placeholder_key = str ''module:placeholder''"

definition placeholder_beat :: "(('st, 'p) server, unit) op" where
  "placeholder_beat = on_core (tric_write_ttl placeholder_key (from_secs 15))"

definition placeholder_run :: "'st data_bus \<Rightarrow> nat \<Rightarrow> (('st, 'p) server, unit) op" where
  "placeholder_run bus n =
     op_bind (on_storage (bus_read_value bus (str ''probe''))) (\<lambda>_.
     op_each (\<lambda>_. placeholder_beat) (replicate n ()))"

text \<open>A heartbeat in time renews the lease: it is there at the next reading of the clock, if that is in time.\<close>

lemma beat_renews:
  assumes inv: "tric_inv T" and live: "tric_view T (tric_now T) k \<noteq> None"
    and soon: "tr_clock T 1 < tr_clock T 0 + from_secs 15"
  shows "returns (tric_write_ttl k (from_secs 15)) T
    (\<lambda>_ T'. tric_inv T' \<and> clock_used T T' \<and> tric_view T' (tric_now T') k \<noteq> None)"
proof -
  obtain v where v: "tric_view T (tric_now T) k = Some v" using live by auto
  show ?thesis
  proof (rule returns_mono[OF returns_conj[OF tb_write_ttl_value[OF inv wire_heartbeat v]
        tric_write_ttl_deadline[OF inv wire_heartbeat live]]], elim conjE exE)
    fix x T' b
    assume b: "tric_now T \<le> b" and used: "clock_used T T'"
      and step: "tric_stepped T T' (\<lambda>t m. m(k := if t < b + from_secs 15 then Some v else None))"
    have "tric_now T' = tr_clock T 1" "tric_now T = tr_clock T 0" using used by (simp_all add: tric_now_def clock_used_def)
    with soon b have "tric_now T' < b + from_secs 15" by simp
    with step used show "tric_inv T' \<and> clock_used T T' \<and> tric_view T' (tric_now T') k \<noteq> None"
      by (simp add: bus_step_def)
  qed
qed

lemma beats_renew:
  assumes "tric_inv (sv_core_bus s)" and "tric_view (sv_core_bus s) (tric_now (sv_core_bus s)) placeholder_key \<noteq> None"
    and "\<forall>i < n. tr_clock (sv_core_bus s) (Suc i) < tr_clock (sv_core_bus s) i + from_secs 15"
  shows "returns (op_each (\<lambda>_. placeholder_beat) (replicate n ())) s
    (\<lambda>_ s'. tric_view (sv_core_bus s') (tric_now (sv_core_bus s')) placeholder_key \<noteq> None \<and> sv_storage s' = sv_storage s)"
  using assms
proof (induction n arbitrary: s)
  case 0
  then show ?case by (simp add: wp)
next
  case (Suc n)
  have soon: "tr_clock (sv_core_bus s) 1 < tr_clock (sv_core_bus s) 0 + from_secs 15" using Suc.prems(3) by auto
  show ?case
    unfolding replicate_Suc op_each.simps returns_bind placeholder_beat_def on_core_def returns_on
  proof (rule returns_mono[OF beat_renews[OF Suc.prems(1,2) soon]], elim conjE)
    fix x T'
    assume T': "tric_inv T'" "clock_used (sv_core_bus s) T'" "tric_view T' (tric_now T') placeholder_key \<noteq> None"
    let ?s = "s\<lparr>sv_core_bus := T'\<rparr>"
    have "returns (op_each (\<lambda>_. placeholder_beat) (replicate n ())) ?s
        (\<lambda>_ s'. tric_view (sv_core_bus s') (tric_now (sv_core_bus s')) placeholder_key \<noteq> None \<and> sv_storage s' = sv_storage ?s)"
      by (rule Suc.IH) (use T' Suc.prems(3) in \<open>auto simp: clock_used_def\<close>)
    then show "returns (op_each (\<lambda>_. op_on sv_core_bus (\<lambda>t s. s\<lparr>sv_core_bus := t\<rparr>) (tric_write_ttl placeholder_key (from_secs 15)))
          (replicate n ())) ?s
        (\<lambda>_ s'. tric_view (sv_core_bus s') (tric_now (sv_core_bus s')) placeholder_key \<noteq> None \<and> sv_storage s' = sv_storage s)"
      by (simp add: placeholder_beat_def on_core_def)
  qed
qed

text \<open>The placeholder module never loses its lease: as long as its heartbeats come within fifteen
  seconds of each other, the supervisor finds its key after each of them.\<close>

theorem placeholder_keeps_lease:
  assumes storage: "permutive_inv eng (sv_storage s)" and core: "tric_inv (sv_core_bus s)"
    and leased: "tric_view (sv_core_bus s) (tric_now (sv_core_bus s)) placeholder_key \<noteq> None"
    and in_time: "\<forall>i < n. tr_clock (sv_core_bus s) (Suc i) < tr_clock (sv_core_bus s) i + from_secs 15"
  shows "returns (placeholder_run (permutive_bus eng) n) s (\<lambda>_ s'.
    tric_view (sv_core_bus s') (tric_now (sv_core_bus s')) placeholder_key \<noteq> None \<and>
    permutive_stepped eng (sv_storage s) (sv_storage s') (\<lambda>t m. m))"
  unfolding placeholder_run_def returns_bind on_storage_def returns_on permutive_bus_simps
proof (rule returns_mono[OF permutive_read_value_spec[OF storage]], elim conjE)
  fix r P'
  assume step: "permutive_stepped eng (sv_storage s) P' (\<lambda>t m. m)"
  show "returns (op_each (\<lambda>_. placeholder_beat) (replicate n ())) (s\<lparr>sv_storage := P'\<rparr>) (\<lambda>_ s'.
      tric_view (sv_core_bus s') (tric_now (sv_core_bus s')) placeholder_key \<noteq> None \<and>
      permutive_stepped eng (sv_storage s) (sv_storage s') (\<lambda>t m. m))"
    by (rule returns_mono, rule beats_renew) (use core leased in_time step in auto)
qed

end
