(* ===== verification/Spec2Isabelle.thy ===== *)
theory Spec2Isabelle
  imports Bench Job_Claims Logger Placeholder
begin

text \<open>
  TRIC is a key-value server with two storage tiers: a transient store in memory with lifetimes, and
  a persistent tier of SQLite databases, one for each namespace of keys. Clients reach it by
  datagrams (a local socket, and an encrypted UDP protocol), administrators by text commands on a
  socket of their own; a supervisor restarts the threads of both. This development models the Rust
  program under \<open>src/src\<close> as functions of HOL and proves what its parts promise each other. This
  theory holds the properties that span components.

  \<^bold>\<open>How the code is written down.\<close> A call is an operation (type \<open>op\<close> of \<open>Prelude\<close>): from a state it
  returns a value, panics, or ends the process, and leaves a state in every case. \<open>returns m s Q\<close>
  is total correctness: the call returns, and its value and state satisfy \<open>Q\<close>. Byte strings and
  Rust strings are lists of 8-bit words, counters and lengths on the wire are words of their width,
  lengths in memory and instants are natural numbers, errors are values of sums and options. A poisoned
  mutex is part of the state. Calls of one thread are operations; where several threads are at work,
  their critical sections are the steps that interleave. Every definition is total: the loops of the code are recursions on lists or
  have a measure, and no fuel is used. The endless loops of the workers are given by their bodies
  and run over any finite list of received datagrams; the supervisor is a step relation.

  \<^bold>\<open>Theories and sources.\<close>
  \<^item> \<open>Prelude\<close>, \<open>Bytes\<close>, \<open>Utf8\<close>, \<open>Text\<close>, \<open>BTree\<close>: operations and their rules; big-endian integers; UTF-8
    checking and lossy decoding; string functions of the standard library; ordered maps.
  \<^item> \<open>Store\<close> (\<open>store.rs\<close>), \<open>Tric_Api\<close> (\<open>lib.rs\<close>): the three maps of the transient store and the handle
    that sweeps expired keys before every call. The clock is an arbitrary non-decreasing sequence
    of readings. Invariant, exact expiry and complete scans.
  \<^item> \<open>Data_Bus\<close> (\<open>core/data_bus.rs\<close>): the trait as a record of operations and its contract as the
    locales \<open>kv_bus\<close> and \<open>ttl_bus\<close>; clients are proved in the locales. \<open>Timed_Map\<close>: the abstract
    specification, one map from keys to values with optional deadlines, and the refinement of it by any bus.
  \<^item> \<open>Sqlite_Bus\<close>, \<open>Sqlite_Correct\<close> (\<open>core/sqlite_bus.rs\<close>): the persistent tier over a parameter for SQLite
    and the file system; interpretation \<open>sq\<close>; restart and failed opens.
  \<^item> \<open>Permutive_Bus\<close> (\<open>core/permutive_bus.rs\<close>): both tiers, the cache of sixty seconds and the merged scan;
    interpretation \<open>pb\<close> of \<open>ttl_bus\<close>, on which all properties of the server rest.
  \<^item> \<open>Interleave\<close>, \<open>Concurrent_Bus\<close>: threads that share a state and interleave at their critical sections;
    the calls of the two-tier bus cut at its locks, what no interleaving breaks and what one does.
    \<open>Job_Claims\<close>: how many of the threads that compare and delete the same value win.
  \<^item> \<open>Metrics\<close>, \<open>Auth\<close>, \<open>Codec\<close>, \<open>Query\<close>, \<open>Router\<close>, \<open>Server\<close> (\<open>modules/\<close> files of the same names, \<open>health.rs\<close>
    in \<open>Codec\<close>): counters; keys, handshake and sessions; both wire formats; SQL statements; the dispatch of the
    opcodes; the workers.
  \<^item> \<open>Core\<close> (\<open>core/mod.rs\<close>): supervisor and module threads, interleaved at the calls of the core bus.
    \<open>Placeholder\<close> (\<open>modules/placeholder.rs\<close>): the module that only keeps its lease.
  \<^item> \<open>Logger\<close>, \<open>Analyser\<close>, \<open>Import\<close>, \<open>Export\<close>, \<open>Cli\<close> (files of the same names): timestamps and the calendar; the
    storage plan of a dump; SQL import and archive differences; archives and SQL files; the admin
    commands. \<open>Archive\<close> and \<open>Cli_Correct\<close> hold the round trips through archives and dumps.
  \<^item> \<open>Clone\<close>: a cloned slot (\<open>create_clone\<close> of \<open>core/sqlite_bus.rs\<close>) and a restart, up to the two-tier bus.
    \<open>Tric_Main\<close> (\<open>main.rs\<close>): the command line, from the arguments to the start of the server, the clone or
    the answer of a running server. \<open>Bench\<close> (\<open>modules/benchmark.rs\<close>): the measured loops, and writers that
    share the transient store.

  \<^bold>\<open>Groups of lemmas.\<close> Each component has its invariant (\<open>store_inv\<close>, \<open>tric_inv\<close>, \<open>sqlite_inv\<close>,
  \<open>permutive_inv\<close>, \<open>core_inv\<close>) and the effect of each operation as a \<open>returns\<close> fact; the abstraction of a
  bus is its \<open>view\<close>: what a read finds at each later time. The refinement facts carry the effects to
  sequences of calls, requests and datagrams; the decoding facts show that what one side writes the
  other reads; the error facts give the answer to every malformed input.

  \<^bold>\<open>Parameters and hypotheses.\<close> Code that is not in the repository is an argument: SQLite and the file
  system (\<open>sqlite\<close>, with the laws \<open>sqlite_laws\<close> and \<open>sqlite_restart_laws\<close>; \<open>file_writer\<close>, \<open>archive_reader\<close>,
  \<open>admin_files\<close>; \<open>clone_dir_laws\<close> and \<open>clone_copy_laws\<close> for a copied database file, which has the rows of
  the file without those of its write-ahead log; \<open>works\<close> for the writer of an archive, which stores
  plain paths as they are), the datagram sockets of the clients (\<open>admin_socket\<close>, with \<open>delivers\<close>), the
  environment and the texts of system errors (\<open>machine\<close>), the cryptography (\<open>crypto\<close>, with
  \<open>aead_laws\<close>), the SQL parser (\<open>sql_library\<close>), the client library of Redis (\<open>redis\<close>) and the Unicode
  tables (\<open>unicode\<close>). Each law is shown to hold of a concrete instance: \<open>mem_sqlite\<close> for the engine,
  \<open>wal_sqlite\<close> for one with write-ahead logs, \<open>tar_writer\<close> for a writer that normalises paths as \<open>tar\<close> does.
  \<open>clock_ok\<close> says that time does not run backwards; \<open>storable_key\<close> that the namespace of a key
  is a plain file name, without which the open of its database can fail; \<open>wire_duration\<close> that a
  lifetime is a number of milliseconds of 64 bits.

  \<^bold>\<open>Not modelled.\<close> The workers are proved one at a time, each call of the bus as one step; calls of
  several threads are interleaved in \<open>Concurrent_Bus\<close> and \<open>Job_Claims\<close>, without the code around them. The two
  counters that a latency is added to are counted as one step. Log calls of the
  other components and messages to the terminal of the modules, the floating-point rate and the
  columns of the lines that the benchmark prints, the bindings for other languages, tests and
  documentation. \<open>core/module.rs\<close> and \<open>modules/mod.rs\<close> hold declarations only.
\<close>

section \<open>The storage engine\<close>

text \<open>C2: Any sequence of storage calls on the two-tier bus returns (no panic, no divergence) and its
  results are those of a single map from keys to values with optional deadlines: the tiers, the
  cache and its sixty seconds, and the lazy expiry are not observable through them. The calls write
  keys whose namespace is a plain file name and use durations that fit on the wire;
  \<open>read_ttl_remaining\<close>, which shows the lifetime of a copy in the cache, is not one of them.\<close>

theorem permutive_refines_timed_map:
  assumes "permutive_inv eng P" and "\<forall>c \<in> set calls. call_ok storable_key c"
  shows "returns (op_map (exec_call (permutive_bus eng)) calls) P (\<lambda>results P'. permutive_inv eng P' \<and>
    (\<exists>m'. explained calls (permutive_now P) (permutive_abs eng P) results (permutive_now P') m' \<and>
      represents permutive_now (permutive_view eng) P' m'))"
  by (rule pb.calls_refine[OF assms(1) permutive_represents[OF assms(1)] assms(2)])

lemma permutive_refines_timed_map_witness:
  "returns (op_map (exec_call (permutive_bus mem_sqlite)) [Write_Value (str ''a:k'') [1], Read_Value (str ''a:k'')])
    fresh_permutive (\<lambda>results P'. permutive_inv mem_sqlite P' \<and>
      (\<exists>m'. explained [Write_Value (str ''a:k'') [1], Read_Value (str ''a:k'')] (permutive_now fresh_permutive)
          (permutive_abs mem_sqlite fresh_permutive) results (permutive_now P') m' \<and>
        represents permutive_now (permutive_view mem_sqlite) P' m'))"
  by (rule permutive_refines_timed_map[OF fresh_permutive_inv])
    (auto intro!: ascii_storable)

text \<open>A value written through the bus is what the next read finds, for every key that can be
  stored, and the write changes no other key.\<close>

theorem permutive_write_then_read:
  assumes "permutive_inv eng P" and "storable_key k"
  shows "returns (op_bind (permutive_write_value eng k v) (\<lambda>_. permutive_read_value eng k')) P
    (\<lambda>r P'. \<exists>t. permutive_now P \<le> t \<and> t \<le> permutive_now P' \<and>
      r = (if k' = k then Some v else permutive_view eng P t k'))"
  using pb.write_then_read[OF assms] by simp

lemma permutive_write_then_read_witness:
  "returns (op_bind (permutive_write_value mem_sqlite (str ''a:k'') [7]) (\<lambda>_. permutive_read_value mem_sqlite (str ''a:k'')))
    fresh_permutive (\<lambda>r P'. \<exists>t. permutive_now fresh_permutive \<le> t \<and> t \<le> permutive_now P' \<and>
      r = (if str ''a:k'' = str ''a:k'' then Some [7] else permutive_view mem_sqlite fresh_permutive t (str ''a:k'')))"
  by (rule permutive_write_then_read[OF fresh_permutive_inv])
    (auto intro!: ascii_storable)

text \<open>C11: A value written with a lifetime is found until the lifetime is over, counted from an instant
  between the call and its return, and not after.\<close>

theorem permutive_lifetime:
  assumes "permutive_inv eng P" and "wire_duration d"
  shows "returns (op_bind (permutive_write_value_with_ttl eng k v d) (\<lambda>_.
      op_bind (op_get permutive_now) (\<lambda>t. op_bind (permutive_read_value eng k) (\<lambda>r. op_ret (t, r))))) P
    (\<lambda>(t, r) P'. \<exists>b. permutive_now P \<le> b \<and> b \<le> t \<and> r = (if t < b + d then Some v else None))"
  using pb.write_with_ttl_then_read[OF assms] by simp

lemma permutive_lifetime_witness:
  "returns (op_bind (permutive_write_value_with_ttl mem_sqlite [1] [2] (from_millis 500)) (\<lambda>_.
      op_bind (op_get permutive_now) (\<lambda>t. op_bind (permutive_read_value mem_sqlite [1]) (\<lambda>r. op_ret (t, r))))) fresh_permutive
    (\<lambda>(t, r) P'. \<exists>b. permutive_now fresh_permutive \<le> b \<and> b \<le> t \<and> r = (if t < b + from_millis 500 then Some [2] else None))"
  by (rule permutive_lifetime[OF fresh_permutive_inv wire_duration_from_millis])

text \<open>Of two compare-and-deletes of the same key, one after the other, at most one succeeds,
  whichever tier the key is in.\<close>

theorem permutive_cas_once:
  assumes "permutive_inv eng P"
  shows "returns (op_bind (permutive_delete_value_if_match eng k e) (\<lambda>a.
      op_bind (permutive_delete_value_if_match eng k e') (\<lambda>b. op_ret (a, b)))) P (\<lambda>(a, b) P'. \<not> (a \<and> b))"
  using pb.cas_at_most_one[OF assms] by simp

lemma permutive_cas_once_witness:
  "returns (op_bind (permutive_delete_value_if_match mem_sqlite [1] [2]) (\<lambda>a.
      op_bind (permutive_delete_value_if_match mem_sqlite [1] [2]) (\<lambda>b. op_ret (a, b)))) fresh_permutive (\<lambda>(a, b) P'. \<not> (a \<and> b))"
  by (rule permutive_cas_once[OF fresh_permutive_inv])

section \<open>The wire protocol\<close>

lemma op_map_bind_ret:
  "op_map (\<lambda>x. op_bind (f x) (\<lambda>r. op_ret (g r))) xs = op_bind (op_map f xs) (\<lambda>rs. op_ret (map g rs))"
  by (induction xs) (simp_all add: op_bind_assoc)

lemma op_map_cong: "(\<And>x. x \<in> set xs \<Longrightarrow> f x = g x) \<Longrightarrow> op_map f xs = op_map g xs"
  by (induction xs) simp_all

lemma op_map_map: "op_map f (map g xs) = op_map (\<lambda>x. f (g x)) xs"
  by (induction xs) simp_all

text \<open>C3: The whole path of a request, from its payload through the router, the bus and both tiers: any
  sequence of read, write, delete, compare-and-delete, lifetime and scan requests is answered, and
  the answers are those of one map with deadlines, in the encoding of the protocol.\<close>

theorem requests_refine_timed_map:
  assumes inv: "permutive_inv eng P"
    and ok: "\<forall>call \<in> set calls. wire_call_ok call \<and> call \<noteq> Wire_Ping \<and> call_ok storable_key (the (bus_call_of call))"
  shows "returns (op_map (\<lambda>call. dispatch_request lib (permutive_bus eng) m (wire_request i call is_local)) calls) P
    (\<lambda>answers P'. \<exists>results m'. answers = map (wire_answer i) results \<and> permutive_inv eng P' \<and>
      explained (map (the \<circ> bus_call_of) calls) (permutive_now P) (permutive_abs eng P) results (permutive_now P') m' \<and>
      represents permutive_now (permutive_view eng) P' m')"
proof -
  let ?bus = "permutive_bus eng"
  have "dispatch_request lib ?bus m (wire_request i call is_local) =
      op_bind (exec_call ?bus (the (bus_call_of call))) (\<lambda>r. op_ret (wire_answer i r))" if "call \<in> set calls" for call
    using ok that by (cases call) (auto simp: dispatch_wire)
  then have run: "op_map (\<lambda>call. dispatch_request lib ?bus m (wire_request i call is_local)) calls =
      op_bind (op_map (exec_call ?bus) (map (the \<circ> bus_call_of) calls)) (\<lambda>rs. op_ret (map (wire_answer i) rs))"
    by (simp add: op_map_bind_ret op_map_map cong: op_map_cong)
  show ?thesis
    unfolding run returns_bind returns_ret
    by (rule returns_mono[OF pb.calls_refine[OF inv permutive_represents[OF inv]]]) (use ok in auto)
qed

lemma requests_refine_timed_map_witness:
  "returns (op_map (\<lambda>call. dispatch_request plain_sql (permutive_bus mem_sqlite) create_metrics (wire_request 1 call True))
      [Wire_Write (str ''a:k'') [7] 0, Wire_Read (str ''a:k'')]) fresh_permutive
    (\<lambda>answers P'. \<exists>results m'. answers = map (wire_answer 1) results \<and> permutive_inv mem_sqlite P' \<and>
      explained (map (the \<circ> bus_call_of) [Wire_Write (str ''a:k'') [7] 0, Wire_Read (str ''a:k'')])
        (permutive_now fresh_permutive) (permutive_abs mem_sqlite fresh_permutive) results (permutive_now P') m' \<and>
      represents permutive_now (permutive_view mem_sqlite) P' m')"
  by (rule requests_refine_timed_map[OF fresh_permutive_inv]) (auto simp: wire_call_ok_def intro!: ascii_storable)

text \<open>C4: Every request is answered, whatever its opcode and payload (SQL included), with at least one
  response that carries its number, and the storage stays consistent, if the keys it writes can be
  stored; the server process ends on a local shutdown request and on no other.\<close>

theorem every_request_answered:
  assumes "permutive_inv eng P" and "request_storable lib storable_key request"
  shows "if rq_opcode request = 0x15 \<and> rq_is_local request
    then dispatch_request lib (permutive_bus eng) m request P = (Exited 0, P)
    else returns (dispatch_request lib (permutive_bus eng) m request) P (\<lambda>responses P'. permutive_inv eng P' \<and>
      responses \<noteq> [] \<and> (\<forall>r \<in> set responses. rs_request_id r = rq_request_id request))"
proof (cases "rq_opcode request = 0x15 \<and> rq_is_local request")
  case True
  then show ?thesis
    by (simp add: dispatch_request_def one_response_def parse_shutdown_def op_bind_def op_simps)
next
  case False
  then show ?thesis
    unfolding if_not_P[OF False] using pb.dispatch_answered[OF assms False] by (simp add: answers_def[abs_def])
qed

lemma every_request_answered_witness:
  "let request = \<lparr>rq_request_id = 4, rq_opcode = 0x19, rq_payload = [], rq_is_local = True\<rparr>
   in if rq_opcode request = 0x15 \<and> rq_is_local request
    then dispatch_request plain_sql (permutive_bus mem_sqlite) create_metrics request fresh_permutive = (Exited 0, fresh_permutive)
    else returns (dispatch_request plain_sql (permutive_bus mem_sqlite) create_metrics request) fresh_permutive
      (\<lambda>responses P'. permutive_inv mem_sqlite P' \<and>
        responses \<noteq> [] \<and> (\<forall>r \<in> set responses. rs_request_id r = rq_request_id request))"
  unfolding Let_def
  by (rule every_request_answered[OF fresh_permutive_inv]) (simp add: request_storable_def)

section \<open>The persistent tier\<close>

text \<open>C20: A single write to a namespace whose database file cannot be opened (a name with a NUL or a
  missing directory in it) panics with the lock of the persistent tier held, and from then on every
  persistent operation on every key panics: the lock stays poisoned.\<close>

theorem failed_open_poisons_forever:
  assumes "\<not> sb_poisoned s" and "map_of (sb_databases s) (parse_namespace key) = None"
    and "\<not> fst (sq_open eng (db_path (sb_directory s) (parse_namespace key)) (sb_disk s))"
  shows "let s' = snd (sqlite_write_value eng key v s) in fst (sqlite_write_value eng key v s) = Panicked \<and>
    sqlite_read_value eng k s' = (Panicked, s') \<and> sqlite_write_value eng k w s' = (Panicked, s') \<and>
    sqlite_delete_value eng k s' = (Panicked, s') \<and> sqlite_delete_value_if_match eng k w s' = (Panicked, s') \<and>
    sqlite_find_by_prefix eng pre s' = (Panicked, s')"
  using sqlite_write_open_fails[OF assms, of v] sqlite_poisoned_panics[of "snd (sqlite_write_value eng key v s)" eng]
  by (simp add: Let_def)

text \<open>An engine that, like the library, refuses a path with a NUL.\<close>

definition nul_sqlite :: "mem_disk sqlite" where
  "nul_sqlite = mem_sqlite\<lparr>sq_open := (\<lambda>p d. if 0 \<in> set p then (False, d) else sq_open mem_sqlite p d)\<rparr>"

lemma failed_open_poisons_forever_witness:
  "let s = pm_persistent fresh_permutive; s' = snd (sqlite_write_value nul_sqlite [0, 58] [1] s)
   in fst (sqlite_write_value nul_sqlite [0, 58] [1] s) = Panicked \<and>
    sqlite_read_value nul_sqlite [5] s' = (Panicked, s') \<and> sqlite_write_value nul_sqlite [5] [6] s' = (Panicked, s') \<and>
    sqlite_delete_value nul_sqlite [5] s' = (Panicked, s') \<and> sqlite_delete_value_if_match nul_sqlite [5] [6] s' = (Panicked, s') \<and>
    sqlite_find_by_prefix nul_sqlite [] s' = (Panicked, s')"
proof -
  have "utf8_valid [0, 58]" by (rule utf8_valid_ascii) auto
  then have "from_utf8 [0, 58] = Some [0, 58]" by (simp add: from_utf8_def)
  then have "parse_namespace [0, 58] = [0]" by (simp add: parse_namespace_def)
  then show ?thesis
    unfolding Let_def[of "pm_persistent fresh_permutive"]
    by (intro failed_open_poisons_forever)
      (simp_all add: fresh_permutive_def nul_sqlite_def db_path_def path_join_def path_base_def)
qed

end
